(* ===== verification/Xv6_Prelude.thy ===== *)
theory Xv6_Prelude
  imports Main "HOL-Library.Word"
begin

text \<open>
  Shared vocabulary of the development: the machine's integer types, the result type of
  kernel functions, the byte-level layout of on-disk and in-memory structures, and the
  generic lemmas on lists, scans and words that the component theories use.
\<close>

unbundle bit_operations_syntax

named_theorems res_simps \<open>unfolding of result combinators\<close>
named_theorems layout_simps \<open>reading back what was stored in a byte array\<close>

subsection \<open>Machine integers (types.h)\<close>

type_synonym byte = "8 word"
type_synonym ushort = "16 word"
type_synonym uint = "32 word"
type_synonym addr = "32 word"

subsection \<open>Sleep channels and results of kernel functions\<close>

text \<open>
  A channel is the address some process sleeps on.  Each constructor names the object
  whose address the source passes to \<open>sleep\<close> and \<open>wakeup\<close>.
\<close>

datatype chan =
    Ch_log | Ch_ticks | Ch_input_r
  | Ch_buf nat | Ch_buflock nat | Ch_inodelock nat | Ch_proc nat
  | Ch_nread addr | Ch_nwrite addr
  | Ch_exit

text \<open>
  A kernel function returns a value and the new state, stops the machine in \<open>panic\<close>, or
  puts the calling process to sleep on a channel (the state is the one it sleeps in).  A
  process that exits leaves the CPU for good: its channel is \<open>Ch_exit\<close>, which nothing wakes.
\<close>

datatype ('a, 's) res = Ok 'a 's | Panic string | Sleep chan 's

fun rbind :: "('a, 's) res \<Rightarrow> ('a \<Rightarrow> 's \<Rightarrow> ('b, 's) res) \<Rightarrow> ('b, 's) res" where
  "rbind (Ok x s) f = f x s"
| "rbind (Panic m) f = Panic m"
| "rbind (Sleep c s) f = Sleep c s"

text \<open>A counted loop over the values of its index.\<close>

fun rfor :: "'i list \<Rightarrow> ('i \<Rightarrow> 's \<Rightarrow> (unit, 's) res) \<Rightarrow> 's \<Rightarrow> (unit, 's) res" where
  "rfor [] f s = Ok () s"
| "rfor (i # is) f s = rbind (f i s) (\<lambda>_ s. rfor is f s)"

lemma rfor_upt:
  assumes "I 0 s" and "\<And>k s. k < n \<Longrightarrow> I k s \<Longrightarrow> \<exists>s'. f k s = Ok () s' \<and> I (Suc k) s'"
  shows "\<exists>s'. rfor [0..<n] f s = Ok () s' \<and> I n s'"
proof -
  have "k \<le> n \<Longrightarrow> I k s \<Longrightarrow> \<exists>s'. rfor [k..<n] f s = Ok () s' \<and> I n s'" for k s
  proof (induction "n - k" arbitrary: k s)
    case (Suc m)
    then have "k < n" by simp
    from assms(2) [OF this Suc.prems(2)] obtain t where t: "f k s = Ok () t" "I (Suc k) t" by blast
    have "\<exists>s'. rfor [Suc k..<n] f t = Ok () s' \<and> I n s'"
      by (rule Suc.hyps(1)) (use Suc.hyps(2) \<open>k < n\<close> t(2) in auto)
    with t(1) \<open>k < n\<close> show ?case by (simp add: upt_conv_Cons)
  qed simp
  from this [of 0 s] assms(1) show ?thesis by simp
qed

lemma rbind_eq_Ok [res_simps]:
  "rbind m f = Ok y s' \<longleftrightarrow> (\<exists>x s. m = Ok x s \<and> f x s = Ok y s')"
  by (cases m) auto

lemma rbind_eq_Panic [res_simps]:
  "rbind m f = Panic e \<longleftrightarrow> m = Panic e \<or> (\<exists>x s. m = Ok x s \<and> f x s = Panic e)"
  by (cases m) auto

lemma rbind_eq_Sleep [res_simps]:
  "rbind m f = Sleep c s' \<longleftrightarrow> m = Sleep c s' \<or> (\<exists>x s. m = Ok x s \<and> f x s = Sleep c s')"
  by (cases m) auto

lemma rbind_assoc: "rbind (rbind m f) g = rbind m (\<lambda>x s. rbind (f x s) g)"
  by (cases m) auto

subsection \<open>Table scans\<close>

text \<open>
  The loop \<open>for(p = table; p < &table[N]; p++) if(P(p)) ...\<close> that stops at the first
  entry with the property: the entry's index, or \<open>None\<close> when the loop runs off the end.
\<close>

fun scan :: "('a \<Rightarrow> bool) \<Rightarrow> 'a list \<Rightarrow> nat option" where
  "scan P [] = None"
| "scan P (x # xs) = (if P x then Some 0 else map_option Suc (scan P xs))"

lemma scan_SomeD:
  "scan P xs = Some i \<Longrightarrow> i < length xs \<and> P (xs ! i) \<and> (\<forall>j<i. \<not> P (xs ! j))"
proof (induction xs arbitrary: i)
  case Nil
  then show ?case by simp
next
  case (Cons x xs)
  show ?case
  proof (cases "P x")
    case True
    with Cons.prems show ?thesis by simp
  next
    case False
    with Cons.prems obtain k where k: "scan P xs = Some k" "i = Suc k" by auto
    from Cons.IH [OF k(1)] have "k < length xs" "P (xs ! k)" "\<forall>j<k. \<not> P (xs ! j)" by auto
    with False k(2) show ?thesis by (auto simp: less_Suc_eq_0_disj)
  qed
qed

lemma scan_None: "scan P xs = None \<longleftrightarrow> (\<forall>x \<in> set xs. \<not> P x)"
  by (induction xs) auto

lemma scan_Some_iff:
  "scan P xs = Some i \<longleftrightarrow> i < length xs \<and> P (xs ! i) \<and> (\<forall>j<i. \<not> P (xs ! j))"
proof
  assume r: "i < length xs \<and> P (xs ! i) \<and> (\<forall>j<i. \<not> P (xs ! j))"
  then obtain k where k: "scan P xs = Some k"
    by (cases "scan P xs") (auto simp: scan_None)
  from scan_SomeD [OF k] r have "k = i" by (meson linorder_neqE_nat)
  with k show "scan P xs = Some i" by simp
qed (rule scan_SomeD)

lemma scan_in_range: "scan P xs = Some i \<Longrightarrow> i < length xs"
  by (simp add: scan_Some_iff)

subsection \<open>Byte arrays and little-endian fields\<close>

lemma nth_update: "c < length xs \<Longrightarrow> xs[i := x] ! c = (if i = c then x else xs ! c)"
  by (cases "i = c") auto

definition get16 :: "byte list \<Rightarrow> nat \<Rightarrow> ushort" where
  "get16 bs k = ucast (bs ! k) OR push_bit 8 (ucast (bs ! (k + 1)))"

definition put16 :: "nat \<Rightarrow> ushort \<Rightarrow> byte list \<Rightarrow> byte list" where
  "put16 k w bs = bs[k := ucast w, k + 1 := ucast (drop_bit 8 w)]"

definition get32 :: "byte list \<Rightarrow> nat \<Rightarrow> uint" where
  "get32 bs k = ucast (bs ! k) OR push_bit 8 (ucast (bs ! (k + 1))) OR
     push_bit 16 (ucast (bs ! (k + 2))) OR push_bit 24 (ucast (bs ! (k + 3)))"

definition put32 :: "nat \<Rightarrow> uint \<Rightarrow> byte list \<Rightarrow> byte list" where
  "put32 k w bs = bs[k := ucast w, k + 1 := ucast (drop_bit 8 w),
     k + 2 := ucast (drop_bit 16 w), k + 3 := ucast (drop_bit 24 w)]"

text \<open>\<open>memmove\<close> between distinct objects: read \<open>n\<close> bytes at an offset, overwrite at an offset.\<close>

definition slice :: "nat \<Rightarrow> nat \<Rightarrow> 'a list \<Rightarrow> 'a list" where
  "slice k n bs = take n (drop k bs)"

definition splice :: "nat \<Rightarrow> 'a list \<Rightarrow> 'a list \<Rightarrow> 'a list" where
  "splice k xs bs = take k bs @ xs @ drop (k + length xs) bs"

lemma length_put16 [simp]: "length (put16 k w bs) = length bs"
  by (simp add: put16_def)

lemma length_put32 [simp]: "length (put32 k w bs) = length bs"
  by (simp add: put32_def)

lemma word16_bytes: "(ucast (ucast w :: byte) :: ushort) OR push_bit 8 (ucast (ucast (drop_bit 8 w) :: byte)) = w"
  for w :: ushort
  by (rule bit_word_eqI) (auto simp: bit_simps)

lemma word32_bytes:
  "(ucast (ucast w :: byte) :: uint) OR push_bit 8 (ucast (ucast (drop_bit 8 w) :: byte)) OR
    push_bit 16 (ucast (ucast (drop_bit 16 w) :: byte)) OR
    push_bit 24 (ucast (ucast (drop_bit 24 w) :: byte)) = w"
  for w :: uint
proof (rule bit_word_eqI)
  fix n assume n: "n < LENGTH(32)"
  then consider "n < 8" | "8 \<le> n" "n < 16" | "16 \<le> n" "n < 24" | "24 \<le> n" by linarith
  then show "bit (ucast (ucast w :: byte) OR push_bit 8 (ucast (ucast (drop_bit 8 w) :: byte)) OR
      push_bit 16 (ucast (ucast (drop_bit 16 w) :: byte)) OR
      push_bit 24 (ucast (ucast (drop_bit 24 w) :: byte)) :: uint) n \<longleftrightarrow> bit w n"
    using n by cases (auto simp: bit_simps)
qed

lemma get16_put16_same [layout_simps]: "k + 2 \<le> length bs \<Longrightarrow> get16 (put16 k w bs) k = w"
  by (simp add: get16_def put16_def nth_list_update word16_bytes)

lemma get32_put32_same [layout_simps]: "k + 4 \<le> length bs \<Longrightarrow> get32 (put32 k w bs) k = w"
  by (simp add: get32_def put32_def nth_list_update word32_bytes)

lemma get16_put16_other [layout_simps]: "j + 2 \<le> k \<or> k + 2 \<le> j \<Longrightarrow> get16 (put16 k w bs) j = get16 bs j"
  by (auto simp: get16_def put16_def nth_list_update)

lemma get16_put32_other [layout_simps]: "j + 2 \<le> k \<or> k + 4 \<le> j \<Longrightarrow> get16 (put32 k w bs) j = get16 bs j"
  by (auto simp: get16_def put32_def nth_list_update)

lemma get32_put16_other [layout_simps]: "j + 4 \<le> k \<or> k + 2 \<le> j \<Longrightarrow> get32 (put16 k w bs) j = get32 bs j"
  by (auto simp: get32_def put16_def nth_list_update)

lemma get32_put32_other [layout_simps]: "j + 4 \<le> k \<or> k + 4 \<le> j \<Longrightarrow> get32 (put32 k w bs) j = get32 bs j"
  by (auto simp: get32_def put32_def nth_list_update)

lemma length_slice [simp]: "k + n \<le> length bs \<Longrightarrow> length (slice k n bs) = n"
  by (simp add: slice_def)

lemma length_splice [simp]: "k + length xs \<le> length bs \<Longrightarrow> length (splice k xs bs) = length bs"
  by (simp add: splice_def)

lemma nth_slice: "i < n \<Longrightarrow> k + n \<le> length bs \<Longrightarrow> slice k n bs ! i = bs ! (k + i)"
  by (simp add: slice_def)

lemma nth_splice:
  "k + length xs \<le> length bs \<Longrightarrow> i < length bs \<Longrightarrow>
    splice k xs bs ! i = (if k \<le> i \<and> i < k + length xs then xs ! (i - k) else bs ! i)"
  by (auto simp: splice_def nth_append)

lemma slice_splice_same [simp]: "k + length xs \<le> length bs \<Longrightarrow> slice k (length xs) (splice k xs bs) = xs"
  by (simp add: slice_def splice_def)

subsection \<open>Words as numbers\<close>

lemma unat_less_2p32 [simp]: "unat (w :: uint) < 4294967296"
  using unsigned_less [of w, where ?'a = nat] by simp

lemma unat_add_no_wrap: "unat (a :: uint) + unat b < 2 ^ 32 \<Longrightarrow> unat (a + b) = unat a + unat b"
  by (simp add: unat_word_ariths)

lemma unat_of_nat_32 [simp]: "n < 4294967296 \<Longrightarrow> unat (of_nat n :: uint) = n"
  by (simp add: unsigned_of_nat take_bit_nat_eq_self)

text \<open>The overflow test of the source: \<open>off + n < off\<close> holds exactly when the sum wraps.\<close>

lemma uint_add_overflow: "(a :: uint) + b < a \<longleftrightarrow> 2 ^ 32 \<le> unat a + unat b"
proof (cases "unat a + unat b < 4294967296")
  case True
  then show ?thesis by (simp add: word_less_nat_alt unat_add_no_wrap)
next
  case False
  have b: "unat b < 4294967296" by simp
  have small: "unat a + unat b - 4294967296 < 4294967296"
    using unat_less_2p32 [of a] b by linarith
  have "unat (a + b) = (unat a + unat b) mod 4294967296" by (simp add: unat_word_ariths)
  also have "\<dots> = (unat a + unat b - 4294967296) mod 4294967296"
    using False by (intro le_mod_geq) simp
  also have "\<dots> = unat a + unat b - 4294967296"
    using small by (rule mod_less)
  finally have "unat (a + b) < unat a"
    using False b by linarith
  with False show ?thesis by (simp add: word_less_nat_alt)
qed

lemma sint_of_nat_small: "n < 2147483648 \<Longrightarrow> sint (of_nat n :: uint) = int n"
  by (simp add: signed_of_nat signed_take_bit_int_eq_self)

end
