(* ===== verification/Xv6_Lock.thy ===== *)
theory Xv6_Lock
  imports Xv6_Prelude
begin

text \<open>
  Spin locks (spinlock.c).  The first part is the view of one CPU: interrupt nesting
  (\<open>pushcli\<close>, \<open>popcli\<close>) and the locks the CPU holds; every other component builds its state
  on this record.  The second part interleaves the steps of several CPUs on one lock, down
  to the atomic exchange, and shows mutual exclusion.
\<close>

named_theorems lock_simps \<open>unfolding of the locking primitives\<close>

subsection \<open>One CPU\<close>

datatype lock =
    L_kmem | L_ptable | L_bcache | L_ide | L_log | L_icache | L_ftable | L_ticks | L_cons
  | L_pipe addr | L_buf nat | L_inode nat

text \<open>
  \<open>ncli\<close> and \<open>intena\<close> are the fields of \<open>struct cpu\<close>, \<open>iflag\<close> is the interrupt-enable bit
  \<open>FL_IF\<close> of the flags register, and \<open>held\<close> lists the locks whose \<open>locked\<close> field is set with
  this CPU as \<open>cpu\<close>.
\<close>

record kst =
  ncli :: int
  intena :: bool
  iflag :: bool
  held :: "lock list"

definition cli :: "'z kst_scheme \<Rightarrow> 'z kst_scheme" where
  "cli s = s\<lparr>iflag := False\<rparr>"

definition sti :: "'z kst_scheme \<Rightarrow> 'z kst_scheme" where
  "sti s = s\<lparr>iflag := True\<rparr>"

definition initlock :: "lock \<Rightarrow> 'z kst_scheme \<Rightarrow> 'z kst_scheme" where
  "initlock lk s = s\<lparr>held := removeAll lk (held s)\<rparr>"

definition holding :: "lock \<Rightarrow> 'z kst_scheme \<Rightarrow> bool" where
  "holding lk s \<longleftrightarrow> lk \<in> set (held s)"

definition pushcli :: "'z kst_scheme \<Rightarrow> 'z kst_scheme" where
  "pushcli s =
    (let eflags = iflag s;
         s = cli s;
         s = (if ncli s = 0 then s\<lparr>intena := eflags\<rparr> else s)
     in s\<lparr>ncli := ncli s + 1\<rparr>)"

definition popcli :: "'z kst_scheme \<Rightarrow> (unit, 'z kst_scheme) res" where
  "popcli s =
    (if iflag s then Panic ''popcli - interruptible''
     else let s = s\<lparr>ncli := ncli s - 1\<rparr> in
       if ncli s < 0 then Panic ''popcli''
       else if ncli s = 0 \<and> intena s then Ok () (sti s)
       else Ok () s)"

definition acquire :: "lock \<Rightarrow> 'z kst_scheme \<Rightarrow> (unit, 'z kst_scheme) res" where
  "acquire lk s =
    (let s = pushcli s in
     if holding lk s then Panic ''acquire''
     else Ok () (s\<lparr>held := lk # held s\<rparr>))"

definition release :: "lock \<Rightarrow> 'z kst_scheme \<Rightarrow> (unit, 'z kst_scheme) res" where
  "release lk s =
    (if \<not> holding lk s then Panic ''release''
     else popcli (s\<lparr>held := remove1 lk (held s)\<rparr>))"

text \<open>
  The nesting depth counts the held locks, and interrupts are off while it is positive.
\<close>

definition cli_wf :: "'z kst_scheme \<Rightarrow> bool" where
  "cli_wf s \<longleftrightarrow> ncli s = int (length (held s)) \<and> (held s \<noteq> [] \<longrightarrow> \<not> iflag s) \<and> distinct (held s)"

lemmas lock_defs [lock_simps] =
  cli_def sti_def holding_def pushcli_def popcli_def acquire_def release_def Let_def

lemma acquire_free:
  assumes "lk \<notin> set (held s)"
  shows "acquire lk s = Ok () ((pushcli s)\<lparr>held := lk # held s\<rparr>)"
  using assms by (simp add: lock_simps)

lemma acquire_self_panics: "lk \<in> set (held s) \<Longrightarrow> acquire lk s = Panic ''acquire''"
  by (simp add: lock_simps)

lemma acquire_wf: "cli_wf s \<Longrightarrow> acquire lk s = Ok () s' \<Longrightarrow> cli_wf s' \<and> held s' = lk # held s"
  by (auto simp: lock_simps cli_wf_def split: if_splits)

lemma release_wf:
  assumes "cli_wf s" and "lk \<in> set (held s)"
  shows "\<exists>s'. release lk s = Ok () s' \<and> cli_wf s' \<and> held s' = remove1 lk (held s)"
proof -
  from assms have "\<not> iflag s" "ncli s = int (length (held s))" "0 < length (held s)"
    by (auto simp: cli_wf_def)
  moreover have len: "length (held s) = Suc (length (remove1 lk (held s)))"
    using assms(2) length_pos_if_in_set [OF assms(2)] by (simp add: length_remove1)
  moreover have "distinct (remove1 lk (held s))"
    using assms(1) by (simp add: cli_wf_def)
  ultimately show ?thesis
    using assms(2) by (auto simp: lock_simps cli_wf_def)
qed

text \<open>
  \<open>pushcli\<close> and \<open>popcli\<close> are matched: a critical section that keeps the interrupt state
  returns with the flag and the depth it was entered with.
\<close>

lemma acquire_release_restores:
  assumes "cli_wf s" and "acquire lk s = Ok () s1"
  shows "\<exists>s2. release lk s1 = Ok () s2 \<and> iflag s2 = iflag s \<and> ncli s2 = ncli s \<and> held s2 = held s"
  using assms by (auto simp: lock_simps cli_wf_def split: if_splits)

subsection \<open>Critical sections as rewriting\<close>

text \<open>
  A CPU between critical sections has \<open>intena\<close> equal to its interrupt flag (the last outermost
  \<open>pushcli\<close> saved it).  In such a state taking a lock is \<open>enter\<close>, and releasing it takes the state
  back; \<open>enter\<close> commutes with every update outside the lock fields, so the body of a critical
  section can be rewritten as if it ran without the lock.
\<close>

definition calm :: "'z kst_scheme \<Rightarrow> bool" where
  "calm s \<longleftrightarrow> cli_wf s \<and> (held s = [] \<longrightarrow> intena s = iflag s)"

definition enter :: "lock \<Rightarrow> 'z kst_scheme \<Rightarrow> 'z kst_scheme" where
  "enter lk s = s\<lparr>held := lk # held s, ncli := ncli s + 1, iflag := False\<rparr>"

lemma held_enter [lock_simps]: "held (enter lk s) = lk # held s"
  and iflag_enter [lock_simps]: "iflag (enter lk s) = False"
  and ncli_enter [lock_simps]: "ncli (enter lk s) = ncli s + 1"
  by (simp_all add: enter_def)

lemma acquire_calm:
  assumes "calm s" and "lk \<notin> set (held s)"
  shows "acquire lk s = Ok () (enter lk s)"
proof -
  have "ncli s = int (length (held s))" and "held s = [] \<longrightarrow> intena s = iflag s" using assms(1) by (auto simp: calm_def cli_wf_def)
  then have "(if ncli s = 0 then s\<lparr>iflag := False, intena := iflag s\<rparr> else s\<lparr>iflag := False\<rparr>) = s\<lparr>iflag := False\<rparr>"
    by (cases "held s = []") (cases s, simp)+
  then show ?thesis using assms(2)
    by (simp add: acquire_def pushcli_def cli_def enter_def Let_def holding_def split: if_splits)
qed

lemma calm_enter: "calm s \<Longrightarrow> lk \<notin> set (held s) \<Longrightarrow> calm (enter lk s)"
  by (auto simp: calm_def cli_wf_def enter_def)

lemma release_enter:
  assumes "calm s" and "lk \<notin> set (held s)"
  shows "release lk (enter lk s) = Ok () s"
proof -
  have n: "ncli s = int (length (held s))" and i: "held s = [] \<longrightarrow> intena s = iflag s" "held s \<noteq> [] \<longrightarrow> \<not> iflag s"
    using assms(1) by (auto simp: calm_def cli_wf_def)
  show ?thesis
  proof (cases "held s = []")
    case True
    with n i show ?thesis by (cases s) (simp add: lock_simps enter_def)
  next
    case False
    with n i show ?thesis by (cases s) (simp add: lock_simps enter_def)
  qed
qed

lemma release_under:
  assumes "calm s" and "lk \<notin> set (held s)" and "lk' \<noteq> lk"
  shows "release lk (enter lk' (enter lk s)) = Ok () (enter lk' s)"
  using assms by (cases s) (auto simp: lock_simps enter_def calm_def cli_wf_def)

subsection \<open>Interface: a mutual-exclusion lock held by the running CPU\<close>

locale mutex =
  fixes acq :: "'l \<Rightarrow> 's \<Rightarrow> (unit, 's) res"
    and rel :: "'l \<Rightarrow> 's \<Rightarrow> (unit, 's) res"
    and owned :: "'s \<Rightarrow> 'l list"
    and good :: "'s \<Rightarrow> bool"
  assumes acq_free: "good s \<Longrightarrow> l \<notin> set (owned s) \<Longrightarrow> \<exists>s'. acq l s = Ok () s' \<and> good s' \<and> owned s' = l # owned s"
    and acq_owned: "l \<in> set (owned s) \<Longrightarrow> \<exists>m. acq l s = Panic m"
    and rel_owned: "good s \<Longrightarrow> l \<in> set (owned s) \<Longrightarrow> \<exists>s'. rel l s = Ok () s' \<and> good s' \<and> owned s' = remove1 l (owned s)"
    and rel_free: "l \<notin> set (owned s) \<Longrightarrow> \<exists>m. rel l s = Panic m"
begin

text \<open>A critical section around a body that leaves the lock set alone leaves it alone too.\<close>

lemma section_balanced:
  assumes g: "good s" "l \<notin> set (owned s)"
    and body: "\<And>t. good t \<Longrightarrow> owned t = l # owned s \<Longrightarrow> \<exists>x t'. f t = Ok x t' \<and> good t' \<and> owned t' = owned t"
  shows "\<exists>x s'. rbind (acq l s) (\<lambda>_ t. rbind (f t) (\<lambda>x t. rbind (rel l t) (\<lambda>_ t. Ok x t))) = Ok x s'
    \<and> good s' \<and> owned s' = owned s"
proof -
  from acq_free [OF g] obtain t where t: "acq l s = Ok () t" "good t" "owned t = l # owned s" by blast
  from body [OF t(2,3)] obtain x u where u: "f t = Ok x u" "good u" "owned u = l # owned s"
    using t(3) by auto
  from rel_owned [OF u(2), of l] u(3) obtain v where "rel l u = Ok () v" "good v" "owned v = owned s"
    by auto
  with t u show ?thesis by auto
qed

lemma two_locks_nest:
  assumes "good s" "l \<notin> set (owned s)" "k \<notin> set (owned s)" "k \<noteq> l"
  shows "\<exists>s'. rbind (acq l s) (\<lambda>_. acq k) = Ok () s' \<and> owned s' = k # l # owned s \<and> good s'"
proof -
  from acq_free [OF assms(1,2)] obtain t where t: "acq l s = Ok () t" "good t" "owned t = l # owned s" by blast
  with acq_free [OF t(2), of k] assms show ?thesis by auto
qed

end

interpretation spin: mutex acquire release held cli_wf
proof unfold_locales
  fix s :: "'z kst_scheme" and l
  show "cli_wf s \<Longrightarrow> l \<notin> set (held s) \<Longrightarrow> \<exists>s'. acquire l s = Ok () s' \<and> cli_wf s' \<and> held s' = l # held s"
    using acquire_free [of l s] acquire_wf [of s l] by blast
  show "l \<in> set (held s) \<Longrightarrow> \<exists>m. acquire l s = Panic m"
    using acquire_self_panics by blast
  show "cli_wf s \<Longrightarrow> l \<in> set (held s) \<Longrightarrow> \<exists>s'. release l s = Ok () s' \<and> cli_wf s' \<and> held s' = remove1 l (held s)"
    by (rule release_wf)
  show "l \<notin> set (held s) \<Longrightarrow> \<exists>m. release l s = Panic m"
    by (simp add: lock_simps)
qed

subsection \<open>Several CPUs competing for one lock\<close>

text \<open>
  Each CPU is between two of the steps of \<open>acquire\<close> and \<open>release\<close>: outside; interrupts pushed
  and about to test \<open>holding\<close>; spinning on \<open>xchg\<close>; lock taken but \<open>lk->cpu\<close> not yet written;
  inside the critical section; \<open>lk->cpu\<close> cleared but \<open>lk->locked\<close> still set; lock released
  but \<open>popcli\<close> still to come; panicked.
\<close>

datatype cpu_pc = Outside | Pushed | Spinning | Taken | Critical | Clearing | Popping | Panicked

record mp_cpu =
  c_pc :: cpu_pc
  c_ncli :: int
  c_intena :: bool
  c_if :: bool

record mp_lock =
  lk_locked :: uint
  lk_cpu :: "nat option"
  mp_cpus :: "nat \<Rightarrow> mp_cpu"

definition mp_init :: mp_lock where
  "mp_init = \<lparr>lk_locked = 0, lk_cpu = None,
     mp_cpus = (\<lambda>_. \<lparr>c_pc = Outside, c_ncli = 0, c_intena = False, c_if = True\<rparr>)\<rparr>"

definition set_pc :: "nat \<Rightarrow> cpu_pc \<Rightarrow> mp_lock \<Rightarrow> mp_lock" where
  "set_pc i p s = s\<lparr>mp_cpus := (mp_cpus s)(i := (mp_cpus s i)\<lparr>c_pc := p\<rparr>)\<rparr>"

definition mp_pushcli :: "mp_cpu \<Rightarrow> mp_cpu" where
  "mp_pushcli c = c\<lparr>c_intena := (if c_ncli c = 0 then c_if c else c_intena c), c_if := False,
     c_ncli := c_ncli c + 1\<rparr>"

definition mp_popcli :: "mp_cpu \<Rightarrow> mp_cpu" where
  "mp_popcli c = c\<lparr>c_ncli := c_ncli c - 1,
     c_if := (if c_ncli c - 1 = 0 \<and> c_intena c then True else c_if c)\<rparr>"

definition mp_holding :: "nat \<Rightarrow> mp_lock \<Rightarrow> bool" where
  "mp_holding i s \<longleftrightarrow> lk_locked s \<noteq> 0 \<and> lk_cpu s = Some i"

inductive mp_step :: "mp_lock \<Rightarrow> mp_lock \<Rightarrow> bool" where
  push: "c_pc (mp_cpus s i) = Outside \<Longrightarrow>
    mp_step s (set_pc i Pushed (s\<lparr>mp_cpus := (mp_cpus s)(i := mp_pushcli (mp_cpus s i))\<rparr>))"
| test_panic: "c_pc (mp_cpus s i) = Pushed \<Longrightarrow> mp_holding i s \<Longrightarrow> mp_step s (set_pc i Panicked s)"
| test_ok: "c_pc (mp_cpus s i) = Pushed \<Longrightarrow> \<not> mp_holding i s \<Longrightarrow> mp_step s (set_pc i Spinning s)"
| xchg_busy: "c_pc (mp_cpus s i) = Spinning \<Longrightarrow> lk_locked s \<noteq> 0 \<Longrightarrow> mp_step s (s\<lparr>lk_locked := 1\<rparr>)"
| xchg_free: "c_pc (mp_cpus s i) = Spinning \<Longrightarrow> lk_locked s = 0 \<Longrightarrow>
    mp_step s (set_pc i Taken (s\<lparr>lk_locked := 1\<rparr>))"
| record_cpu: "c_pc (mp_cpus s i) = Taken \<Longrightarrow> mp_step s (set_pc i Critical (s\<lparr>lk_cpu := Some i\<rparr>))"
| reacquire: "c_pc (mp_cpus s i) = Critical \<Longrightarrow> mp_holding i s \<Longrightarrow>
    mp_step s (set_pc i Panicked (s\<lparr>mp_cpus := (mp_cpus s)(i := mp_pushcli (mp_cpus s i))\<rparr>))"
| clear_cpu: "c_pc (mp_cpus s i) = Critical \<Longrightarrow> mp_holding i s \<Longrightarrow>
    mp_step s (set_pc i Clearing (s\<lparr>lk_cpu := None\<rparr>))"
| release_panic: "c_pc (mp_cpus s i) = Critical \<Longrightarrow> \<not> mp_holding i s \<Longrightarrow> mp_step s (set_pc i Panicked s)"
| clear_locked: "c_pc (mp_cpus s i) = Clearing \<Longrightarrow> mp_step s (set_pc i Popping (s\<lparr>lk_locked := 0\<rparr>))"
| pop: "c_pc (mp_cpus s i) = Popping \<Longrightarrow>
    mp_step s (set_pc i Outside (s\<lparr>mp_cpus := (mp_cpus s)(i := mp_popcli (mp_cpus s i))\<rparr>))"

inductive mp_reachable :: "mp_lock \<Rightarrow> bool" where
  init: "mp_reachable mp_init"
| step: "mp_reachable s \<Longrightarrow> mp_step s t \<Longrightarrow> mp_reachable t"

definition owns :: "cpu_pc \<Rightarrow> bool" where
  "owns p \<longleftrightarrow> p = Taken \<or> p = Critical \<or> p = Clearing \<or> p = Panicked"


text \<open>
  The invariant: some CPU (or none) owns the lock and \<open>locked\<close> says which is the case,
  \<open>lk->cpu\<close> names the owner exactly while it is in its critical section (or panicked there),
  and a CPU anywhere inside \<open>acquire\<close> or \<open>release\<close> runs with interrupts off.
\<close>

definition cpu_ok :: "mp_cpu \<Rightarrow> bool" where
  "cpu_ok c \<longleftrightarrow>
     (c_pc c = Outside \<longrightarrow> c_ncli c = 0 \<and> c_if c) \<and>
     (c_pc c \<noteq> Outside \<longrightarrow> \<not> c_if c) \<and>
     (c_pc c \<noteq> Outside \<longrightarrow> c_pc c \<noteq> Panicked \<longrightarrow> c_ncli c = 1 \<and> c_intena c)"

definition owner_is :: "nat option \<Rightarrow> mp_lock \<Rightarrow> bool" where
  "owner_is w s \<longleftrightarrow>
     (\<forall>i. owns (c_pc (mp_cpus s i)) \<longleftrightarrow> w = Some i) \<and> (lk_locked s = 0 \<longleftrightarrow> w = None) \<and>
     (\<forall>i. lk_cpu s = Some i \<longrightarrow> c_pc (mp_cpus s i) = Critical \<or> c_pc (mp_cpus s i) = Panicked) \<and>
     (\<forall>i. c_pc (mp_cpus s i) = Critical \<longrightarrow> lk_cpu s = Some i)"

definition mp_inv :: "mp_lock \<Rightarrow> bool" where
  "mp_inv s \<longleftrightarrow> (\<exists>w. owner_is w s) \<and> (\<forall>i. cpu_ok (mp_cpus s i))"

lemma mp_init_inv: "mp_inv mp_init"
  by (auto simp: mp_inv_def mp_init_def owns_def owner_is_def cpu_ok_def intro: exI [of _ None])

lemma mp_step_cpu_ok: "mp_step s t \<Longrightarrow> cpu_ok (mp_cpus s j) \<Longrightarrow> cpu_ok (mp_cpus t j)"
  by (induction rule: mp_step.induct)
    (auto simp: cpu_ok_def set_pc_def mp_pushcli_def mp_popcli_def)

lemma owner_none: "owner_is w s \<Longrightarrow> lk_locked s = 0 \<Longrightarrow> w = None"
  and owner_some: "owner_is w s \<Longrightarrow> owns (c_pc (mp_cpus s i)) \<Longrightarrow> w = Some i"
  by (simp_all add: owner_is_def)

text \<open>Only the exchange on a free lock and the store of zero change the owner.\<close>

lemma owner_kept:
  assumes "owner_is w s" and "owns (c_pc (mp_cpus s i)) = owns p" and "p \<noteq> Critical"
    and "c_pc c = p" and "lk_cpu s = Some i \<longrightarrow> p = Panicked"
  shows "owner_is w (s\<lparr>mp_cpus := (mp_cpus s)(i := c)\<rparr>)"
  using assms unfolding owner_is_def by auto

lemma mp_step_owner: "mp_step s t \<Longrightarrow> owner_is w s \<Longrightarrow> \<exists>w. owner_is w t"
proof (induction rule: mp_step.induct)
  case (push s i)
  then have "lk_cpu s \<noteq> Some i" by (auto simp: owner_is_def)
  with push have "owner_is w (s\<lparr>mp_cpus := (mp_cpus s)(i := (mp_pushcli (mp_cpus s i))\<lparr>c_pc := Pushed\<rparr>)\<rparr>)"
    by (intro owner_kept [where p = Pushed]) (auto simp: owns_def)
  then show ?case by (auto simp: set_pc_def)
next
  case (test_panic s i)
  then show ?case by (auto simp: owner_is_def mp_holding_def)
next
  case (test_ok s i)
  then have "lk_cpu s \<noteq> Some i" by (auto simp: owner_is_def)
  with test_ok show ?case
    unfolding set_pc_def by (intro exI [of _ w] owner_kept [where p = Spinning]) (auto simp: owns_def)
next
  case (xchg_busy s i)
  then show ?case by (auto simp: owner_is_def)
next
  case (xchg_free s i)
  then have "w = None" and "lk_cpu s = None"
    by (auto simp: owner_is_def owns_def)
  with xchg_free have "owner_is (Some i) (set_pc i Taken (s\<lparr>lk_locked := 1\<rparr>))"
    by (auto simp: owner_is_def set_pc_def owns_def)
  then show ?case ..
next
  case (record_cpu s i)
  then have "w = Some i" by (auto simp: owner_is_def owns_def)
  with record_cpu have "owner_is (Some i) (set_pc i Critical (s\<lparr>lk_cpu := Some i\<rparr>))"
    by (auto simp: owner_is_def set_pc_def owns_def)
  then show ?case ..
next
  case (reacquire s i)
  then have "owner_is w (s\<lparr>mp_cpus := (mp_cpus s)(i := (mp_pushcli (mp_cpus s i))\<lparr>c_pc := Panicked\<rparr>)\<rparr>)"
    by (intro owner_kept [where p = Panicked]) (auto simp: owns_def)
  then show ?case by (auto simp: set_pc_def)
next
  case (clear_cpu s i)
  then have "w = Some i" by (auto simp: owner_is_def owns_def)
  with clear_cpu have "owner_is (Some i) (set_pc i Clearing (s\<lparr>lk_cpu := None\<rparr>))"
    by (auto simp: owner_is_def set_pc_def owns_def)
  then show ?case ..
next
  case (release_panic s i)
  then show ?case by (auto simp: owner_is_def mp_holding_def owns_def)
next
  case (clear_locked s i)
  then have "w = Some i" by (auto simp: owner_is_def owns_def)
  with clear_locked have "owner_is None (set_pc i Popping (s\<lparr>lk_locked := 0\<rparr>))"
    by (auto simp: owner_is_def set_pc_def owns_def)
  then show ?case ..
next
  case (pop s i)
  then have "lk_cpu s \<noteq> Some i" by (auto simp: owner_is_def)
  with pop have "owner_is w (s\<lparr>mp_cpus := (mp_cpus s)(i := (mp_popcli (mp_cpus s i))\<lparr>c_pc := Outside\<rparr>)\<rparr>)"
    by (intro owner_kept [where p = Outside]) (auto simp: owns_def)
  then show ?case by (auto simp: set_pc_def)
qed

lemma mp_step_inv: "mp_step s t \<Longrightarrow> mp_inv s \<Longrightarrow> mp_inv t"
  using mp_step_owner mp_step_cpu_ok unfolding mp_inv_def by blast

lemma mp_reachable_inv: "mp_reachable s \<Longrightarrow> mp_inv s"
  by (induction rule: mp_reachable.induct) (auto intro: mp_init_inv mp_step_inv)

definition mp_one_in :: mp_lock where
  "mp_one_in = \<lparr>lk_locked = 1, lk_cpu = Some 0, mp_cpus = (\<lambda>i. if i = 0
     then \<lparr>c_pc = Critical, c_ncli = 1, c_intena = True, c_if = False\<rparr>
     else \<lparr>c_pc = Outside, c_ncli = 0, c_intena = False, c_if = True\<rparr>)\<rparr>"

lemma mp_one_in_reachable: "mp_reachable mp_one_in"
proof -
  let ?c0 = "mp_cpus mp_init 0"
  let ?s1 = "set_pc 0 Pushed (mp_init\<lparr>mp_cpus := (mp_cpus mp_init)(0 := mp_pushcli ?c0)\<rparr>)"
  let ?s2 = "set_pc 0 Spinning ?s1"
  let ?s3 = "set_pc 0 Taken (?s2\<lparr>lk_locked := 1\<rparr>)"
  let ?s4 = "set_pc 0 Critical (?s3\<lparr>lk_cpu := Some 0\<rparr>)"
  have "mp_reachable ?s1"
    by (rule mp_reachable.step [OF mp_reachable.init mp_step.push]) (simp add: mp_init_def)
  then have "mp_reachable ?s2"
    by (rule mp_reachable.step [OF _ mp_step.test_ok]) (simp_all add: mp_init_def set_pc_def mp_holding_def)
  then have "mp_reachable ?s3"
    by (rule mp_reachable.step [OF _ mp_step.xchg_free]) (simp_all add: mp_init_def set_pc_def)
  then have "mp_reachable ?s4"
    by (rule mp_reachable.step [OF _ mp_step.record_cpu]) (simp add: set_pc_def)
  moreover have "?s4 = mp_one_in"
    by (simp add: mp_one_in_def mp_init_def set_pc_def mp_pushcli_def fun_eq_iff)
  ultimately show ?thesis by simp
qed

subsection \<open>Properties\<close>

text \<open>
  C2: Whatever the interleaving of the atomic steps of \<open>acquire\<close> and \<open>release\<close> on any number of
  CPUs, at most one CPU is in its critical section; \<open>holding\<close> is true there (so \<open>release\<close> never
  panics) and interrupts are off on that CPU.
\<close>

theorem spin_mutual_exclusion:
  assumes "mp_reachable s" and "c_pc (mp_cpus s i) = Critical"
  shows "mp_holding i s \<and> \<not> c_if (mp_cpus s i) \<and> (\<forall>j. c_pc (mp_cpus s j) = Critical \<longrightarrow> j = i)"
proof -
  obtain w where w: "owner_is w s" and ok: "cpu_ok (mp_cpus s i)"
    using mp_reachable_inv [OF assms(1)] by (auto simp: mp_inv_def)
  have "w = Some i" using w assms(2) by (auto simp: owner_is_def owns_def)
  with w ok assms(2) show ?thesis by (auto simp: owner_is_def owns_def mp_holding_def cpu_ok_def)
qed

theorem spin_mutual_exclusion_witness:
  "mp_holding 0 mp_one_in \<and> \<not> c_if (mp_cpus mp_one_in 0) \<and> c_pc (mp_cpus mp_one_in 1) \<noteq> Critical"
proof -
  have "c_pc (mp_cpus mp_one_in 0) = Critical" by (simp add: mp_one_in_def)
  from spin_mutual_exclusion [OF mp_one_in_reachable this] show ?thesis by auto
qed

end
