(* ===== verification/Xv6_String.thy ===== *)
theory Xv6_String
  imports Xv6_Prelude
begin

text \<open>
  The kernel's memory and string routines (string.c) over a flat 32-bit memory.  Addresses
  are words, so pointer arithmetic wraps as on the machine.  Each routine is compared with
  a description of what it leaves in memory; the \<open>_bytes\<close> functions at the end are the
  views of the routines on whole objects (byte lists) that the file system model uses.
\<close>

type_synonym memory = "addr \<Rightarrow> byte"

definition load :: "memory \<Rightarrow> addr \<Rightarrow> nat \<Rightarrow> byte list" where
  "load m a n = map (\<lambda>i. m (a + of_nat i)) [0..<n]"

subsection \<open>Operations\<close>

text \<open>The string instructions \<open>rep stosb\<close> and \<open>rep stosl\<close> (x86.h).\<close>

fun stosb :: "memory \<Rightarrow> addr \<Rightarrow> byte \<Rightarrow> nat \<Rightarrow> memory" where
  "stosb m a v 0 = m"
| "stosb m a v (Suc n) = stosb (m(a := v)) (a + 1) v n"

fun stosl :: "memory \<Rightarrow> addr \<Rightarrow> uint \<Rightarrow> nat \<Rightarrow> memory" where
  "stosl m a v 0 = m"
| "stosl m a v (Suc n) =
     stosl (m(a := ucast v, a + 1 := ucast (drop_bit 8 v), a + 2 := ucast (drop_bit 16 v),
              a + 3 := ucast (drop_bit 24 v))) (a + 4) v n"

definition memset :: "memory \<Rightarrow> addr \<Rightarrow> uint \<Rightarrow> uint \<Rightarrow> memory" where
  "memset m dst c n =
     (if dst mod 4 = 0 \<and> n mod 4 = 0 then
        let c = c AND 0xFF in
        stosl m dst (push_bit 24 c OR push_bit 16 c OR push_bit 8 c OR c) (unat (n div 4))
      else stosb m dst (ucast c) (unat n))"

fun memcmp_loop :: "memory \<Rightarrow> addr \<Rightarrow> addr \<Rightarrow> nat \<Rightarrow> int" where
  "memcmp_loop m s1 s2 0 = 0"
| "memcmp_loop m s1 s2 (Suc n) =
     (if m s1 \<noteq> m s2 then uint (m s1) - uint (m s2) else memcmp_loop m (s1 + 1) (s2 + 1) n)"

definition memcmp :: "memory \<Rightarrow> addr \<Rightarrow> addr \<Rightarrow> uint \<Rightarrow> int" where
  "memcmp m v1 v2 n = memcmp_loop m v1 v2 (unat n)"

fun copy_up :: "memory \<Rightarrow> addr \<Rightarrow> addr \<Rightarrow> nat \<Rightarrow> memory" where
  "copy_up m d s 0 = m"
| "copy_up m d s (Suc n) = copy_up (m(d := m s)) (d + 1) (s + 1) n"

fun copy_down :: "memory \<Rightarrow> addr \<Rightarrow> addr \<Rightarrow> nat \<Rightarrow> memory" where
  "copy_down m d s 0 = m"
| "copy_down m d s (Suc n) = (let s = s - 1; d = d - 1 in copy_down (m(d := m s)) d s n)"

definition memmove :: "memory \<Rightarrow> addr \<Rightarrow> addr \<Rightarrow> uint \<Rightarrow> memory" where
  "memmove m dst src n =
     (let s = src; d = dst in
      if s < d \<and> s + n > d then copy_down m (d + n) (s + n) (unat n)
      else copy_up m d s (unat n))"

definition memcpy :: "memory \<Rightarrow> addr \<Rightarrow> addr \<Rightarrow> uint \<Rightarrow> memory" where
  "memcpy m dst src n = memmove m dst src n"

fun strncmp_loop :: "memory \<Rightarrow> addr \<Rightarrow> addr \<Rightarrow> nat \<Rightarrow> int" where
  "strncmp_loop m p q 0 = 0"
| "strncmp_loop m p q (Suc n) =
     (if m p \<noteq> 0 \<and> m p = m q then strncmp_loop m (p + 1) (q + 1) n
      else uint (m p) - uint (m q))"

definition strncmp :: "memory \<Rightarrow> addr \<Rightarrow> addr \<Rightarrow> uint \<Rightarrow> int" where
  "strncmp m p q n = strncmp_loop m p q (unat n)"

text \<open>\<open>strncpy\<close>: the copying loop stops after storing a zero, the second loop pads.\<close>

fun strncpy_pad :: "memory \<Rightarrow> addr \<Rightarrow> nat \<Rightarrow> memory" where
  "strncpy_pad m s 0 = m"
| "strncpy_pad m s (Suc n) = strncpy_pad (m(s := 0)) (s + 1) n"

fun strncpy_copy :: "memory \<Rightarrow> addr \<Rightarrow> addr \<Rightarrow> nat \<Rightarrow> memory" where
  "strncpy_copy m s t 0 = m"
| "strncpy_copy m s t (Suc n) =
     (if m t \<noteq> 0 then strncpy_copy (m(s := m t)) (s + 1) (t + 1) n
      else strncpy_pad (m(s := m t)) (s + 1) n)"

definition strncpy :: "memory \<Rightarrow> addr \<Rightarrow> addr \<Rightarrow> int \<Rightarrow> memory" where
  "strncpy m s t n = strncpy_copy m s t (nat n)"

text \<open>\<open>safestrcpy\<close>: the counter is the number of bytes left after the pre-decrement.\<close>

fun safestrcpy_loop :: "memory \<Rightarrow> addr \<Rightarrow> addr \<Rightarrow> nat \<Rightarrow> memory" where
  "safestrcpy_loop m s t 0 = m(s := 0)"
| "safestrcpy_loop m s t (Suc n) =
     (let m' = m(s := m t) in
      if m t \<noteq> 0 then safestrcpy_loop m' (s + 1) (t + 1) n else m'(s + 1 := 0))"

definition safestrcpy :: "memory \<Rightarrow> addr \<Rightarrow> addr \<Rightarrow> int \<Rightarrow> memory" where
  "safestrcpy m s t n = (if n \<le> 0 then m else safestrcpy_loop m s t (nat (n - 1)))"

text \<open>\<open>strlen\<close> runs until it meets a zero byte; without one it does not return.\<close>

partial_function (option) strlen_from :: "memory \<Rightarrow> addr \<Rightarrow> nat \<Rightarrow> nat option" where
  "strlen_from m s n = (if m (s + of_nat n) = 0 then Some n else strlen_from m s (Suc n))"

definition strlen :: "memory \<Rightarrow> addr \<Rightarrow> nat option" where
  "strlen m s = strlen_from m s 0"

subsection \<open>Filling and copying\<close>

text \<open>Inside the \<open>n\<close> bytes from \<open>a\<close>, as word arithmetic sees it.\<close>

definition inside :: "addr \<Rightarrow> addr \<Rightarrow> nat \<Rightarrow> bool" where
  "inside x a n \<longleftrightarrow> unat (x - a) < n"

lemma unat_minus_one: "x \<noteq> 0 \<Longrightarrow> unat (x - 1 :: uint) = unat x - 1"
  by (rule Word.unat_minus_one)

lemma inside_Suc: "n < 2 ^ 32 \<Longrightarrow> inside x a (Suc n) \<longleftrightarrow> x = a \<or> inside x (a + 1) n"
proof (cases "x = a")
  case False
  then have nz: "x - a \<noteq> 0" by simp
  have eq: "x - (a + 1) = (x - a) - 1" by (simp add: algebra_simps)
  have "unat (x - (a + 1)) = unat (x - a) - 1"
    unfolding eq by (rule unat_minus_one [OF nz])
  moreover have "unat (x - a) \<noteq> 0" using nz by (simp add: unat_eq_0)
  ultimately show ?thesis using False by (auto simp: inside_def)
qed (simp add: inside_def)

lemma not_inside_before: "n < 2 ^ 32 \<Longrightarrow> \<not> inside a (a + 1) n"
proof -
  have "a - (a + 1) = (- 1 :: uint)" by simp
  then have "unat (a - (a + 1)) = 2 ^ 32 - 1" by (simp add: unsigned_minus_1_eq_mask mask_eq_exp_minus_1)
  then show "n < 2 ^ 32 \<Longrightarrow> \<not> inside a (a + 1) n" by (simp add: inside_def)
qed

lemma stosb_spec: "n < 2 ^ 32 \<Longrightarrow> stosb m a v n x = (if inside x a n then v else m x)"
proof (induction n arbitrary: m a)
  case 0
  then show ?case by (simp add: inside_def)
next
  case (Suc n)
  then show ?case by (auto simp: inside_Suc)
qed

text \<open>A \<open>stosl\<close> of four equal bytes is a \<open>stosb\<close> of four times as many bytes.\<close>

lemma byte_fill:
  fixes c :: uint
  assumes "c' = c AND 0xFF"
  defines "v \<equiv> push_bit 24 c' OR push_bit 16 c' OR push_bit 8 c' OR c'"
  shows "(ucast v :: byte) = ucast c" "(ucast (drop_bit 8 v) :: byte) = ucast c"
    "(ucast (drop_bit 16 v) :: byte) = ucast c" "(ucast (drop_bit 24 v) :: byte) = ucast c"
proof -
  have c: "c' = take_bit 8 c"
    unfolding assms(1) take_bit_eq_mask by (simp add: mask_eq_exp_minus_1)
  show "(ucast v :: byte) = ucast c" "(ucast (drop_bit 8 v) :: byte) = ucast c"
    "(ucast (drop_bit 16 v) :: byte) = ucast c" "(ucast (drop_bit 24 v) :: byte) = ucast c"
    unfolding v_def c by (rule bit_word_eqI; auto simp: bit_simps)+
qed

lemma stosl_stosb:
  assumes "(ucast v :: byte) = b" "(ucast (drop_bit 8 v) :: byte) = b"
    "(ucast (drop_bit 16 v) :: byte) = b" "(ucast (drop_bit 24 v) :: byte) = b"
  shows "stosl m a v n = stosb m a b (4 * n)"
proof (induction n arbitrary: m a)
  case (Suc n)
  have eq: "4 * Suc n = Suc (Suc (Suc (Suc (4 * n))))" by simp
  have "stosb m a b (4 * Suc n) = stosb (m(a := b, a + 1 := b, a + 2 := b, a + 3 := b)) (a + 4) b (4 * n)"
    unfolding eq by (simp add: add.assoc)
  then show ?case by (simp only: stosl.simps assms Suc.IH)
qed simp

lemma memset_spec: "memset m dst c n x = (if inside x dst (unat n) then ucast c else m x)"
proof (cases "dst mod 4 = 0 \<and> n mod 4 = 0")
  case True
  have "unat n mod 4 = unat (n mod 4)" by (simp add: unat_mod)
  with True have "4 * unat (n div 4) = unat n" by (simp add: unat_div mult_div_mod_eq [symmetric] flip: minus_mod_eq_mult_div)
  with True stosl_stosb [OF byte_fill [OF refl, of c]]
  have "memset m dst c n = stosb m dst (ucast c) (unat n)" by (simp add: memset_def Let_def)
  then show ?thesis by (simp add: stosb_spec)
next
  case False
  then have "memset m dst c n = stosb m dst (ucast c) (unat n)" by (auto simp: memset_def)
  then show ?thesis by (simp add: stosb_spec)
qed

lemma unat_plus_offset: "unat (s :: uint) + unat w < 4294967296 \<Longrightarrow> unat (s + w) = unat s + unat w"
  by (simp add: unat_word_ariths)

lemma copy_up_spec:
  "unat s + n \<le> 4294967296 \<Longrightarrow> unat d + n \<le> 4294967296 \<Longrightarrow> unat d \<le> unat s \<or> unat s + n \<le> unat d \<Longrightarrow>
    copy_up m d s n x = (if inside x d n then m (s + (x - d)) else m x)"
proof (induction n arbitrary: m d s)
  case 0
  then show ?case by (simp add: inside_def)
next
  case (Suc n)
  show ?case
  proof (cases "n = 0")
    case True
    then show ?thesis by (auto simp: inside_def unat_eq_0)
  next
    case False
    have s1: "unat (s + 1) = unat s + 1" and d1: "unat (d + 1) = unat d + 1"
      using Suc.prems False by (simp_all add: unat_plus_offset)
    have IH: "copy_up (m(d := m s)) (d + 1) (s + 1) n x =
        (if inside x (d + 1) n then (m(d := m s)) ((s + 1) + (x - (d + 1))) else (m(d := m s)) x)"
      using Suc.prems by (intro Suc.IH) (auto simp: s1 d1)
    have n: "n < 2 ^ 32" using Suc.prems by simp
    have shift: "(s + 1) + (x - (d + 1)) = s + (x - d)" by simp
    show ?thesis
    proof (cases "inside x (d + 1) n")
      case True
      have "x \<noteq> d" using True not_inside_before [OF n, of d] by auto
      then have nz: "x - d \<noteq> 0" by simp
      have eq: "x - (d + 1) = (x - d) - 1" by (simp add: algebra_simps)
      have "unat (x - d) \<noteq> 0" using nz by (simp only: unat_eq_0 not_False_eq_True)
      then have j: "unat (x - d) \<le> n" "1 \<le> unat (x - d)"
        using True unat_minus_one [OF nz] unfolding inside_def eq by linarith+
      have "unat (s + (x - d)) = unat s + unat (x - d)"
        using j Suc.prems(1) by (intro unat_plus_offset) linarith
      then have "unat (s + (x - d)) \<noteq> unat d" using Suc.prems(3) j by linarith
      then have "s + (x - d) \<noteq> d" by metis
      with True IH \<open>x \<noteq> d\<close> show ?thesis by (simp add: shift inside_Suc [OF n])
    next
      case False
      with IH show ?thesis by (auto simp: inside_Suc [OF n])
    qed
  qed
qed

lemma inside_Suc_end: "n < 2 ^ 32 \<Longrightarrow> inside x d (Suc n) \<longleftrightarrow> inside x d n \<or> x = d + of_nat n"
proof -
  assume n: "n < 2 ^ 32"
  have "unat (x - d) = n \<longleftrightarrow> x - d = of_nat n"
    using n by (simp add: word_unat_eq_iff)
  also have "\<dots> \<longleftrightarrow> x = d + of_nat n" by (auto simp: algebra_simps)
  finally show ?thesis by (auto simp: inside_def less_Suc_eq)
qed

lemma copy_down_spec:
  "unat s + n < 4294967296 \<Longrightarrow> unat d + n < 4294967296 \<Longrightarrow> unat s \<le> unat d \<Longrightarrow>
    copy_down m (d + of_nat n) (s + of_nat n) n x = (if inside x d n then m (s + (x - d)) else m x)"
proof (induction n arbitrary: m)
  case 0
  then show ?case by (simp add: inside_def)
next
  case (Suc n)
  have n: "n < 2 ^ 32" using Suc.prems by simp
  let ?m = "m(d + of_nat n := m (s + of_nat n))"
  have "copy_down m (d + of_nat (Suc n)) (s + of_nat (Suc n)) (Suc n) x =
      copy_down ?m (d + of_nat n) (s + of_nat n) n x"
    by (simp add: Let_def algebra_simps)
  also have "\<dots> = (if inside x d n then ?m (s + (x - d)) else ?m x)"
    using Suc.prems by (intro Suc.IH) auto
  also have "\<dots> = (if inside x d (Suc n) then m (s + (x - d)) else m x)"
  proof (cases "inside x d n")
    case True
    then have j: "unat (x - d) < n" by (simp add: inside_def)
    have "unat (s + (x - d)) = unat s + unat (x - d)"
      using j Suc.prems(1) by (intro unat_plus_offset) linarith
    moreover have "unat (d + of_nat n) = unat d + n"
      using Suc.prems(2) unat_plus_offset [of d "of_nat n"] by simp
    ultimately have "unat (s + (x - d)) \<noteq> unat (d + of_nat n)" using j Suc.prems(3) by linarith
    then have "s + (x - d) \<noteq> d + of_nat n" by metis
    with True show ?thesis by (simp add: inside_Suc_end [OF n])
  next
    case False
    then show ?thesis by (simp add: inside_Suc_end [OF n])
  qed
  finally show ?case .
qed

lemma memmove_spec:
  assumes "unat src + unat n < 4294967296" and "unat dst + unat n < 4294967296"
  shows "memmove m dst src n x = (if inside x dst (unat n) then m (src + (x - dst)) else m x)"
proof (cases "src < dst \<and> src + n > dst")
  case True
  then have "unat src \<le> unat dst" by (simp add: word_less_nat_alt)
  with copy_down_spec [OF assms(1,2)] True show ?thesis by (simp add: memmove_def)
next
  case False
  then have "unat dst \<le> unat src \<or> unat src + unat n \<le> unat dst"
    using unat_plus_offset [OF assms(1)] by (auto simp: word_less_nat_alt)
  with copy_up_spec assms False show ?thesis by (auto simp: memmove_def)
qed

subsection \<open>Strings as bytes of an object\<close>

text \<open>The C string held in a field of \<open>n\<close> bytes: what precedes the first zero, if any.\<close>

definition cname :: "nat \<Rightarrow> byte list \<Rightarrow> byte list" where
  "cname n xs = takeWhile (\<lambda>b. b \<noteq> 0) (take n xs)"

fun strncmp_bytes :: "nat \<Rightarrow> byte list \<Rightarrow> byte list \<Rightarrow> int" where
  "strncmp_bytes (Suc n) (p # ps) (q # qs) =
     (if p \<noteq> 0 \<and> p = q then strncmp_bytes n ps qs else uint p - uint q)"
| "strncmp_bytes _ _ _ = 0"

definition strncpy_bytes :: "nat \<Rightarrow> byte list \<Rightarrow> byte list" where
  "strncpy_bytes n xs = cname n xs @ replicate (n - length (cname n xs)) 0"

lemma load_Suc: "load m a (Suc n) = m a # load m (a + 1) n"
  by (simp add: load_def upt_rec [of 0 "Suc n"] map_Suc_upt [symmetric] add.assoc del: upt_Suc)

lemma length_load [simp]: "length (load m a n) = n"
  by (simp add: load_def)

lemma load_0 [simp]: "load m a 0 = []"
  by (simp add: load_def)

lemma load_upd: "(\<And>i. i < n \<Longrightarrow> a + of_nat i \<noteq> y) \<Longrightarrow> load (m(y := v)) a n = load m a n"
  by (auto simp: load_def)

lemma cname_Cons: "cname (Suc n) (x # xs) = (if x = 0 then [] else x # cname n xs)"
  by (simp add: cname_def)

lemma cname_0 [simp]: "cname 0 xs = []"
  by (simp add: cname_def)

lemma length_cname: "length (cname n xs) \<le> n"
  unfolding cname_def by (metis length_takeWhile_le length_take min.bounded_iff order_trans min.cobounded2)

lemma cname_nonzero: "b \<in> set (cname n xs) \<Longrightarrow> b \<noteq> 0"
  by (auto simp: cname_def dest: set_takeWhileD)

lemma length_strncpy_bytes [simp]: "length (strncpy_bytes n xs) = n"
  using length_cname [of n xs] by (simp add: strncpy_bytes_def)

lemma cname_append_zeros:
  "(\<And>b. b \<in> set c \<Longrightarrow> b \<noteq> 0) \<Longrightarrow> length c \<le> n \<Longrightarrow> cname n (c @ replicate k 0) = c"
proof -
  assume c: "\<And>b. b \<in> set c \<Longrightarrow> b \<noteq> 0" and l: "length c \<le> n"
  have "takeWhile (\<lambda>b. b \<noteq> 0) (c @ take (n - length c) (replicate k (0 :: byte))) = c"
    using c by (subst takeWhile_append2) (auto simp: take_replicate takeWhile_replicate)
  with l show ?thesis by (simp add: cname_def)
qed

lemma cname_strncpy_bytes [simp]: "cname n (strncpy_bytes n xs) = cname n xs"
  unfolding strncpy_bytes_def by (rule cname_append_zeros) (auto simp: cname_nonzero length_cname)

text \<open>\<open>strncmp\<close> answers zero exactly when the two fields hold the same string.\<close>

lemma strncmp_bytes_zero:
  "n \<le> length xs \<or> 0 \<in> set xs \<Longrightarrow> n \<le> length ys \<or> 0 \<in> set ys \<Longrightarrow>
    strncmp_bytes n xs ys = 0 \<longleftrightarrow> cname n xs = cname n ys"
proof (induction n xs ys rule: strncmp_bytes.induct)
  case (1 n p ps q qs)
  show ?case
  proof (cases "p \<noteq> 0 \<and> p = q")
    case True
    with 1 show ?thesis by (auto simp: cname_Cons)
  next
    case False
    have "uint p - uint q = 0 \<longleftrightarrow> p = q" by (simp add: word_uint_eq_iff)
    with False show ?thesis by (auto simp: cname_Cons)
  qed
qed (auto simp: cname_def take_Cons')

lemma strncmp_object: "strncmp m p q n = strncmp_bytes (unat n) (load m p (unat n)) (load m q (unat n))"
proof -
  have "strncmp_loop m p q k = strncmp_bytes k (load m p k) (load m q k)" for k
    by (induction k arbitrary: p q) (simp_all add: load_Suc)
  then show ?thesis by (simp add: strncmp_def)
qed

lemma strncpy_bytes_Cons:
  "strncpy_bytes (Suc n) (x # xs) = (if x = 0 then replicate (Suc n) 0 else x # strncpy_bytes n xs)"
  by (simp add: strncpy_bytes_def cname_Cons)

lemma strncpy_pad_frame: "n < 2 ^ 32 \<Longrightarrow> \<not> inside x s n \<Longrightarrow> strncpy_pad m s n x = m x"
  by (induction n arbitrary: m s) (auto simp: inside_Suc)

lemma strncpy_copy_frame: "n < 2 ^ 32 \<Longrightarrow> \<not> inside x s n \<Longrightarrow> strncpy_copy m s t n x = m x"
  by (induction n arbitrary: m s t) (auto simp: inside_Suc strncpy_pad_frame)

lemma load_strncpy_pad: "n < 2 ^ 32 \<Longrightarrow> load (strncpy_pad m s n) s n = replicate n 0"
proof (induction n arbitrary: m s)
  case (Suc n)
  then have "strncpy_pad (m(s := 0)) (s + 1) n s = 0"
    by (subst strncpy_pad_frame) (auto simp: not_inside_before)
  with Suc show ?case by (simp add: load_Suc)
qed simp

lemma load_strncpy_copy:
  assumes "n < 2 ^ 32" and "\<And>i j. i < n \<Longrightarrow> j < n \<Longrightarrow> t + of_nat i \<noteq> s + of_nat j"
  shows "load (strncpy_copy m s t n) s n = strncpy_bytes n (load m t n)"
  using assms
proof (induction n arbitrary: m s t)
  case 0
  then show ?case by (simp add: strncpy_bytes_def)
next
  case (Suc n)
  have n: "n < 2 ^ 32" using Suc.prems(1) by simp
  have nt: "load (m(s := v)) (t + 1) n = load m (t + 1) n" for v
  proof (rule load_upd)
    fix i assume "i < n"
    with Suc.prems(2) [of "Suc i" 0] show "t + 1 + of_nat i \<noteq> s" by (simp add: add.assoc)
  qed
  have sep: "t + 1 + of_nat i \<noteq> s + 1 + of_nat j" if "i < n" "j < n" for i j
    using Suc.prems(2) [of i j] that by (simp add: add.assoc add.left_commute)
  show ?case
  proof (cases "m t = 0")
    case True
    have "strncpy_pad (m(s := 0)) (s + 1) n s = 0"
      by (subst strncpy_pad_frame [OF n]) (auto simp: not_inside_before [OF n])
    with True n show ?thesis
      by (simp add: load_Suc strncpy_bytes_Cons load_strncpy_pad)
  next
    case False
    have "strncpy_copy (m(s := m t)) (s + 1) (t + 1) n s = m t"
      by (subst strncpy_copy_frame [OF n]) (auto simp: not_inside_before [OF n])
    with False Suc.IH [OF n sep] nt show ?thesis
      by (simp add: load_Suc strncpy_bytes_Cons)
  qed
qed

lemma safestrcpy_loop_frame:
  "Suc n < 2 ^ 32 \<Longrightarrow> \<not> inside x s (Suc n) \<Longrightarrow> safestrcpy_loop m s t n x = m x"
proof (induction n arbitrary: m s t)
  case 0
  then show ?case by (auto simp: inside_def)
next
  case (Suc n)
  then have "x \<noteq> s" "\<not> inside x (s + 1) (Suc n)" by (auto simp: inside_Suc)
  moreover from this have "x \<noteq> s + 1" by (auto simp: inside_def)
  ultimately show ?case using Suc by (simp add: Let_def)
qed

text \<open>
  \<open>safestrcpy\<close> leaves the source string cut to \<open>n - 1\<close> bytes, always terminated inside the
  destination.
\<close>

lemma load_safestrcpy_loop:
  assumes "Suc n < 2 ^ 32" and "\<And>i j. i \<le> n \<Longrightarrow> j \<le> n \<Longrightarrow> t + of_nat i \<noteq> s + of_nat j"
  shows "cname (Suc n) (load (safestrcpy_loop m s t n) s (Suc n)) = cname n (load m t n)
    \<and> 0 \<in> set (load (safestrcpy_loop m s t n) s (Suc n))"
  using assms
proof (induction n arbitrary: m s t)
  case 0
  then show ?case by (simp add: load_Suc cname_Cons)
next
  case (Suc n)
  have n: "Suc n < 2 ^ 32" using Suc.prems(1) by simp
  have nt: "load (m(s := v)) (t + 1) n = load m (t + 1) n" for v
  proof (rule load_upd)
    fix i assume "i < n"
    with Suc.prems(2) [of "Suc i" 0] show "t + 1 + of_nat i \<noteq> s" by (simp add: add.assoc)
  qed
  have sep: "t + 1 + of_nat i \<noteq> s + 1 + of_nat j" if "i \<le> n" "j \<le> n" for i j
    using Suc.prems(2) [of i j] that by (simp add: add.assoc add.left_commute)
  show ?case
  proof (cases "m t = 0")
    case True
    have "s \<noteq> s + 1" using not_inside_before [of 1 s] by (auto simp: inside_def)
    with True show ?thesis by (simp add: load_Suc cname_Cons Let_def)
  next
    case False
    have "safestrcpy_loop (m(s := m t)) (s + 1) (t + 1) n s = m t"
      by (subst safestrcpy_loop_frame [OF n]) (auto simp: not_inside_before [OF n])
    with False Suc.IH [OF n sep] nt show ?thesis
      by (simp add: load_Suc [of _ _ "Suc n"] load_Suc [of m t n] cname_Cons Let_def)
  qed
qed

lemma strlen_from_steps:
  "(\<And>i. n \<le> i \<Longrightarrow> i < k \<Longrightarrow> m (s + of_nat i) \<noteq> 0) \<Longrightarrow> m (s + of_nat k) = 0 \<Longrightarrow> n \<le> k \<Longrightarrow>
    strlen_from m s n = Some k"
proof (induction "k - n" arbitrary: n)
  case 0
  then show ?case by (simp add: strlen_from.simps)
next
  case (Suc d)
  then have "strlen_from m s (Suc n) = Some k" by simp
  moreover have "m (s + of_nat n) \<noteq> 0" using Suc by simp
  ultimately show ?case by (simp add: strlen_from.simps [of m s n])
qed

subsection \<open>Properties\<close>

text \<open>
  C15: \<open>memmove\<close> copies correctly even when source and destination overlap: afterwards every
  destination byte holds what the corresponding source byte held before the call, and no
  other byte changes, provided neither region reaches the end of the address space.
\<close>

theorem memmove_overlap_correct:
  assumes "unat src + unat n < 2 ^ 32" and "unat dst + unat n < 2 ^ 32"
  shows "load (memmove m dst src n) dst (unat n) = load m src (unat n) \<and>
    (\<forall>x. \<not> inside x dst (unat n) \<longrightarrow> memmove m dst src n x = m x)"
proof -
  have a: "unat src + unat n < 4294967296" "unat dst + unat n < 4294967296"
    using assms by simp_all
  have "memmove m dst src n (dst + of_nat i) = m (src + of_nat i)" if "i < unat n" for i
    using that less_trans [OF that unat_less_2p32] by (simp add: memmove_spec [OF a] inside_def)
  then show ?thesis by (auto simp: load_def memmove_spec [OF a])
qed

theorem memmove_overlap_correct_witness:
  "load (memmove (\<lambda>a. ucast a) 0x1002 0x1000 4) 0x1002 4 = [0, 1, 2, 3]"
proof -
  have n: "unat (4 :: uint) = 4" by simp
  have "load (memmove (\<lambda>a. ucast a) 0x1002 0x1000 4) 0x1002 (unat (4 :: uint)) =
      load (\<lambda>a. ucast a) 0x1000 (unat (4 :: uint))"
    using memmove_overlap_correct [of "0x1000" 4 "0x1002" "\<lambda>a. ucast a"] by simp
  moreover have "load (\<lambda>a. ucast a) 0x1000 4 = [0, 1, 2, 3]" by code_simp
  ultimately show ?thesis by (simp only: n)
qed

text \<open>
  C16: \<open>memset\<close> stores the low byte of its argument in exactly the \<open>n\<close> bytes from \<open>dst\<close>,
  whichever of the word-wise and byte-wise loops it takes.
\<close>

theorem memset_fills_exactly:
  "memset m dst c n x = (if unat (x - dst) < unat n then ucast c else m x)"
  by (simp add: memset_spec inside_def)

text \<open>
  C17: \<open>strncpy\<close> then \<open>strncmp\<close> is a round trip on fixed-size name fields: after copying a
  string of at most \<open>n\<close> bytes into a separate field, comparing the field with the source over
  \<open>n\<close> bytes answers zero, and bytes outside the field are untouched.
\<close>

theorem strncpy_strncmp_roundtrip:
  assumes "\<And>i j. i < unat n \<Longrightarrow> j < unat n \<Longrightarrow> t + of_nat i \<noteq> s + of_nat j"
  shows "strncmp (strncpy m s t (int (unat n))) s t n = 0 \<and>
    (\<forall>x. \<not> inside x s (unat n) \<longrightarrow> strncpy m s t (int (unat n)) x = m x)"
proof -
  let ?m = "strncpy m s t (int (unat n))"
  have n: "unat n < 2 ^ 32" by simp
  have frame: "\<not> inside x s (unat n) \<Longrightarrow> ?m x = m x" for x
    using strncpy_copy_frame [OF n] by (simp add: strncpy_def)
  have "?m (t + of_nat i) = m (t + of_nat i)" if i: "i < unat n" for i
  proof (rule frame, unfold inside_def, rule notI)
    assume "unat (t + of_nat i - s) < unat n"
    then have "t + of_nat i \<noteq> s + of_nat (unat (t + of_nat i - s))" by (rule assms [OF i])
    then show False by simp
  qed
  then have t: "load ?m t (unat n) = load m t (unat n)" by (simp add: load_def)
  have "load ?m s (unat n) = strncpy_bytes (unat n) (load m t (unat n))"
    using load_strncpy_copy [OF n assms] by (simp add: strncpy_def)
  with t frame show ?thesis by (simp add: strncmp_object strncmp_bytes_zero)
qed

theorem strncpy_strncmp_roundtrip_witness:
  "strncmp (strncpy (\<lambda>a. ucast a) 0x2000 0x1001 3) 0x2000 0x1001 3 = 0"
proof -
  have sep: "(0x1001 :: uint) + of_nat i \<noteq> 0x2000 + of_nat j"
    if "i < unat (3 :: uint)" "j < unat (3 :: uint)" for i j
  proof -
    from that have "i = 0 \<or> i = 1 \<or> i = 2" "j = 0 \<or> j = 1 \<or> j = 2" by auto
    then show ?thesis by auto
  qed
  from strncpy_strncmp_roundtrip [of "3 :: uint" "0x1001" "0x2000" "\<lambda>a. ucast a", OF sep]
  show ?thesis by simp
qed

end
