(* ===== verification/Xv6_Mmu.thy ===== *)
theory Xv6_Mmu
  imports Xv6_Prelude
begin

text \<open>
  Address arithmetic of memlayout.h and mmu.h: page rounding, the split of a virtual address
  into directory index, table index and offset, page-table entry fields, and the kernel's
  mapping between virtual and physical addresses.  All macros work on 32-bit words.
\<close>

subsection \<open>Macros\<close>

abbreviation EXTMEM :: uint where "EXTMEM \<equiv> 0x100000"
abbreviation PHYSTOP :: uint where "PHYSTOP \<equiv> 0xE000000"
abbreviation DEVSPACE :: uint where "DEVSPACE \<equiv> 0xFE000000"
abbreviation KERNBASE :: uint where "KERNBASE \<equiv> 0x80000000"
abbreviation KERNLINK :: uint where "KERNLINK \<equiv> 0x80100000"
abbreviation PGSIZE :: uint where "PGSIZE \<equiv> 4096"

definition V2P :: "addr \<Rightarrow> uint" where
  "V2P a = a - KERNBASE"

definition P2V :: "uint \<Rightarrow> addr" where
  "P2V a = a + KERNBASE"

definition PDX :: "addr \<Rightarrow> uint" where
  "PDX va = drop_bit 22 va AND 0x3FF"

definition PTX :: "addr \<Rightarrow> uint" where
  "PTX va = drop_bit 12 va AND 0x3FF"

definition PGADDR :: "uint \<Rightarrow> uint \<Rightarrow> uint \<Rightarrow> addr" where
  "PGADDR d t k = push_bit 22 d OR push_bit 12 t OR k"

definition PGROUNDUP :: "uint \<Rightarrow> uint" where
  "PGROUNDUP sz = (sz + PGSIZE - 1) AND NOT (PGSIZE - 1)"

definition PGROUNDDOWN :: "uint \<Rightarrow> uint" where
  "PGROUNDDOWN a = a AND NOT (PGSIZE - 1)"

abbreviation PTE_P :: uint where "PTE_P \<equiv> 1"
abbreviation PTE_W :: uint where "PTE_W \<equiv> 2"
abbreviation PTE_U :: uint where "PTE_U \<equiv> 4"

definition PTE_ADDR :: "uint \<Rightarrow> uint" where
  "PTE_ADDR pte = pte AND NOT 0xFFF"

definition PTE_FLAGS :: "uint \<Rightarrow> uint" where
  "PTE_FLAGS pte = pte AND 0xFFF"

subsection \<open>Rounding\<close>

lemma low_mask: "(0xFFF :: uint) = mask 12"
  by (simp add: mask_eq_exp_minus_1)

lemma index_mask: "(0x3FF :: uint) = mask 10"
  by (simp add: mask_eq_exp_minus_1)

lemma pgrounddown_bits: "PGROUNDDOWN a = push_bit 12 (drop_bit 12 a)"
proof -
  have "PGROUNDDOWN a = a AND NOT (mask 12)" by (simp add: PGROUNDDOWN_def flip: low_mask)
  also have "\<dots> = push_bit 12 (drop_bit 12 a)" by (rule bit_word_eqI) (auto simp: bit_simps)
  finally show ?thesis .
qed

lemma unat_pgrounddown: "unat (PGROUNDDOWN a) = unat a - unat a mod 4096"
proof -
  have "unat (PGROUNDDOWN a) = push_bit 12 (drop_bit 12 (unat a))"
    unfolding pgrounddown_bits
    by (simp add: unsigned_push_bit_eq unsigned_drop_bit_eq take_bit_push_bit take_bit_drop_bit take_bit_nat_eq_self)
  also have "\<dots> = unat a div 4096 * 4096"
    by (simp add: push_bit_eq_mult drop_bit_eq_div)
  also have "\<dots> = unat a - unat a mod 4096"
    by (simp add: minus_mod_eq_div_mult)
  finally show ?thesis .
qed

lemma pgrounddown_aligned: "unat (PGROUNDDOWN a) mod 4096 = 0"
  by (simp add: unat_pgrounddown minus_mod_eq_div_mult)

lemma pgrounddown_le: "PGROUNDDOWN a \<le> a"
  by (simp add: word_le_nat_alt unat_pgrounddown)

lemma pgroundup_down: "PGROUNDUP a = PGROUNDDOWN (a + 4095)"
  by (simp add: PGROUNDUP_def PGROUNDDOWN_def algebra_simps)

lemma unat_pgroundup: "unat a + 4095 < 4294967296 \<Longrightarrow> unat (PGROUNDUP a) = (unat a + 4095) div 4096 * 4096"
  unfolding pgroundup_down unat_pgrounddown
  by (simp add: unat_add_no_wrap minus_mod_eq_div_mult)

lemma unat_mod_4096: "unat (a mod 4096 :: uint) = unat a mod 4096"
  by (simp add: unat_mod)

text \<open>Directory index, table index and offset determine the address.\<close>

lemma pgaddr_pdx_ptx: "PGADDR (PDX va) (PTX va) (va AND 0xFFF) = va"
  unfolding PGADDR_def PDX_def PTX_def low_mask index_mask
proof (rule bit_word_eqI)
  fix n assume n: "n < LENGTH(32)"
  then consider "n < 12" | "12 \<le> n" "n < 22" | "22 \<le> n" by linarith
  then show "bit (push_bit 22 (drop_bit 22 va AND mask 10) OR
      push_bit 12 (drop_bit 12 va AND mask 10) OR va AND mask 12) n = bit va n"
    using n by cases (auto simp: bit_simps)
qed

lemma pte_split: "PTE_ADDR pte OR PTE_FLAGS pte = pte"
  unfolding PTE_ADDR_def PTE_FLAGS_def by (rule bit_word_eqI) (auto simp: bit_simps)

lemma V2P_P2V [simp]: "V2P (P2V a) = a"
  by (simp add: V2P_def P2V_def)

lemma P2V_V2P [simp]: "P2V (V2P a) = a"
  by (simp add: V2P_def P2V_def)

lemma unat_V2P: "KERNBASE \<le> a \<Longrightarrow> unat (V2P a) = unat a - unat KERNBASE"
  unfolding V2P_def by (rule unat_sub)

lemma V2P_below: "V2P a < PHYSTOP \<longleftrightarrow> unat KERNBASE \<le> unat a \<and> unat a < unat KERNBASE + unat PHYSTOP"
proof (cases "KERNBASE \<le> a")
  case True
  then show ?thesis by (auto simp: word_less_nat_alt word_le_nat_alt unat_V2P)
next
  case False
  then have less: "unat a < 2147483648" by (simp add: word_le_nat_alt)
  have "V2P a = a + KERNBASE" by (simp add: V2P_def)
  then have "unat (V2P a) = unat a + 2147483648" using less by (simp add: unat_add_no_wrap)
  with less show ?thesis by (simp add: word_less_nat_alt)
qed

subsection \<open>Pages\<close>

definition page_aligned :: "addr \<Rightarrow> bool" where
  "page_aligned a \<longleftrightarrow> unat a mod 4096 = 0"

lemma page_aligned_word: "page_aligned a \<longleftrightarrow> a mod PGSIZE = 0"
  unfolding page_aligned_def unat_mod_4096 [symmetric] by (simp add: unat_eq_0)

lemma page_aligned_pgrounddown [simp]: "page_aligned (PGROUNDDOWN a)"
  by (simp add: page_aligned_def pgrounddown_aligned)

lemma page_aligned_room: "page_aligned a \<Longrightarrow> unat a + 4096 \<le> 4294967296"
proof -
  assume "page_aligned a"
  then obtain k where k: "unat a = 4096 * k" by (auto simp: page_aligned_def mod_eq_0_iff_dvd)
  have "4096 * k < 4294967296" using k unat_less_2p32 [of a] by simp
  then have "k < 1048576" by linarith
  with k show ?thesis by linarith
qed

lemma pgrounddown_same: "page_aligned a \<Longrightarrow> PGROUNDDOWN a = a"
  by (simp add: word_unat_eq_iff unat_pgrounddown page_aligned_def)

lemma pgrounddown_offset: "page_aligned a \<Longrightarrow> k < 4096 \<Longrightarrow> PGROUNDDOWN (a + of_nat k) = a"
proof -
  assume a: "page_aligned a" and k: "k < 4096"
  have "unat (a + of_nat k) = unat a + k"
    using page_aligned_room [OF a] k by (simp add: unat_add_no_wrap)
  moreover have "(unat a + k) mod 4096 = k" using a k by (simp add: page_aligned_def mod_add_left_eq [symmetric])
  ultimately show ?thesis by (simp add: word_unat_eq_iff unat_pgrounddown)
qed

lemma page_offset_iff:
  assumes "page_aligned v"
  shows "unat (y - v) < 4096 \<longleftrightarrow> PGROUNDDOWN y = v"
proof
  assume "unat (y - v) < 4096"
  then have "PGROUNDDOWN (v + of_nat (unat (y - v))) = v" by (rule pgrounddown_offset [OF assms])
  then show "PGROUNDDOWN y = v" by simp
next
  assume v: "PGROUNDDOWN y = v"
  then have "v \<le> y" using pgrounddown_le by auto
  then have "unat (y - v) = unat y - unat v" by (rule unat_sub)
  also have "\<dots> = unat y mod 4096" unfolding v [symmetric] by (simp add: unat_pgrounddown)
  also have "\<dots> < 4096" by simp
  finally show "unat (y - v) < 4096" .
qed

lemma page_aligned_next:
  "page_aligned a \<Longrightarrow> unat a + 4096 < 4294967296 \<Longrightarrow> page_aligned (a + 4096) \<and> unat (a + 4096) = unat a + 4096"
  by (simp add: page_aligned_def unat_add_no_wrap)

end
