(* ===== verification/Xv6_Kalloc.thy ===== *)
theory Xv6_Kalloc
  imports Xv6_Lock Xv6_String Xv6_Mmu
begin

text \<open>
  The physical page allocator (kalloc.c).  The free list is threaded through the free pages
  themselves: the first word of a free page is the address of the next one.  The model keeps
  the machine memory byte by byte, so that freeing a page really overwrites it; the list of
  free pages is recovered by \<open>free_list\<close>.
\<close>

subsection \<open>Words in memory\<close>

definition ld32 :: "memory \<Rightarrow> addr \<Rightarrow> uint" where
  "ld32 m a = get32 [m a, m (a + 1), m (a + 2), m (a + 3)] 0"

definition st32 :: "memory \<Rightarrow> addr \<Rightarrow> uint \<Rightarrow> memory" where
  "st32 m a w = m(a := ucast w, a + 1 := ucast (drop_bit 8 w), a + 2 := ucast (drop_bit 16 w),
     a + 3 := ucast (drop_bit 24 w))"

lemma word_offsets_distinct [simp]:
  "a + 1 \<noteq> (a :: uint)" "a + 2 \<noteq> a" "a + 3 \<noteq> a" "a \<noteq> a + 1" "a \<noteq> a + 2" "a \<noteq> a + 3"
  by (simp_all add: eq_sym_conv [of a])

lemma ld32_st32_same [simp]: "ld32 (st32 m a w) a = w"
  by (simp add: ld32_def st32_def get32_def word32_bytes)

lemma ld32_cong:
  "m a = m' a \<Longrightarrow> m (a + 1) = m' (a + 1) \<Longrightarrow> m (a + 2) = m' (a + 2) \<Longrightarrow> m (a + 3) = m' (a + 3) \<Longrightarrow> ld32 m a = ld32 m' a"
  by (simp add: ld32_def)

subsection \<open>State and operations\<close>

text \<open>\<open>kend\<close> and \<open>kdata\<close> are the linker symbols \<open>end\<close> and \<open>data\<close> of kernel.ld.\<close>

record kmem_st = kst +
  mem :: memory
  freelist :: addr
  use_lock :: bool
  kend :: addr
  kdata :: addr

definition kfree :: "addr \<Rightarrow> 'z kmem_st_scheme \<Rightarrow> (unit, 'z kmem_st_scheme) res" where
  "kfree v s =
    (if v mod PGSIZE \<noteq> 0 \<or> v < kend s \<or> V2P v \<ge> PHYSTOP then Panic ''kfree''
     else
       let s = s\<lparr>mem := memset (mem s) v 1 PGSIZE\<rparr> in
       rbind (if use_lock s then acquire L_kmem s else Ok () s) (\<lambda>_ s.
       let r = v;
           s = s\<lparr>mem := st32 (mem s) r (freelist s)\<rparr>;
           s = s\<lparr>freelist := r\<rparr>
       in if use_lock s then release L_kmem s else Ok () s))"

definition kalloc :: "'z kmem_st_scheme \<Rightarrow> (addr, 'z kmem_st_scheme) res" where
  "kalloc s =
    rbind (if use_lock s then acquire L_kmem s else Ok () s) (\<lambda>_ s.
    let r = freelist s;
        s = (if r \<noteq> 0 then s\<lparr>freelist := ld32 (mem s) r\<rparr> else s)
    in rbind (if use_lock s then release L_kmem s else Ok () s) (\<lambda>_ s. Ok r s))"

lemma rbind_cong [fundef_cong]:
  "m = m' \<Longrightarrow> (\<And>x s. m' = Ok x s \<Longrightarrow> f x s = g x s) \<Longrightarrow> rbind m f = rbind m' g"
  by (cases m') auto

lemma kfree_Ok_page: "kfree v s = Ok u s' \<Longrightarrow> page_aligned v \<and> kend s \<le> v \<and> V2P v < PHYSTOP"
  by (auto simp: kfree_def page_aligned_word split: if_splits)

function freerange_loop :: "addr \<Rightarrow> addr \<Rightarrow> 'z kmem_st_scheme \<Rightarrow> (unit, 'z kmem_st_scheme) res" where
  "freerange_loop p vend s =
    (if p + PGSIZE \<le> vend then rbind (kfree p s) (\<lambda>_ s. freerange_loop (p + PGSIZE) vend s)
     else Ok () s)"
  by pat_completeness auto
termination
proof (relation "measure (\<lambda>(p, vend, s). 4294967296 - unat p)")
  fix p vend :: addr and s s' :: "'z kmem_st_scheme" and x :: unit
  assume "kfree p s = Ok x s'"
  then have "unat p + 4096 < 4294967296"
    using kfree_Ok_page [of p s x s'] by (simp add: V2P_below)
  then show "((p + 4096, vend, s'), p, vend, s) \<in> measure (\<lambda>(p, vend, s). 4294967296 - unat p)"
    by (simp add: unat_add_no_wrap)
qed simp

declare freerange_loop.simps [simp del]

definition freerange :: "addr \<Rightarrow> addr \<Rightarrow> 'z kmem_st_scheme \<Rightarrow> (unit, 'z kmem_st_scheme) res" where
  "freerange vstart vend s = freerange_loop (PGROUNDUP vstart) vend s"

definition kinit1 :: "addr \<Rightarrow> addr \<Rightarrow> 'z kmem_st_scheme \<Rightarrow> (unit, 'z kmem_st_scheme) res" where
  "kinit1 vstart vend s =
    (let s = initlock L_kmem s; s = s\<lparr>use_lock := False\<rparr> in freerange vstart vend s)"

definition kinit2 :: "addr \<Rightarrow> addr \<Rightarrow> 'z kmem_st_scheme \<Rightarrow> (unit, 'z kmem_st_scheme) res" where
  "kinit2 vstart vend s =
    rbind (freerange vstart vend s) (\<lambda>_ s. Ok () (s\<lparr>use_lock := True\<rparr>))"

subsection \<open>The free list as a list of pages\<close>

fun free_list :: "memory \<Rightarrow> addr \<Rightarrow> addr list \<Rightarrow> bool" where
  "free_list m p [] \<longleftrightarrow> p = 0"
| "free_list m p (x # xs) \<longleftrightarrow> p = x \<and> x \<noteq> 0 \<and> free_list m (ld32 m x) xs"

definition phys_page :: "'z kmem_st_scheme \<Rightarrow> addr \<Rightarrow> bool" where
  "phys_page s v \<longleftrightarrow> page_aligned v \<and> kend s \<le> v \<and> V2P v < PHYSTOP"

definition kmem_lock_ok :: "'z kmem_st_scheme \<Rightarrow> bool" where
  "kmem_lock_ok s \<longleftrightarrow> cli_wf s \<and> L_kmem \<notin> set (held s)"

definition kmem_inv :: "addr list \<Rightarrow> 'z kmem_st_scheme \<Rightarrow> bool" where
  "kmem_inv xs s \<longleftrightarrow> free_list (mem s) (freelist s) xs \<and> distinct xs \<and> (\<forall>x \<in> set xs. phys_page s x) \<and> kmem_lock_ok s"

lemma phys_page_nonzero: "phys_page s v \<Longrightarrow> v \<noteq> 0"
  by (auto simp: phys_page_def V2P_below)

text \<open>A change confined to other pages does not disturb the list.\<close>

lemma ld32_other_page:
  assumes "page_aligned a" and "\<And>y. PGROUNDDOWN y = a \<Longrightarrow> m' y = m y"
  shows "ld32 m' a = ld32 m a"
proof -
  have "m' (a + of_nat k) = m (a + of_nat k)" if "k < 4096" for k
    using assms(2) [OF pgrounddown_offset [OF assms(1) that]] .
  from this [of 0] this [of 1] this [of 2] this [of 3] show ?thesis
    by (intro ld32_cong) simp_all
qed

lemma free_list_frame:
  "free_list m p xs \<Longrightarrow> (\<And>x. x \<in> set xs \<Longrightarrow> page_aligned x) \<Longrightarrow>
    (\<And>y. PGROUNDDOWN y \<in> set xs \<Longrightarrow> m' y = m y) \<Longrightarrow> free_list m' p xs"
proof (induction xs arbitrary: p)
  case (Cons x xs)
  have "ld32 m' x = ld32 m x" using Cons.prems by (intro ld32_other_page) auto
  with Cons show ?case by simp
qed simp

text \<open>What every allocator operation keeps: everything but memory, the free list and \<open>intena\<close>.\<close>

definition kmem_frame :: "'z kmem_st_scheme \<Rightarrow> 'z kmem_st_scheme \<Rightarrow> bool" where
  "kmem_frame s s' \<longleftrightarrow> held s' = held s \<and> ncli s' = ncli s \<and> iflag s' = iflag s \<and>
     use_lock s' = use_lock s \<and> kend s' = kend s \<and> kdata s' = kdata s \<and> kmem_st.more s' = kmem_st.more s"

lemma kmem_frame_refl [simp]: "kmem_frame s s"
  by (simp add: kmem_frame_def)

lemma kmem_frame_trans: "kmem_frame s t \<Longrightarrow> kmem_frame t u \<Longrightarrow> kmem_frame s u"
  by (simp add: kmem_frame_def)

lemma kmem_frame_phys: "kmem_frame s t \<Longrightarrow> phys_page t v = phys_page s v"
  by (simp add: kmem_frame_def phys_page_def)

lemma kmem_frame_lock: "kmem_frame s t \<Longrightarrow> kmem_lock_ok s \<Longrightarrow> kmem_lock_ok t"
  by (simp add: kmem_frame_def kmem_lock_ok_def cli_wf_def)

text \<open>Both operations are one memory update inside the (optional) lock.\<close>

lemma kfree_step:
  assumes "kmem_lock_ok s" and "phys_page s v"
  shows "\<exists>s'. kfree v s = Ok () s' \<and> kmem_frame s s' \<and> freelist s' = v \<and>
    mem s' = st32 (memset (mem s) v 1 PGSIZE) v (freelist s)"
proof -
  from assms have p: "v mod PGSIZE = 0" "\<not> v < kend s" "\<not> PHYSTOP \<le> V2P v"
    by (auto simp: phys_page_def page_aligned_word)
  from assms(1) have "ncli s = int (length (held s))" "held s \<noteq> [] \<Longrightarrow> \<not> iflag s" "L_kmem \<notin> set (held s)"
    by (auto simp: kmem_lock_ok_def cli_wf_def)
  with p show ?thesis
    by (cases "use_lock s"; cases "held s = []") (simp_all add: kfree_def lock_simps kmem_frame_def)
qed

lemma kalloc_step:
  assumes "kmem_lock_ok s"
  shows "\<exists>s'. kalloc s = Ok (freelist s) s' \<and> kmem_frame s s' \<and> mem s' = mem s \<and>
    freelist s' = (if freelist s = 0 then 0 else ld32 (mem s) (freelist s))"
proof -
  from assms have "ncli s = int (length (held s))" "held s \<noteq> [] \<Longrightarrow> \<not> iflag s" "L_kmem \<notin> set (held s)"
    by (auto simp: kmem_lock_ok_def cli_wf_def)
  then show ?thesis
    by (cases "use_lock s"; cases "held s = []") (simp_all add: kalloc_def lock_simps kmem_frame_def)
qed

lemma kfree_outside:
  assumes "page_aligned v" and "PGROUNDDOWN y \<noteq> v"
  shows "st32 (memset m v 1 PGSIZE) v w y = m y"
proof -
  have out: "\<not> inside y v 4096" using assms by (simp add: inside_def page_offset_iff)
  have "y \<noteq> v + of_nat k" if "k < 4096" for k
    using pgrounddown_offset [OF assms(1) that] assms(2) by auto
  from this [of 0] this [of 1] this [of 2] this [of 3]
  have "st32 (memset m v 1 PGSIZE) v w y = memset m v 1 PGSIZE y" by (simp add: st32_def)
  with out show ?thesis by (simp add: memset_spec)
qed

lemma kfree_pushes:
  assumes inv: "kmem_inv xs s" and v: "phys_page s v" "v \<notin> set xs"
  shows "\<exists>s'. kfree v s = Ok () s' \<and> kmem_inv (v # xs) s' \<and> kmem_frame s s' \<and>
    (\<forall>y. PGROUNDDOWN y \<noteq> v \<longrightarrow> mem s' y = mem s y)"
proof -
  from inv have lk: "kmem_lock_ok s" by (simp add: kmem_inv_def)
  from kfree_step [OF lk v(1)] obtain s' where s': "kfree v s = Ok () s'" "kmem_frame s s'" "freelist s' = v"
    "mem s' = st32 (memset (mem s) v 1 PGSIZE) v (freelist s)" by blast
  have al: "page_aligned v" using v(1) by (simp add: phys_page_def)
  have out: "PGROUNDDOWN y \<noteq> v \<Longrightarrow> mem s' y = mem s y" for y
    using kfree_outside [OF al] s'(4) by simp
  have "free_list (mem s') (freelist s) xs"
  proof (rule free_list_frame)
    show "free_list (mem s) (freelist s) xs" using inv by (simp add: kmem_inv_def)
    show "page_aligned x" if "x \<in> set xs" for x
      using inv that by (simp add: kmem_inv_def phys_page_def)
    show "mem s' y = mem s y" if "PGROUNDDOWN y \<in> set xs" for y
      using that v(2) by (intro out) metis
  qed
  moreover have "ld32 (mem s') v = freelist s" by (simp add: s'(4))
  ultimately have "kmem_inv (v # xs) s'"
    using inv v s'(2,3) kmem_frame_phys [OF s'(2)] kmem_frame_lock [OF s'(2) lk] phys_page_nonzero [OF v(1)]
    by (simp add: kmem_inv_def)
  with s'(1,2) out show ?thesis by blast
qed

lemma kalloc_pops:
  assumes "kmem_inv (x # xs) s"
  shows "\<exists>s'. kalloc s = Ok x s' \<and> kmem_inv xs s' \<and> kmem_frame s s' \<and> mem s' = mem s"
proof -
  from assms have lk: "kmem_lock_ok s" and f: "freelist s = x" "x \<noteq> 0" "free_list (mem s) (ld32 (mem s) x) xs"
    by (auto simp: kmem_inv_def)
  from kalloc_step [OF lk] obtain s' where s': "kalloc s = Ok x s'" "kmem_frame s s'" "mem s' = mem s"
    "freelist s' = ld32 (mem s) x" using f by auto
  with assms f kmem_frame_phys [OF s'(2)] kmem_frame_lock [OF s'(2) lk] show ?thesis
    by (auto simp: kmem_inv_def)
qed

lemma kalloc_empty:
  assumes "kmem_inv [] s"
  shows "\<exists>s'. kalloc s = Ok 0 s' \<and> kmem_inv [] s' \<and> kmem_frame s s' \<and> mem s' = mem s"
proof -
  from assms have lk: "kmem_lock_ok s" and f: "freelist s = 0" by (auto simp: kmem_inv_def)
  from kalloc_step [OF lk] f kmem_frame_lock [OF _ lk] show ?thesis by (auto simp: kmem_inv_def)
qed

subsection \<open>Interface: an allocator of disjoint pages\<close>

text \<open>
  What the clients of the allocator (page tables, kernel stacks, pipes) rely on.  \<open>pool\<close> is
  the list of free pages, newest first.
\<close>

locale page_pool =
  fixes take_page :: "'s \<Rightarrow> (addr, 's) res"
    and give_page :: "addr \<Rightarrow> 's \<Rightarrow> (unit, 's) res"
    and pool :: "addr list \<Rightarrow> 's \<Rightarrow> bool"
    and usable :: "'s \<Rightarrow> addr \<Rightarrow> bool"
  assumes take_some: "pool (x # xs) s \<Longrightarrow> \<exists>s'. take_page s = Ok x s' \<and> pool xs s' \<and> usable s' = usable s"
    and take_none: "pool [] s \<Longrightarrow> \<exists>s'. take_page s = Ok 0 s' \<and> pool [] s' \<and> usable s' = usable s"
    and give: "pool xs s \<Longrightarrow> usable s v \<Longrightarrow> v \<notin> set xs \<Longrightarrow>
      \<exists>s'. give_page v s = Ok () s' \<and> pool (v # xs) s' \<and> usable s' = usable s"
    and pool_ok: "pool xs s \<Longrightarrow> distinct xs \<and> (\<forall>x \<in> set xs. usable s x \<and> x \<noteq> 0)"
begin

text \<open>A page that is handed out is usable and no longer in the pool.\<close>

lemma taken_page_fresh:
  assumes "pool xs s" and "take_page s = Ok v s'" and "v \<noteq> 0"
  shows "pool (tl xs) s' \<and> v \<in> set xs \<and> v \<notin> set (tl xs) \<and> usable s' v"
proof (cases xs)
  case Nil
  with assms take_none [of s] show ?thesis by auto
next
  case (Cons x ys)
  with assms take_some [of x ys s] pool_ok [of xs s] show ?thesis by auto
qed

text \<open>The allocator fails exactly when the pool is empty.\<close>

lemma take_fails_iff:
  assumes "pool xs s" and "take_page s = Ok v s'"
  shows "v = 0 \<longleftrightarrow> xs = []"
proof (cases xs)
  case Nil
  with assms take_none [of s] show ?thesis by auto
next
  case (Cons x ys)
  with assms take_some [of x ys s] pool_ok [of xs s] show ?thesis by auto
qed

text \<open>Two requests in a row.\<close>

lemma take_twice:
  assumes "pool xs s"
  shows "\<exists>v s1 w s2. take_page s = Ok v s1 \<and> take_page s1 = Ok w s2 \<and> (v = 0 \<longleftrightarrow> xs = []) \<and> (w = 0 \<longleftrightarrow> length xs \<le> 1) \<and>
    (v \<noteq> 0 \<longrightarrow> v \<in> set xs \<and> usable s v) \<and> (w \<noteq> 0 \<longrightarrow> w \<in> set xs \<and> usable s w \<and> w \<noteq> v) \<and>
    pool (drop 2 xs) s2 \<and> v \<notin> set (drop 2 xs) \<and> w \<notin> set (drop 2 xs)"
proof -
  have one: "\<exists>v s'. take_page t = Ok v s' \<and> pool (drop 1 ys) s' \<and> v = (case ys of [] \<Rightarrow> 0 | y # _ \<Rightarrow> y)" if "pool ys t" for ys t
  proof (cases ys)
    case Nil
    then show ?thesis using take_none [of t] that by auto
  next
    case (Cons y zs)
    then show ?thesis using take_some [of y zs t] that by auto
  qed
  obtain v s1 where 1: "take_page s = Ok v s1" "pool (drop 1 xs) s1" "v = (case xs of [] \<Rightarrow> 0 | y # _ \<Rightarrow> y)" using one [OF assms] by blast
  obtain w s2 where 2: "take_page s1 = Ok w s2" "pool (drop 1 (drop 1 xs)) s2" "w = (case drop 1 xs of [] \<Rightarrow> 0 | y # _ \<Rightarrow> y)"
    using one [OF 1(2)] by blast
  have ok: "distinct xs" "\<forall>x \<in> set xs. usable s x \<and> x \<noteq> 0" using pool_ok [OF assms] by blast+
  consider "xs = []" | x where "xs = [x]" | x y zs where "xs = x # y # zs" by (metis list.exhaust)
  then have "(v = 0 \<longleftrightarrow> xs = []) \<and> (w = 0 \<longleftrightarrow> length xs \<le> 1) \<and> (v \<noteq> 0 \<longrightarrow> v \<in> set xs \<and> usable s v) \<and>
      (w \<noteq> 0 \<longrightarrow> w \<in> set xs \<and> usable s w \<and> w \<noteq> v) \<and> v \<notin> set (drop 2 xs) \<and> w \<notin> set (drop 2 xs)"
    by cases (use 1(3) 2(3) ok in auto)
  moreover have "pool (drop 2 xs) s2" using 2(2) by (simp add: numeral_2_eq_2)
  ultimately show ?thesis using 1(1) 2(1) by blast
qed

text \<open>A page given back is the next one handed out.\<close>

lemma give_then_take:
  assumes "pool xs s" "usable s v" "v \<notin> set xs"
  shows "\<exists>s'. rbind (give_page v s) (\<lambda>_. take_page) = Ok v s' \<and> pool xs s'"
proof -
  from give [OF assms] obtain t where t: "give_page v s = Ok () t" "pool (v # xs) t" by blast
  with take_some [OF t(2)] show ?thesis by auto
qed

end

interpretation km: page_pool kalloc kfree kmem_inv phys_page
proof unfold_locales
  fix x v :: addr and xs and s :: "'z kmem_st_scheme"
  have u: "phys_page s' = phys_page s" if "kmem_frame s s'" for s'
    using kmem_frame_phys [OF that] by auto
  show "kmem_inv (x # xs) s \<Longrightarrow> \<exists>s'. kalloc s = Ok x s' \<and> kmem_inv xs s' \<and> phys_page s' = phys_page s"
    using kalloc_pops [of x xs s] u by blast
  show "kmem_inv [] s \<Longrightarrow> \<exists>s'. kalloc s = Ok 0 s' \<and> kmem_inv [] s' \<and> phys_page s' = phys_page s"
    using kalloc_empty [of s] u by blast
  show "kmem_inv xs s \<Longrightarrow> phys_page s v \<Longrightarrow> v \<notin> set xs \<Longrightarrow>
      \<exists>s'. kfree v s = Ok () s' \<and> kmem_inv (v # xs) s' \<and> phys_page s' = phys_page s"
    using kfree_pushes [of xs s v] u by blast
  show "kmem_inv xs s \<Longrightarrow> distinct xs \<and> (\<forall>x \<in> set xs. phys_page s x \<and> x \<noteq> 0)"
    using phys_page_nonzero by (auto simp: kmem_inv_def)
qed

subsection \<open>Filling the pool at boot\<close>

definition pages_in :: "addr \<Rightarrow> addr \<Rightarrow> addr set" where
  "pages_in p q = {v. page_aligned v \<and> p \<le> v \<and> unat v + 4096 \<le> unat q}"

lemma pages_in_step:
  assumes p: "page_aligned p" and room: "unat p + 4096 < 4294967296" and fits: "unat p + 4096 \<le> unat q"
  shows "pages_in p q = insert p (pages_in (p + 4096) q)"
proof -
  have next_p: "unat (p + 4096) = unat p + 4096" using page_aligned_next [OF p room] by simp
  have "v = p \<or> p + 4096 \<le> v" if v: "page_aligned v" "p \<le> v" for v
  proof -
    from v p obtain i j where ij: "unat v = 4096 * i" "unat p = 4096 * j"
      by (auto simp: page_aligned_def mod_eq_0_iff_dvd elim!: dvdE)
    moreover have "j \<le> i" using v(2) ij by (simp add: word_le_nat_alt)
    ultimately show ?thesis using next_p by (auto simp: word_le_nat_alt word_unat_eq_iff)
  qed
  moreover have "p \<le> v" if "p + 4096 \<le> v" for v
    using that next_p by (simp add: word_le_nat_alt)
  ultimately show ?thesis using p fits by (auto simp: pages_in_def)
qed

lemma freerange_loop_fills:
  "page_aligned p \<Longrightarrow> kend s \<le> p \<Longrightarrow> KERNBASE \<le> p \<Longrightarrow> unat p \<le> 0x8E000000 \<Longrightarrow> unat q \<le> 0x8E000000 \<Longrightarrow>
    kmem_inv xs s \<Longrightarrow> \<forall>x \<in> set xs. x < p \<or> q \<le> x \<Longrightarrow>
    \<exists>s' ys. freerange_loop p q s = Ok () s' \<and> kmem_inv (ys @ xs) s' \<and> kmem_frame s s' \<and> set ys = pages_in p q"
proof (induction p q s arbitrary: xs rule: freerange_loop.induct)
  case (1 p q s)
  have room: "unat p + 4096 < 4294967296" using 1(5) by simp
  have np: "unat (p + 4096) = unat p + 4096" "page_aligned (p + 4096)"
    using page_aligned_next [OF 1(2) room] by simp_all
  show ?case
  proof (cases "p + 4096 \<le> q")
    case True
    then have fits: "unat p + 4096 \<le> unat q" using np by (simp add: word_le_nat_alt)
    have page: "phys_page s p" using 1(2-6) fits by (simp add: phys_page_def V2P_below word_le_nat_alt)
    have "p \<notin> set xs" using 1(8) fits by (auto simp: word_le_nat_alt)
    from kfree_pushes [OF 1(7) page this] obtain t where
      t: "kfree p s = Ok () t" "kmem_inv (p # xs) t" "kmem_frame s t" by blast
    have "\<exists>s' ys. freerange_loop (p + 4096) q t = Ok () s' \<and> kmem_inv (ys @ p # xs) s' \<and>
        kmem_frame t s' \<and> set ys = pages_in (p + 4096) q"
    proof (rule "1.IH" [OF True t(1)])
      show "kend t \<le> p + 4096" "KERNBASE \<le> p + 4096"
        using 1(3,4) t(3) np by (simp_all add: kmem_frame_def word_le_nat_alt)
      show "\<forall>x \<in> set (p # xs). x < p + 4096 \<or> q \<le> x"
        using 1(8) np by (auto simp: word_le_nat_alt word_less_nat_alt)
    qed (use np fits 1(5,6) t(2) in simp_all)
    then obtain s' ys where s': "freerange_loop (p + 4096) q t = Ok () s'" "kmem_inv (ys @ p # xs) s'"
      "kmem_frame t s'" "set ys = pages_in (p + 4096) q" by blast
    have "freerange_loop p q s = Ok () s'" using True t(1) s'(1) by (simp add: freerange_loop.simps [of p q s])
    moreover have "kmem_inv ((ys @ [p]) @ xs) s'" using s'(2) by simp
    moreover have "set (ys @ [p]) = pages_in p q"
      using s'(4) pages_in_step [OF 1(2) room fits] by simp
    ultimately show ?thesis using kmem_frame_trans [OF t(3) s'(3)] by blast
  next
    case False
    then have "\<not> unat p + 4096 \<le> unat q" using np by (simp add: word_le_nat_alt)
    then have "pages_in p q = {}" by (auto simp: pages_in_def word_le_nat_alt)
    with False 1(7) show ?thesis
      by (intro exI [of _ s] exI [of _ "[]"]) (simp add: freerange_loop.simps [of p q s])
  qed
qed

subsection \<open>Properties\<close>

text \<open>
  C13: the free list is a stack of distinct usable pages.  Freeing a usable page that is not
  free pushes it, changing only bytes of that page; the next allocation returns that page,
  which is then no longer free, and changes no byte of memory.
\<close>

theorem kfree_kalloc_stack:
  assumes "kmem_inv xs s" and "phys_page s v" and "v \<notin> set xs"
  shows "\<exists>s1 s2. kfree v s = Ok () s1 \<and> kmem_inv (v # xs) s1 \<and> kmem_frame s s1 \<and>
    (\<forall>y. PGROUNDDOWN y \<noteq> v \<longrightarrow> mem s1 y = mem s y) \<and>
    kalloc s1 = Ok v s2 \<and> kmem_inv xs s2 \<and> mem s2 = mem s1 \<and> kmem_frame s1 s2"
proof -
  from kfree_pushes [OF assms] obtain s1 where s1: "kfree v s = Ok () s1" "kmem_inv (v # xs) s1" "kmem_frame s s1"
    "\<forall>y. PGROUNDDOWN y \<noteq> v \<longrightarrow> mem s1 y = mem s y" by blast
  with kalloc_pops [OF s1(2)] show ?thesis by blast
qed

definition kmem_example :: "addr \<Rightarrow> kmem_st" where
  "kmem_example p = \<lparr>ncli = 0, intena = False, iflag = True, held = [], mem = (\<lambda>_. 0),
     freelist = p, use_lock = True, kend = 0x80110000, kdata = 0x80108000\<rparr>"

lemma kmem_example_inv:
  "kmem_inv [] (kmem_example 0)" "kmem_inv [0x80200000] (kmem_example 0x80200000)"
  "phys_page (kmem_example p) 0x80200000"
  by (simp_all add: kmem_example_def kmem_inv_def kmem_lock_ok_def cli_wf_def phys_page_def page_aligned_def
      V2P_def ld32_def get32_def)

theorem kfree_kalloc_stack_witness:
  "\<exists>s1 s2. kfree 0x80200000 (kmem_example 0) = Ok () s1 \<and> kalloc s1 = Ok 0x80200000 s2 \<and> kmem_inv [] s2"
proof -
  have "0x80200000 \<notin> set ([] :: addr list)" by simp
  from kfree_kalloc_stack [OF kmem_example_inv(1) kmem_example_inv(3) this] show ?thesis by blast
qed

text \<open>
  C12: two successive calls of \<open>kalloc\<close> return, each with a page that was on the free list or, exactly when none is left, with
  the null pointer; the two pages are different usable pages, and neither is on the free list any more.
\<close>

theorem kalloc_no_double_allocation:
  assumes "kmem_inv xs s"
  shows "\<exists>v s1 w s2. kalloc s = Ok v s1 \<and> kalloc s1 = Ok w s2 \<and> (v = 0 \<longleftrightarrow> xs = []) \<and> (w = 0 \<longleftrightarrow> length xs \<le> 1) \<and>
    (v \<noteq> 0 \<longrightarrow> v \<in> set xs \<and> phys_page s v) \<and> (w \<noteq> 0 \<longrightarrow> w \<in> set xs \<and> phys_page s w \<and> w \<noteq> v) \<and>
    kmem_inv (drop 2 xs) s2 \<and> v \<notin> set (drop 2 xs) \<and> w \<notin> set (drop 2 xs)"
  using km.take_twice [OF assms] by blast

theorem kalloc_no_double_allocation_witness:
  "\<exists>t u s1 s2. kfree 0x80200000 (kmem_example 0) = Ok () t \<and> kfree 0x80201000 t = Ok () u \<and> kmem_inv [0x80201000, 0x80200000] u \<and>
     kalloc u = Ok 0x80201000 s1 \<and> kalloc s1 = Ok 0x80200000 s2"
proof -
  have p: "phys_page (kmem_example 0) 0x80200000" "phys_page (kmem_example 0) 0x80201000"
    by (simp_all add: kmem_example_def phys_page_def page_aligned_def V2P_def)
  obtain t where t: "kfree 0x80200000 (kmem_example 0) = Ok () t" "kmem_inv [0x80200000] t" "phys_page t = phys_page (kmem_example 0)"
    using km.give [OF kmem_example_inv(1) p(1)] by auto
  obtain u where u: "kfree 0x80201000 t = Ok () u" "kmem_inv [0x80201000, 0x80200000] u"
    using km.give [OF t(2), of "0x80201000"] p(2) t(3) by auto
  obtain v s1 w s2 where r: "kalloc u = Ok v s1" "kalloc s1 = Ok w s2" "v \<noteq> 0" "w \<noteq> 0" "v \<in> {0x80201000, 0x80200000}" "w \<in> {0x80201000, 0x80200000}" "w \<noteq> v"
    using kalloc_no_double_allocation [OF u(2)] by auto
  have "v = 0x80201000" using kalloc_pops [OF u(2)] r(1) by auto
  then have "w = 0x80200000" using r(6,7) by simp
  with \<open>v = 0x80201000\<close> t(1) u r show ?thesis by blast
qed

text \<open>
  C14: \<open>freerange\<close> puts on the free list exactly the whole pages between the rounded-up start
  and the end, each once, in front of what was free before.
\<close>

theorem freerange_frees_every_page:
  assumes "kmem_inv xs s" and "KERNBASE \<le> kend s" and "kend s \<le> vstart"
    and "unat vstart + 4095 < 0x8E000000" and "unat vend \<le> 0x8E000000"
    and "\<forall>x \<in> set xs. x < PGROUNDUP vstart \<or> vend \<le> x"
  shows "\<exists>s' ys. freerange vstart vend s = Ok () s' \<and> kmem_inv (ys @ xs) s' \<and>
    set ys = pages_in (PGROUNDUP vstart) vend"
proof -
  let ?p = "PGROUNDUP vstart"
  have p: "unat ?p = (unat vstart + 4095) div 4096 * 4096" using assms(4) by (intro unat_pgroundup) simp
  have "unat vstart \<le> unat ?p" "unat ?p \<le> unat vstart + 4095" unfolding p by linarith+
  then have "kend s \<le> ?p" "KERNBASE \<le> ?p" "unat ?p \<le> 0x8E000000"
    using assms(2-4) by (simp_all add: word_le_nat_alt)
  moreover have "page_aligned ?p" by (simp add: pgroundup_down)
  ultimately show ?thesis
    using freerange_loop_fills [of ?p s vend xs] assms unfolding freerange_def by blast
qed

theorem freerange_frees_every_page_witness:
  "\<exists>s' ys. freerange 0x80110001 0x80114000 (kmem_example 0) = Ok () s' \<and> kmem_inv ys s' \<and>
     set ys = pages_in 0x80111000 0x80114000"
proof -
  have up: "PGROUNDUP 0x80110001 = 0x80111000" by (simp add: PGROUNDUP_def)
  have "\<exists>s' ys. freerange 0x80110001 0x80114000 (kmem_example 0) = Ok () s' \<and> kmem_inv (ys @ []) s' \<and>
      set ys = pages_in (PGROUNDUP 0x80110001) 0x80114000"
    by (rule freerange_frees_every_page [OF kmem_example_inv(1)]) (simp_all add: kmem_example_def)
  then show ?thesis by (simp add: up)
qed

end
