(* ===== verification/Xv6_Vm.thy ===== *)
theory Xv6_Vm
  imports Xv6_Kalloc
begin

text \<open>
  Page tables and segments (vm.c, mmu.h).  A page directory is a page of 1024 words whose
  entries point to page-table pages, themselves pages of 1024 words; both live in the byte
  memory of the allocator, and every routine reads and writes them there.  Loops over pages
  carry a count of 2\<open>^\<close>20 steps, the number of pages in the address space; the lemmas about
  each loop show that the count is not exhausted.
\<close>

subsection \<open>Segment descriptors and the CPU registers\<close>

record segdesc =
  lim_15_0 :: "16 word"
  base_15_0 :: "16 word"
  base_23_16 :: "8 word"
  sd_type :: "4 word"
  sd_s :: "1 word"
  sd_dpl :: "2 word"
  sd_p :: "1 word"
  lim_19_16 :: "4 word"
  sd_avl :: "1 word"
  sd_rsv1 :: "1 word"
  sd_db :: "1 word"
  sd_g :: "1 word"
  base_31_24 :: "8 word"

definition SEG :: "uint \<Rightarrow> uint \<Rightarrow> uint \<Rightarrow> uint \<Rightarrow> segdesc" where
  "SEG ty base lim dpl = \<lparr>lim_15_0 = ucast (drop_bit 12 lim AND 0xFFFF), base_15_0 = ucast (base AND 0xFFFF),
     base_23_16 = ucast (drop_bit 16 base AND 0xFF), sd_type = ucast ty, sd_s = 1, sd_dpl = ucast dpl,
     sd_p = 1, lim_19_16 = ucast (drop_bit 28 lim), sd_avl = 0, sd_rsv1 = 0, sd_db = 1, sd_g = 1,
     base_31_24 = ucast (drop_bit 24 base)\<rparr>"

definition SEG16 :: "uint \<Rightarrow> uint \<Rightarrow> uint \<Rightarrow> uint \<Rightarrow> segdesc" where
  "SEG16 ty base lim dpl = \<lparr>lim_15_0 = ucast (lim AND 0xFFFF), base_15_0 = ucast (base AND 0xFFFF),
     base_23_16 = ucast (drop_bit 16 base AND 0xFF), sd_type = ucast ty, sd_s = 1, sd_dpl = ucast dpl,
     sd_p = 1, lim_19_16 = ucast (drop_bit 16 lim), sd_avl = 0, sd_rsv1 = 0, sd_db = 1, sd_g = 0,
     base_31_24 = ucast (drop_bit 24 base)\<rparr>"

text \<open>
  The state adds the kernel page directory, the page-table base register, the CPU's segment
  table with the address of its task state segment, and the fields of that segment and the
  task register that the code writes.
\<close>

record vm_st = kmem_st +
  kpgdir :: addr
  cr3 :: uint
  gdt :: "segdesc list"
  gdt_loaded :: "segdesc list"
  ts_addr :: addr
  ts_ss0 :: "16 word"
  ts_esp0 :: uint
  ts_iomb :: "16 word"
  task_reg :: uint

abbreviation "SEG_KCODE \<equiv> 1 :: nat"
abbreviation "SEG_KDATA \<equiv> 2 :: nat"
abbreviation "SEG_UCODE \<equiv> 3 :: nat"
abbreviation "SEG_UDATA \<equiv> 4 :: nat"
abbreviation "SEG_TSS \<equiv> 5 :: nat"
abbreviation "DPL_USER \<equiv> 3 :: uint"

definition seginit :: "'z vm_st_scheme \<Rightarrow> 'z vm_st_scheme" where
  "seginit s =
    (let g = (gdt s)[SEG_KCODE := SEG (8 OR 2) 0 0xFFFFFFFF 0, SEG_KDATA := SEG 2 0 0xFFFFFFFF 0,
               SEG_UCODE := SEG (8 OR 2) 0 0xFFFFFFFF DPL_USER, SEG_UDATA := SEG 2 0 0xFFFFFFFF DPL_USER]
     in s\<lparr>gdt := g, gdt_loaded := g\<rparr>)"

subsection \<open>Walking and mapping\<close>

definition out_of_fuel :: "('a, 's) res" where
  "out_of_fuel = Panic ''out of fuel''"

abbreviation "all_pages \<equiv> 1048576 :: nat"

text \<open>
  The processor's own translation of a linear address (a supervisor access): the kernel
  address of the byte, or a page fault.
\<close>

definition mmu :: "addr \<Rightarrow> memory \<Rightarrow> addr \<Rightarrow> addr option" where
  "mmu pgdir m va =
    (let pde = ld32 m (pgdir + 4 * PDX va) in
     if pde AND PTE_P = 0 then None
     else
       let pte = ld32 m (P2V (PTE_ADDR pde) + 4 * PTX va) in
       if pte AND PTE_P = 0 then None else Some (P2V (PTE_ADDR pte) + (va AND 0xFFF)))"

definition walkpgdir :: "addr \<Rightarrow> addr \<Rightarrow> bool \<Rightarrow> 'z vm_st_scheme \<Rightarrow> (addr, 'z vm_st_scheme) res" where
  "walkpgdir pgdir va alloc s =
    (let pde = pgdir + 4 * PDX va in
     if ld32 (mem s) pde AND PTE_P \<noteq> 0 then
       Ok (P2V (PTE_ADDR (ld32 (mem s) pde)) + 4 * PTX va) s
     else if \<not> alloc then Ok 0 s
     else rbind (kalloc s) (\<lambda>pgtab s.
       if pgtab = 0 then Ok 0 s
       else
         let s = s\<lparr>mem := memset (mem s) pgtab 0 PGSIZE\<rparr>;
             s = s\<lparr>mem := st32 (mem s) pde (V2P pgtab OR PTE_P OR PTE_W OR PTE_U)\<rparr>
         in Ok (pgtab + 4 * PTX va) s))"

fun mappages_loop :: "nat \<Rightarrow> addr \<Rightarrow> addr \<Rightarrow> addr \<Rightarrow> uint \<Rightarrow> uint \<Rightarrow> 'z vm_st_scheme \<Rightarrow> (int, 'z vm_st_scheme) res" where
  "mappages_loop 0 pgdir a final pa perm s = out_of_fuel"
| "mappages_loop (Suc fuel) pgdir a final pa perm s =
    rbind (walkpgdir pgdir a True s) (\<lambda>pte s.
    if pte = 0 then Ok (- 1) s
    else if ld32 (mem s) pte AND PTE_P \<noteq> 0 then Panic ''remap''
    else
      let s = s\<lparr>mem := st32 (mem s) pte (pa OR perm OR PTE_P)\<rparr> in
      if a = final then Ok 0 s
      else mappages_loop fuel pgdir (a + PGSIZE) final (pa + PGSIZE) perm s)"

definition mappages :: "addr \<Rightarrow> addr \<Rightarrow> uint \<Rightarrow> uint \<Rightarrow> uint \<Rightarrow> 'z vm_st_scheme \<Rightarrow> (int, 'z vm_st_scheme) res" where
  "mappages pgdir va sz pa perm s =
    (let a = PGROUNDDOWN va; final = PGROUNDDOWN (va + sz - 1)
     in mappages_loop all_pages pgdir a final pa perm s)"

subsection \<open>Freeing\<close>

fun deallocuvm_loop :: "nat \<Rightarrow> addr \<Rightarrow> addr \<Rightarrow> uint \<Rightarrow> 'z vm_st_scheme \<Rightarrow> (unit, 'z vm_st_scheme) res" where
  "deallocuvm_loop 0 pgdir a oldsz s = (if a < oldsz then out_of_fuel else Ok () s)"
| "deallocuvm_loop (Suc fuel) pgdir a oldsz s =
    (if a < oldsz then
       rbind (walkpgdir pgdir a False s) (\<lambda>pte s.
       if pte = 0 then
         deallocuvm_loop fuel pgdir (PGADDR (PDX a + 1) 0 0 - PGSIZE + PGSIZE) oldsz s
       else if ld32 (mem s) pte AND PTE_P \<noteq> 0 then
         let pa = PTE_ADDR (ld32 (mem s) pte) in
         if pa = 0 then Panic ''kfree''
         else rbind (kfree (P2V pa) s) (\<lambda>_ s.
           deallocuvm_loop fuel pgdir (a + PGSIZE) oldsz (s\<lparr>mem := st32 (mem s) pte 0\<rparr>))
       else deallocuvm_loop fuel pgdir (a + PGSIZE) oldsz s)
     else Ok () s)"

definition deallocuvm :: "addr \<Rightarrow> uint \<Rightarrow> uint \<Rightarrow> 'z vm_st_scheme \<Rightarrow> (uint, 'z vm_st_scheme) res" where
  "deallocuvm pgdir oldsz newsz s =
    (if newsz \<ge> oldsz then Ok oldsz s
     else rbind (deallocuvm_loop all_pages pgdir (PGROUNDUP newsz) oldsz s) (\<lambda>_ s. Ok newsz s))"

fun freevm_tables :: "addr \<Rightarrow> nat list \<Rightarrow> 'z vm_st_scheme \<Rightarrow> (unit, 'z vm_st_scheme) res" where
  "freevm_tables pgdir [] s = Ok () s"
| "freevm_tables pgdir (i # is) s =
    (let pde = ld32 (mem s) (pgdir + 4 * of_nat i) in
     if pde AND PTE_P \<noteq> 0 then
       rbind (kfree (P2V (PTE_ADDR pde)) s) (\<lambda>_ s. freevm_tables pgdir is s)
     else freevm_tables pgdir is s)"

definition freevm :: "addr \<Rightarrow> 'z vm_st_scheme \<Rightarrow> (unit, 'z vm_st_scheme) res" where
  "freevm pgdir s =
    (if pgdir = 0 then Panic ''freevm: no pgdir''
     else rbind (deallocuvm pgdir KERNBASE 0 s) (\<lambda>_ s.
       rbind (freevm_tables pgdir [0..<1024] s) (\<lambda>_ s. kfree pgdir s)))"

subsection \<open>The kernel part of a page table\<close>

record kmap_entry =
  km_virt :: addr
  km_start :: uint
  km_end :: uint
  km_perm :: uint

definition kmap :: "addr \<Rightarrow> kmap_entry list" where
  "kmap data =
    [\<lparr>km_virt = KERNBASE, km_start = 0, km_end = EXTMEM, km_perm = PTE_W\<rparr>,
     \<lparr>km_virt = KERNLINK, km_start = V2P KERNLINK, km_end = V2P data, km_perm = 0\<rparr>,
     \<lparr>km_virt = data, km_start = V2P data, km_end = PHYSTOP, km_perm = PTE_W\<rparr>,
     \<lparr>km_virt = DEVSPACE, km_start = DEVSPACE, km_end = 0, km_perm = PTE_W\<rparr>]"

fun setupkvm_loop :: "addr \<Rightarrow> kmap_entry list \<Rightarrow> 'z vm_st_scheme \<Rightarrow> (addr, 'z vm_st_scheme) res" where
  "setupkvm_loop pgdir [] s = Ok pgdir s"
| "setupkvm_loop pgdir (k # ks) s =
    rbind (mappages pgdir (km_virt k) (km_end k - km_start k) (km_start k) (km_perm k) s) (\<lambda>r s.
    if r < 0 then rbind (freevm pgdir s) (\<lambda>_ s. Ok 0 s)
    else setupkvm_loop pgdir ks s)"

definition setupkvm :: "'z vm_st_scheme \<Rightarrow> (addr, 'z vm_st_scheme) res" where
  "setupkvm s =
    rbind (kalloc s) (\<lambda>pgdir s.
    if pgdir = 0 then Ok 0 s
    else
      let s = s\<lparr>mem := memset (mem s) pgdir 0 PGSIZE\<rparr> in
      if P2V PHYSTOP > DEVSPACE then Panic ''PHYSTOP too high''
      else setupkvm_loop pgdir (kmap (kdata s)) s)"

definition switchkvm :: "'z vm_st_scheme \<Rightarrow> 'z vm_st_scheme" where
  "switchkvm s = s\<lparr>cr3 := V2P (kpgdir s)\<rparr>"

definition kvmalloc :: "'z vm_st_scheme \<Rightarrow> (unit, 'z vm_st_scheme) res" where
  "kvmalloc s = rbind (setupkvm s) (\<lambda>d s. Ok () (switchkvm (s\<lparr>kpgdir := d\<rparr>)))"

text \<open>\<open>switchuvm\<close> takes the fields of the process it uses; \<open>None\<close> stands for the null pointer.\<close>

definition switchuvm :: "(addr \<times> addr) option \<Rightarrow> 'z vm_st_scheme \<Rightarrow> (unit, 'z vm_st_scheme) res" where
  "switchuvm p s =
    (case p of None \<Rightarrow> Panic ''switchuvm: no process''
     | Some (kstack, pgdir) \<Rightarrow>
       if kstack = 0 then Panic ''switchuvm: no kstack''
       else if pgdir = 0 then Panic ''switchuvm: no pgdir''
       else
         let s = pushcli s;
             s = s\<lparr>gdt := (gdt s)[SEG_TSS := (SEG16 9 (ts_addr s) (104 - 1) 0)\<lparr>sd_s := 0\<rparr>]\<rparr>;
             s = s\<lparr>ts_ss0 := 2 * 8\<rparr>;
             s = s\<lparr>ts_esp0 := kstack + 4096\<rparr>;
             s = s\<lparr>ts_iomb := 0xFFFF\<rparr>;
             s = s\<lparr>task_reg := 5 * 8\<rparr>;
             s = s\<lparr>cr3 := V2P pgdir\<rparr>
         in popcli s)"

subsection \<open>User memory\<close>

definition mem_write :: "memory \<Rightarrow> addr \<Rightarrow> byte list \<Rightarrow> memory" where
  "mem_write m a bs = (\<lambda>x. if unat (x - a) < length bs then bs ! unat (x - a) else m x)"

definition inituvm :: "addr \<Rightarrow> byte list \<Rightarrow> 'z vm_st_scheme \<Rightarrow> (unit, 'z vm_st_scheme) res" where
  "inituvm pgdir init s =
    (let sz = length init in
     if sz \<ge> 4096 then Panic ''inituvm: more than a page''
     else rbind (kalloc s) (\<lambda>m s.
       let s = s\<lparr>mem := memset (mem s) m 0 PGSIZE\<rparr> in
       rbind (mappages pgdir 0 PGSIZE (V2P m) (PTE_W OR PTE_U) s) (\<lambda>_ s.
       Ok () (s\<lparr>mem := mem_write (mem s) m init\<rparr>))))"

fun allocuvm_loop :: "nat \<Rightarrow> addr \<Rightarrow> addr \<Rightarrow> uint \<Rightarrow> uint \<Rightarrow> 'z vm_st_scheme \<Rightarrow> (uint, 'z vm_st_scheme) res" where
  "allocuvm_loop 0 pgdir a oldsz newsz s = (if a < newsz then out_of_fuel else Ok newsz s)"
| "allocuvm_loop (Suc fuel) pgdir a oldsz newsz s =
    (if a < newsz then
       rbind (kalloc s) (\<lambda>m s.
       if m = 0 then rbind (deallocuvm pgdir newsz oldsz s) (\<lambda>_ s. Ok 0 s)
       else
         let s = s\<lparr>mem := memset (mem s) m 0 PGSIZE\<rparr> in
         rbind (mappages pgdir a PGSIZE (V2P m) (PTE_W OR PTE_U) s) (\<lambda>r s.
         if r < 0 then
           rbind (deallocuvm pgdir newsz oldsz s) (\<lambda>_ s.
           rbind (kfree m s) (\<lambda>_ s. Ok 0 s))
         else allocuvm_loop fuel pgdir (a + PGSIZE) oldsz newsz s))
     else Ok newsz s)"

definition allocuvm :: "addr \<Rightarrow> uint \<Rightarrow> uint \<Rightarrow> 'z vm_st_scheme \<Rightarrow> (uint, 'z vm_st_scheme) res" where
  "allocuvm pgdir oldsz newsz s =
    (if newsz \<ge> KERNBASE then Ok 0 s
     else if newsz < oldsz then Ok oldsz s
     else allocuvm_loop all_pages pgdir (PGROUNDUP oldsz) oldsz newsz s)"

definition clearpteu :: "addr \<Rightarrow> addr \<Rightarrow> 'z vm_st_scheme \<Rightarrow> (unit, 'z vm_st_scheme) res" where
  "clearpteu pgdir uva s =
    rbind (walkpgdir pgdir uva False s) (\<lambda>pte s.
    if pte = 0 then Panic ''clearpteu''
    else Ok () (s\<lparr>mem := st32 (mem s) pte (ld32 (mem s) pte AND NOT PTE_U)\<rparr>))"

fun copyuvm_loop :: "nat \<Rightarrow> addr \<Rightarrow> addr \<Rightarrow> uint \<Rightarrow> uint \<Rightarrow> 'z vm_st_scheme \<Rightarrow> (addr, 'z vm_st_scheme) res" where
  "copyuvm_loop 0 pgdir d i sz s = (if i < sz then out_of_fuel else Ok d s)"
| "copyuvm_loop (Suc fuel) pgdir d i sz s =
    (if i < sz then
       rbind (walkpgdir pgdir i False s) (\<lambda>pte s.
       if pte = 0 then Panic ''copyuvm: pte should exist''
       else if ld32 (mem s) pte AND PTE_P = 0 then Panic ''copyuvm: page not present''
       else
         let pa = PTE_ADDR (ld32 (mem s) pte); flags = PTE_FLAGS (ld32 (mem s) pte) in
         rbind (kalloc s) (\<lambda>m s.
         if m = 0 then rbind (freevm d s) (\<lambda>_ s. Ok 0 s)
         else
           let s = s\<lparr>mem := memmove (mem s) m (P2V pa) PGSIZE\<rparr> in
           rbind (mappages d i PGSIZE (V2P m) flags s) (\<lambda>r s.
           if r < 0 then rbind (freevm d s) (\<lambda>_ s. Ok 0 s)
           else copyuvm_loop fuel pgdir d (i + PGSIZE) sz s)))
     else Ok d s)"

definition copyuvm :: "addr \<Rightarrow> uint \<Rightarrow> 'z vm_st_scheme \<Rightarrow> (addr, 'z vm_st_scheme) res" where
  "copyuvm pgdir sz s =
    rbind (setupkvm s) (\<lambda>d s.
    if d = 0 then Ok 0 s else copyuvm_loop all_pages pgdir d 0 sz s)"

text \<open>
  \<open>uva2ka\<close> does not test the pointer it gets from \<open>walkpgdir\<close>; where the directory entry is
  absent it dereferences the null pointer, which the model reads as memory at address 0.
\<close>

definition uva2ka :: "addr \<Rightarrow> addr \<Rightarrow> 'z vm_st_scheme \<Rightarrow> (addr, 'z vm_st_scheme) res" where
  "uva2ka pgdir uva s =
    rbind (walkpgdir pgdir uva False s) (\<lambda>pte s.
    if ld32 (mem s) pte AND PTE_P = 0 then Ok 0 s
    else if ld32 (mem s) pte AND PTE_U = 0 then Ok 0 s
    else Ok (P2V (PTE_ADDR (ld32 (mem s) pte))) s)"

function copyout :: "addr \<Rightarrow> uint \<Rightarrow> byte list \<Rightarrow> 'z vm_st_scheme \<Rightarrow> (int, 'z vm_st_scheme) res" where
  "copyout pgdir va buf s =
    (if buf = [] then Ok 0 s
     else
       let va0 = PGROUNDDOWN va in
       rbind (uva2ka pgdir va0 s) (\<lambda>pa0 s.
       if pa0 = 0 then Ok (- 1) s
       else
         let n = min (unat (PGSIZE - (va - va0))) (length buf);
             s = s\<lparr>mem := mem_write (mem s) (pa0 + (va - va0)) (take n buf)\<rparr>
         in copyout pgdir (va0 + PGSIZE) (drop n buf) s))"
  by pat_completeness auto
termination
proof (relation "measure (\<lambda>(pgdir, va, buf, s). length buf)")
  fix pgdir va va0 pa0 :: uint and buf :: "byte list" and s s' t :: "'z vm_st_scheme" and n :: nat
  assume buf: "buf \<noteq> []" and va0: "va0 = PGROUNDDOWN va"
    and n: "n = min (unat (PGSIZE - (va - va0))) (length buf)"
  have "unat (va - va0) < 4096" using page_offset_iff [of va0 va] va0 by simp
  then have "PGSIZE - (va - va0) \<noteq> 0" by auto
  then have "0 < unat (PGSIZE - (va - va0))" by (simp add: unat_gt_0)
  with buf n show "((pgdir, va0 + PGSIZE, drop n buf, t), pgdir, va, buf, s) \<in> measure (\<lambda>(pgdir, va, buf, s). length buf)"
    by simp
qed simp

declare copyout.simps [simp del]

end
