(* ===== verification/Xv6_Paging.thy ===== *)
theory Xv6_Paging
  imports Xv6_Vm
begin

text \<open>
  Page tables as maps.  The two-level table that lives in memory is abstracted to the entry of each
  page (\<open>entry\<close>), of which the processor's translation is a function; \<open>walkpgdir\<close> and \<open>mappages\<close>
  are shown to implement updates of that map while the free pages and the other tables keep
  their contents.
\<close>

subsection \<open>Indices and words of a page\<close>

lemma unat_PDX: "unat (PDX va) = unat va div 4194304 mod 1024"
  unfolding PDX_def index_mask take_bit_eq_mask [symmetric]
  by (simp add: take_bit_eq_mod drop_bit_eq_div unat_div_distrib unat_mod_distrib)

lemma unat_PTX: "unat (PTX va) = unat va div 4096 mod 1024"
  unfolding PTX_def index_mask take_bit_eq_mask [symmetric]
  by (simp add: take_bit_eq_mod drop_bit_eq_div unat_div_distrib unat_mod_distrib)

lemma PDX_less [simp]: "unat (PDX va) < 1024"
  by (simp add: unat_PDX)

lemma PTX_less [simp]: "unat (PTX va) < 1024"
  by (simp add: unat_PTX)

lemma same_page: "PDX x = PDX y \<and> PTX x = PTX y \<longleftrightarrow> PGROUNDDOWN x = PGROUNDDOWN y"
proof -
  have split: "unat v div 4096 = unat (PDX v) * 1024 + unat (PTX v)" for v :: uint
  proof -
    have "unat v div 4194304 < 1024" using unat_less_2p32 [of v] by (intro less_mult_imp_div_less) simp
    then have "unat (PDX v) = unat v div 4096 div 1024" by (simp add: unat_PDX div_mult2_eq [symmetric])
    then show ?thesis by (simp add: unat_PTX)
  qed
  have down: "PGROUNDDOWN x = PGROUNDDOWN y \<longleftrightarrow> unat x div 4096 = unat y div 4096"
    by (simp add: word_unat_eq_iff unat_pgrounddown minus_mod_eq_mult_div)
  show ?thesis
  proof
    assume "PDX x = PDX y \<and> PTX x = PTX y"
    then show "PGROUNDDOWN x = PGROUNDDOWN y" unfolding down split by simp
  next
    assume "PGROUNDDOWN x = PGROUNDDOWN y"
    then have e: "unat (PDX x) * 1024 + unat (PTX x) = unat (PDX y) * 1024 + unat (PTX y)" unfolding down split .
    have "unat (PTX x) = unat (PTX y)" using arg_cong [OF e, of "\<lambda>n. n mod 1024"] by simp
    moreover have "unat (PDX x) = unat (PDX y)" using arg_cong [OF e, of "\<lambda>n. n div 1024"] by simp
    ultimately show "PDX x = PDX y \<and> PTX x = PTX y" by (simp add: word_unat_eq_iff)
  qed
qed

lemma slot_page:
  assumes "page_aligned p" "unat i < 1024" "k < 4"
  shows "PGROUNDDOWN (p + 4 * i + of_nat k) = p"
proof -
  have "p + 4 * i + of_nat k = p + of_nat (4 * unat i + k)" by simp
  then show ?thesis using pgrounddown_offset [OF assms(1), of "4 * unat i + k"] assms(2,3) by (simp add: add.assoc)
qed

lemma slot_bytes:
  assumes "page_aligned p" "unat i < 1024"
  shows "PGROUNDDOWN (p + 4 * i) = p" "PGROUNDDOWN (p + 4 * i + 1) = p"
    "PGROUNDDOWN (p + 4 * i + 2) = p" "PGROUNDDOWN (p + 4 * i + 3) = p"
  using slot_page [OF assms, of 0] slot_page [OF assms, of 1] slot_page [OF assms, of 2] slot_page [OF assms, of 3] by simp_all

lemma ld32_slot_frame:
  assumes "page_aligned p" "unat i < 1024" "\<And>y. PGROUNDDOWN y = p \<Longrightarrow> m' y = m y"
  shows "ld32 m' (p + 4 * i) = ld32 m (p + 4 * i)"
  by (rule ld32_cong) (use slot_bytes [OF assms(1,2)] in \<open>auto intro: assms(3)\<close>)

lemma st32_outside:
  assumes "page_aligned p" "unat i < 1024" "PGROUNDDOWN y \<noteq> p"
  shows "st32 m (p + 4 * i) w y = m y"
  using slot_bytes [OF assms(1,2)] assms(3) by (auto simp: st32_def)

lemma slot_distinct:
  assumes "unat i < 1024" "unat j < 1024" "i \<noteq> j" "a < 4" "c < 4"
  shows "(p :: uint) + 4 * i + of_nat a \<noteq> p + 4 * j + of_nat c"
proof
  assume "p + 4 * i + of_nat a = p + 4 * j + of_nat c"
  then have "(of_nat (4 * unat i + a) :: uint) = of_nat (4 * unat j + c)" by simp
  then have "unat (of_nat (4 * unat i + a) :: uint) = unat (of_nat (4 * unat j + c) :: uint)" by simp
  then have "4 * unat i + a = 4 * unat j + c" using assms by (simp del: of_nat_add of_nat_mult)
  then have "unat i = unat j" using assms(4,5) by linarith
  then show False using assms(3) by (simp add: word_unat_eq_iff)
qed

lemma ld32_st32_slot:
  assumes "unat i < 1024" "unat j < 1024" "i \<noteq> j"
  shows "ld32 (st32 m (p + 4 * i) w) (p + 4 * j) = ld32 m (p + 4 * j)"
proof -
  have d: "p + 4 * j + of_nat c \<noteq> p + 4 * i + of_nat a" if "a < 4" "c < 4" for a c
    using slot_distinct [OF assms(2,1) _ that(2,1)] assms(3) by blast
  have "st32 m (p + 4 * i) w (p + 4 * j + of_nat c) = m (p + 4 * j + of_nat c)" if "c < 4" for c
    using d [of 0 c] d [of 1 c] d [of 2 c] d [of 3 c] that by (simp add: st32_def)
  from this [of 0] this [of 1] this [of 2] this [of 3] show ?thesis by (intro ld32_cong) simp_all
qed

subsection \<open>The table as a map\<close>

definition tab :: "memory \<Rightarrow> addr \<Rightarrow> uint \<Rightarrow> addr option" where
  "tab m d i = (let pde = ld32 m (d + 4 * i) in if pde AND PTE_P = 0 then None else Some (P2V (PTE_ADDR pde)))"

definition entry :: "memory \<Rightarrow> addr \<Rightarrow> addr \<Rightarrow> uint" where
  "entry m d va = (case tab m d (PDX va) of None \<Rightarrow> 0 | Some t \<Rightarrow> ld32 m (t + 4 * PTX va))"

lemma mmu_entry:
  "mmu d m va = (let e = entry m d va in if e AND PTE_P = 0 then None else Some (P2V (PTE_ADDR e) + (va AND 0xFFF)))"
  by (simp add: mmu_def entry_def tab_def Let_def)

lemma entry_page: "PGROUNDDOWN v = PGROUNDDOWN w \<Longrightarrow> entry m d v = entry m d w"
  using same_page [of v w] by (auto simp: entry_def split: option.split)

lemma PTE_ADDR_down: "PTE_ADDR = PGROUNDDOWN"
  by (simp add: fun_eq_iff PTE_ADDR_def PGROUNDDOWN_def)

lemma PTE_ADDR_or: "page_aligned a \<Longrightarrow> f AND NOT 0xFFF = 0 \<Longrightarrow> PTE_ADDR (a OR f) = a"
proof -
  assume a: "page_aligned a" and f: "f AND NOT 0xFFF = 0"
  have "PTE_ADDR (a OR f) = PTE_ADDR a OR PTE_ADDR f" unfolding PTE_ADDR_def by (rule bit.conj_disj_distrib2)
  also have "PTE_ADDR a = a" using pgrounddown_same [OF a] by (simp add: PTE_ADDR_down)
  also have "PTE_ADDR f = 0" using f by (simp add: PTE_ADDR_def)
  finally show ?thesis by simp
qed

lemma kernel_offset_aligned: "page_aligned (P2V a) \<longleftrightarrow> page_aligned a" "page_aligned (V2P a) \<longleftrightarrow> page_aligned a"
proof -
  have m: "(unat x + 2147483648) mod 4294967296 mod 4096 = unat x mod 4096" for x :: uint
  proof -
    have "(unat x + 2147483648) mod 4294967296 mod 4096 = (unat x + 2147483648) mod 4096"
      by (rule mod_mod_cancel) simp
    also have "\<dots> = unat x mod 4096" using mod_mult_self2 [of "unat x" 4096 524288] by simp
    finally show ?thesis .
  qed
  have u: "unat (x + KERNBASE) mod 4096 = unat x mod 4096" for x :: uint by (simp add: unat_word_ariths m)
  show "page_aligned (P2V a) \<longleftrightarrow> page_aligned a" by (simp add: P2V_def page_aligned_def u)
  show "page_aligned (V2P a) \<longleftrightarrow> page_aligned a"
    using u [of "V2P a"] by (simp add: V2P_def page_aligned_def)
qed

lemma tab_aligned: "tab m d i = Some t \<Longrightarrow> page_aligned t"
  by (auto simp: tab_def Let_def kernel_offset_aligned PTE_ADDR_down split: if_splits)

text \<open>The pages of a table: the directory and the second-level pages, none of them free or shared.\<close>

definition dir_ok :: "addr \<Rightarrow> addr list \<Rightarrow> memory \<Rightarrow> bool" where
  "dir_ok d xs m \<longleftrightarrow> page_aligned d \<and> d \<notin> set xs \<and>
    (\<forall>i t. unat i < 1024 \<longrightarrow> tab m d i = Some t \<longrightarrow> t \<notin> set xs \<and> t \<noteq> d \<and> t \<noteq> 0) \<and>
    (\<forall>i j t. unat i < 1024 \<longrightarrow> unat j < 1024 \<longrightarrow> tab m d i = Some t \<longrightarrow> tab m d j = Some t \<longrightarrow> i = j)"

lemma dir_okD:
  assumes "dir_ok d xs m"
  shows "page_aligned d" "d \<notin> set xs"
    "unat i < 1024 \<Longrightarrow> tab m d i = Some t \<Longrightarrow> t \<notin> set xs \<and> t \<noteq> d \<and> t \<noteq> 0"
    "unat i < 1024 \<Longrightarrow> unat j < 1024 \<Longrightarrow> tab m d i = Some t \<Longrightarrow> tab m d j = Some t \<Longrightarrow> i = j"
  using assms unfolding dir_ok_def by blast+

lemma dir_ok_tab: "dir_ok d xs m \<Longrightarrow> (\<And>i. unat i < 1024 \<Longrightarrow> tab m' d i = tab m d i) \<Longrightarrow> set ys \<subseteq> set xs \<Longrightarrow> dir_ok d ys m'"
  unfolding dir_ok_def by (simp add: subset_iff) blast

lemma slot_nonzero:
  assumes "dir_ok d xs m" "tab m d (PDX va) = Some t"
  shows "t + 4 * PTX va \<noteq> 0"
proof
  assume z: "t + 4 * PTX va = 0"
  have "PGROUNDDOWN (t + 4 * PTX va) = t" by (rule slot_bytes(1) [OF tab_aligned [OF assms(2)] PTX_less])
  then show False using z dir_okD(3) [OF assms(1) PDX_less assms(2)] by (simp add: PGROUNDDOWN_def)
qed

definition tables :: "memory \<Rightarrow> addr \<Rightarrow> addr set" where
  "tables m d = insert d {t. \<exists>i. unat i < 1024 \<and> tab m d i = Some t}"

lemma tables_cong: "(\<And>i. unat i < 1024 \<Longrightarrow> tab m' d i = tab m d i) \<Longrightarrow> tables m' d = tables m d"
  by (auto simp: tables_def)

lemma tablesI: "tab m d (PDX va) = Some t \<Longrightarrow> t \<in> tables m d"
  using PDX_less by (auto simp: tables_def)

lemma dir_ok_free: "dir_ok d xs m \<Longrightarrow> set ys \<inter> tables m d = {} \<Longrightarrow> dir_ok d ys m"
  unfolding dir_ok_def tables_def by blast

lemma dir_ok_disjoint: "dir_ok d xs m \<Longrightarrow> set xs \<inter> tables m d = {}"
  unfolding dir_ok_def tables_def by blast

text \<open>Writing an entry.\<close>

lemma set_entry:
  assumes ok: "dir_ok d xs m" and t: "tab m d (PDX va) = Some t" and m': "m' = st32 m (t + 4 * PTX va) w"
  shows "dir_ok d xs m'" "entry m' d a = (if PGROUNDDOWN a = PGROUNDDOWN va then w else entry m d a)"
    "tables m' d = tables m d" "PGROUNDDOWN y \<notin> tables m d \<Longrightarrow> m' y = m y"
proof -
  note al = tab_aligned [OF t] and d = dir_okD [OF ok]
  have td: "t \<notin> set xs" "t \<noteq> d" using d(3) [OF PDX_less t] by auto
  have tabs: "tab m' d i = tab m d i" if "unat i < 1024" for i
    using ld32_slot_frame [OF d(1) that, of m' m] st32_outside [OF al PTX_less] td(2) m'
    by (simp add: tab_def)
  show "dir_ok d xs m'" by (rule dir_ok_tab [OF ok tabs]) auto
  show "tables m' d = tables m d" by (rule tables_cong [OF tabs])
  show "PGROUNDDOWN y \<notin> tables m d \<Longrightarrow> m' y = m y"
    unfolding m' using tablesI [OF t] by (intro st32_outside [OF al PTX_less]) auto
  show "entry m' d a = (if PGROUNDDOWN a = PGROUNDDOWN va then w else entry m d a)"
  proof (cases "tab m d (PDX a)")
    case None
    then show ?thesis using tabs [OF PDX_less, of a] t same_page [of a va] by (auto simp: entry_def)
  next
    case (Some u)
    show ?thesis
    proof (cases "PDX a = PDX va")
      case True
      then have u: "u = t" using Some t by simp
      show ?thesis
        using tabs [OF PDX_less, of a] Some u True same_page [of a va] ld32_st32_slot [OF PTX_less PTX_less, of va a m t w]
        by (cases "PTX a = PTX va") (auto simp: entry_def m')
    next
      case False
      then have "u \<noteq> t" using d(4) [OF PDX_less PDX_less Some] t by metis
      then have "ld32 m' (u + 4 * PTX a) = ld32 m (u + 4 * PTX a)"
        using ld32_slot_frame [OF tab_aligned [OF Some] PTX_less, of m' m] st32_outside [OF al PTX_less] m' by simp
      then show ?thesis using tabs [OF PDX_less, of a] Some False same_page [of a va] by (auto simp: entry_def)
    qed
  qed
qed

text \<open>Adding an empty second-level page.\<close>

lemma present_or [simp]: "(x OR PTE_P) AND PTE_P = PTE_P"
  by (rule bit_word_eqI) (auto simp: bit_simps)

lemma memset_page:
  assumes "page_aligned p"
  shows "memset m p 0 PGSIZE y = (if PGROUNDDOWN y = p then 0 else m y)"
  using page_offset_iff [OF assms, of y] by (simp add: memset_spec inside_def)

lemma ld32_zero:
  assumes "page_aligned p" "unat i < 1024" "\<And>y. PGROUNDDOWN y = p \<Longrightarrow> m y = 0"
  shows "ld32 m (p + 4 * i) = 0"
  using slot_bytes [OF assms(1,2)] assms(3) by (simp add: ld32_def get32_def)

lemma add_table:
  assumes ok: "dir_ok d (p # xs) m" and p: "page_aligned p" "p \<noteq> 0" "p \<notin> set xs"
    and i: "unat i < 1024" "tab m d i = None"
    and m': "m' = st32 (memset m p 0 PGSIZE) (d + 4 * i) (V2P p OR PTE_P OR PTE_W OR PTE_U)"
  shows "dir_ok d xs m'" "tab m' d i = Some p" "entry m' d a = entry m d a"
    "tables m' d = insert p (tables m d)" "PGROUNDDOWN y \<notin> insert p (tables m d) \<Longrightarrow> m' y = m y"
proof -
  note d = dir_okD [OF ok]
  have dp: "d \<noteq> p" "d \<notin> set xs" using d(2) by auto
  have out: "m' y = m y" if "PGROUNDDOWN y \<noteq> d" "PGROUNDDOWN y \<noteq> p" for y
    using that st32_outside [OF d(1) i(1), of y] memset_page [OF p(1), of m y] m' by simp
  have zero: "m' y = 0" if "PGROUNDDOWN y = p" for y
    using that st32_outside [OF d(1) i(1), of y] memset_page [OF p(1), of m y] m' dp(1) by simp
  have pr: "(V2P p OR 7) AND PTE_P = PTE_P" using present_or [of "V2P p OR 6"] by (simp add: or.assoc)
  have pa: "PTE_ADDR (V2P p OR PTE_P OR PTE_W OR PTE_U) = V2P p"
    using PTE_ADDR_or [of "V2P p" 7] p(1) by (simp add: kernel_offset_aligned or.assoc)
  show ti: "tab m' d i = Some p" using pa pr by (simp add: tab_def m')
  have tj: "tab m' d j = tab m d j" if "unat j < 1024" "j \<noteq> i" for j
  proof -
    have "ld32 m' (d + 4 * j) = ld32 (memset m p 0 PGSIZE) (d + 4 * j)"
      unfolding m' using that i(1) by (intro ld32_st32_slot) auto
    also have "\<dots> = ld32 m (d + 4 * j)"
      using memset_page [OF p(1)] dp by (intro ld32_slot_frame [OF d(1) that(1)]) auto
    finally show ?thesis by (simp add: tab_def)
  qed
  have old: "t \<notin> set xs \<and> t \<noteq> d \<and> t \<noteq> 0 \<and> t \<noteq> p" if "unat j < 1024" "tab m d j = Some t" for j t
    using d(3) [OF that] by auto
  show "dir_ok d xs m'"
    unfolding dir_ok_def
  proof (intro conjI allI impI)
    show "page_aligned d" "d \<notin> set xs" by (fact d(1), fact dp(2))
  next
    fix j t assume j: "unat j < 1024" "tab m' d j = Some t"
    show "t \<notin> set xs" "t \<noteq> d" "t \<noteq> 0" using ti tj [OF j(1)] old [OF j(1)] j(2) p dp by (cases "j = i"; auto)+
  next
    fix j k t assume j: "unat j < 1024" "unat k < 1024" "tab m' d j = Some t" "tab m' d k = Some t"
    have new: "n = i \<longleftrightarrow> t = p" if n: "unat n < 1024" "tab m' d n = Some t" for n
    proof (cases "n = i")
      case False
      then show ?thesis using tj [OF n(1)] n(2) old [OF n(1), of t] by simp
    qed (use n ti in simp)
    show "j = k"
    proof (cases "t = p")
      case True
      then show ?thesis using new [OF j(1,3)] new [OF j(2,4)] by simp
    next
      case False
      then have "j \<noteq> i" "k \<noteq> i" using new [OF j(1,3)] new [OF j(2,4)] by auto
      then have "tab m d j = Some t" "tab m d k = Some t" using tj j by metis+
      then show ?thesis by (rule d(4) [OF j(1,2)])
    qed
  qed
  show "entry m' d a = entry m d a"
  proof (cases "PDX a = i")
    case True
    then show ?thesis using ti i(2) ld32_zero [OF p(1) PTX_less zero] by (simp add: entry_def)
  next
    case False
    show ?thesis
    proof (cases "tab m d (PDX a)")
      case (Some t)
      have "ld32 m' (t + 4 * PTX a) = ld32 m (t + 4 * PTX a)"
        using old [OF PDX_less Some] by (intro ld32_slot_frame [OF tab_aligned [OF Some] PTX_less] out) auto
      then show ?thesis using Some tj [OF PDX_less False] by (simp add: entry_def)
    qed (use tj [OF PDX_less False] in \<open>simp add: entry_def\<close>)
  qed
  show "tables m' d = insert p (tables m d)"
  proof (rule set_eqI)
    fix t
    have "(\<exists>j. unat j < 1024 \<and> tab m' d j = Some t) \<longleftrightarrow> t = p \<or> (\<exists>j. unat j < 1024 \<and> tab m d j = Some t)"
      using ti tj i by (metis option.distinct(1) option.inject)
    then show "t \<in> tables m' d \<longleftrightarrow> t \<in> insert p (tables m d)" by (auto simp: tables_def)
  qed
  show "PGROUNDDOWN y \<notin> insert p (tables m d) \<Longrightarrow> m' y = m y" using out [of y] by (simp add: tables_def)
qed

subsection \<open>Walking and mapping\<close>

definition vm_inv :: "addr \<Rightarrow> addr list \<Rightarrow> 'z vm_st_scheme \<Rightarrow> bool" where
  "vm_inv d xs s \<longleftrightarrow> kmem_inv xs s \<and> dir_ok d xs (mem s)"

lemma kmem_inv_frame:
  assumes "kmem_inv xs s" "\<And>y. PGROUNDDOWN y \<in> set xs \<Longrightarrow> m' y = mem s y"
  shows "kmem_inv xs (s\<lparr>mem := m'\<rparr>)"
proof -
  have "free_list m' (freelist s) xs"
    by (rule free_list_frame [of "mem s"]) (use assms in \<open>auto simp: kmem_inv_def phys_page_def\<close>)
  then show ?thesis using assms(1) by (simp add: kmem_inv_def phys_page_def kmem_lock_ok_def cli_wf_def)
qed

text \<open>
  What an operation on the table leaves alone.  The pages it may touch are the free ones and those of
  the table; it moves pages from the one to the other and loses none.
\<close>

definition vm_step :: "addr \<Rightarrow> addr list \<Rightarrow> 'z vm_st_scheme \<Rightarrow> addr list \<Rightarrow> 'z vm_st_scheme \<Rightarrow> bool" where
  "vm_step d xs s ys s' \<longleftrightarrow> vm_inv d ys s' \<and> kmem_frame s s' \<and> set ys \<subseteq> set xs \<and>
    set ys \<union> tables (mem s') d = set xs \<union> tables (mem s) d \<and>
    (\<forall>y. PGROUNDDOWN y \<notin> set xs \<union> tables (mem s) d \<longrightarrow> mem s' y = mem s y)"

lemma vm_stepD:
  assumes "vm_step d xs s ys s'"
  shows "vm_inv d ys s'" "kmem_frame s s'" "set ys \<subseteq> set xs" "set ys \<union> tables (mem s') d = set xs \<union> tables (mem s) d"
    "PGROUNDDOWN y \<notin> set xs \<union> tables (mem s) d \<Longrightarrow> mem s' y = mem s y"
  using assms unfolding vm_step_def by blast+

lemma vm_step_trans: "vm_step d xs s ys t \<Longrightarrow> vm_step d ys t zs u \<Longrightarrow> vm_step d xs s zs u"
  unfolding vm_step_def using kmem_frame_trans by (auto 4 3)

lemma vm_step_refl: "vm_inv d xs s \<Longrightarrow> vm_step d xs s xs s"
  by (simp add: vm_step_def kmem_frame_def)

lemma kmem_frame_mem: "kmem_frame s t \<Longrightarrow> kmem_frame s (t\<lparr>mem := m\<rparr>)"
  by (simp add: kmem_frame_def)

text \<open>
  \<open>walkpgdir\<close> finds the slot of an address, adding a second-level page if it must; it fails only
  when no page is free.  Either way the mapping is as before.
\<close>

lemma walkpgdir_alloc:
  assumes inv: "vm_inv d xs s"
  shows "\<exists>pte s' ys. walkpgdir d va True s = Ok pte s' \<and> vm_step d xs s ys s' \<and> length xs \<le> Suc (length ys) \<and>
    entry (mem s') d = entry (mem s) d \<and>
    ((pte = 0 \<and> xs = []) \<or> (pte \<noteq> 0 \<and> (\<exists>t. tab (mem s') d (PDX va) = Some t \<and> pte = t + 4 * PTX va)))"
proof (cases "tab (mem s) d (PDX va)")
  case (Some t)
  have ok: "dir_ok d xs (mem s)" using inv by (simp add: vm_inv_def)
  from slot_nonzero [OF ok Some] show ?thesis using vm_step_refl [OF inv] Some by (auto simp: walkpgdir_def tab_def Let_def split: if_splits)
next
  case None
  then have np: "ld32 (mem s) (d + 4 * PDX va) AND PTE_P = 0" by (auto simp: tab_def Let_def split: if_splits)
  show ?thesis
  proof (cases xs)
    case Nil
    then obtain s' where "kalloc s = Ok 0 s'" "kmem_inv [] s'" "kmem_frame s s'" "mem s' = mem s"
      using kalloc_empty [of s] inv by (auto simp: vm_inv_def)
    then show ?thesis using np Nil inv by (auto simp: walkpgdir_def vm_inv_def vm_step_def)
  next
    case (Cons p ys)
    have k: "kmem_inv (p # ys) s" and ok: "dir_ok d (p # ys) (mem s)" using inv Cons by (auto simp: vm_inv_def)
    obtain s1 where s1: "kalloc s = Ok p s1" "kmem_inv ys s1" "kmem_frame s s1" "mem s1 = mem s"
      using kalloc_pops [OF k] by blast
    have p: "page_aligned p" "p \<noteq> 0" "p \<notin> set ys" using k phys_page_nonzero by (auto simp: kmem_inv_def phys_page_def)
    define m' where "m' = st32 (memset (mem s) p 0 PGSIZE) (d + 4 * PDX va) (V2P p OR PTE_P OR PTE_W OR PTE_U)"
    note t = add_table [OF ok p PDX_less None m'_def]
    have "p + 4 * PTX va \<noteq> 0"
      using slot_bytes(1) [OF p(1) PTX_less, of va] p(2) by (auto simp: PGROUNDDOWN_def)
    moreover have "kmem_inv ys (s1\<lparr>mem := m'\<rparr>)"
    proof (rule kmem_inv_frame [OF s1(2)])
      fix y assume "PGROUNDDOWN y \<in> set ys"
      then have "PGROUNDDOWN y \<notin> insert p (tables (mem s) d)" using dir_ok_disjoint [OF ok] p(3) by auto
      then show "m' y = mem s1 y" using t(5) s1(4) by simp
    qed
    then have "vm_step d xs s ys (s1\<lparr>mem := m'\<rparr>)"
      using t s1(3) Cons by (auto simp: vm_step_def vm_inv_def kmem_frame_mem)
    moreover have "walkpgdir d va True s = Ok (p + 4 * PTX va) (s1\<lparr>mem := m'\<rparr>)"
      using np s1 p(2) by (simp add: walkpgdir_def m'_def)
    ultimately show ?thesis using t Cons by (auto simp: fun_eq_iff)
  qed
qed

text \<open>
  Mapping a run of pages: with \<open>k\<close> more pages to go after the first, the loop ends within \<open>k + 1\<close>
  rounds.  It has then written the entries of the first \<open>n\<close> pages of the run and no others: all of
  them, or as many as memory sufficed for.
\<close>

definition run_of :: "addr \<Rightarrow> nat \<Rightarrow> addr \<Rightarrow> bool" where
  "run_of a n v \<longleftrightarrow> unat a \<le> unat v \<and> unat v < unat a + 4096 * n"

lemma run_of_0 [simp]: "\<not> run_of a 0 v"
  by (auto simp: run_of_def)

lemma run_of_first: "page_aligned a \<Longrightarrow> PGROUNDDOWN v = a \<longleftrightarrow> run_of a 1 v"
proof -
  assume a: "page_aligned a"
  have "unat v - unat v mod 4096 = unat a \<longleftrightarrow> unat a \<le> unat v \<and> unat v < unat a + 4096"
  proof
    assume "unat v - unat v mod 4096 = unat a"
    then show "unat a \<le> unat v \<and> unat v < unat a + 4096"
      using mod_less_divisor [of 4096 "unat v"] by linarith
  next
    assume r: "unat a \<le> unat v \<and> unat v < unat a + 4096"
    then obtain j where j: "unat v = unat a + j" "j < 4096" by (metis add_less_cancel_left le_iff_add)
    have "unat v mod 4096 = j" using a j by (simp add: page_aligned_def mod_add_left_eq [symmetric])
    then show "unat v - unat v mod 4096 = unat a" using j by simp
  qed
  then show ?thesis by (simp add: word_unat_eq_iff unat_pgrounddown run_of_def)
qed

lemma run_of_Suc:
  assumes "unat (a + PGSIZE) = unat a + 4096"
  shows "run_of a (Suc n) v \<longleftrightarrow> run_of a 1 v \<or> run_of (a + PGSIZE) n v" "\<not> (run_of a 1 v \<and> run_of (a + PGSIZE) n v)"
  unfolding run_of_def assms by auto

lemma map_one:
  assumes inv: "vm_inv d xs s" and free: "entry (mem s) d a AND PTE_P = 0"
  obtains s' where "walkpgdir d a True s = Ok 0 s'" "vm_step d xs s [] s'" "xs = []" "entry (mem s') d = entry (mem s) d"
  | pte s1 s' ys where "walkpgdir d a True s = Ok pte s1" "pte \<noteq> 0" "ld32 (mem s1) pte AND PTE_P = 0"
    "s' = s1\<lparr>mem := st32 (mem s1) pte w\<rparr>" "vm_step d xs s ys s'" "length xs \<le> Suc (length ys)"
    "\<And>v. entry (mem s') d v = (if PGROUNDDOWN v = PGROUNDDOWN a then w else entry (mem s) d v)"
proof -
  obtain pte s1 ys where 1: "walkpgdir d a True s = Ok pte s1" "vm_step d xs s ys s1" "length xs \<le> Suc (length ys)"
    "entry (mem s1) d = entry (mem s) d"
    and 2: "(pte = 0 \<and> xs = []) \<or> (pte \<noteq> 0 \<and> (\<exists>t. tab (mem s1) d (PDX a) = Some t \<and> pte = t + 4 * PTX a))"
    using walkpgdir_alloc [OF inv, of a] by blast
  from 2 show thesis
  proof (elim disjE conjE exE)
    assume "pte = 0" "xs = []"
    then show thesis using that(1) [of s1] 1 vm_stepD(3) [OF 1(2)] by simp
  next
    fix t assume t: "pte \<noteq> 0" "tab (mem s1) d (PDX a) = Some t" "pte = t + 4 * PTX a"
    define m' where "m' = st32 (mem s1) (t + 4 * PTX a) w"
    have ok: "dir_ok d ys (mem s1)" and k: "kmem_inv ys s1" using vm_stepD(1) [OF 1(2)] by (simp_all add: vm_inv_def)
    note e = set_entry [OF ok t(2) m'_def]
    have "kmem_inv ys (s1\<lparr>mem := m'\<rparr>)" using dir_ok_disjoint [OF ok] by (intro kmem_inv_frame [OF k] e(4)) auto
    then have "vm_step d ys s1 ys (s1\<lparr>mem := m'\<rparr>)" using e by (simp add: vm_step_def vm_inv_def kmem_frame_def)
    then have "vm_step d xs s ys (s1\<lparr>mem := m'\<rparr>)" by (rule vm_step_trans [OF 1(2)])
    moreover have "ld32 (mem s1) pte = entry (mem s) d a" using t by (simp add: entry_def flip: 1(4))
    ultimately show thesis
      using that(2) [of pte s1 "s1\<lparr>mem := m'\<rparr>" ys] 1 t free e(2) by (simp add: m'_def)
  qed
qed

lemma far_apart: "0 < k \<Longrightarrow> 4096 * k < 2 ^ 32 \<Longrightarrow> (a :: uint) \<noteq> a + of_nat (4096 * k)"
proof
  assume k: "0 < k" "4096 * k < 2 ^ 32" and "a = a + of_nat (4096 * k)"
  then have "unat (of_nat (4096 * k) :: uint) = 0" by (metis add_cancel_left_right unat_0)
  moreover have "unat (of_nat (4096 * k) :: uint) = 4096 * k" unfolding unat_of_nat using k by (intro mod_less) simp
  ultimately show False using k by simp
qed

lemma mappages_loop_runs:
  assumes "vm_inv d xs s" "page_aligned a" "unat a + 4096 * k < 2 ^ 32" "k < fuel" "final = a + of_nat (4096 * k)"
    "\<forall>v. run_of a (Suc k) v \<longrightarrow> entry (mem s) d v AND PTE_P = 0"
  shows "\<exists>r s' ys n. mappages_loop fuel d a final pa perm s = Ok r s' \<and> vm_step d xs s ys s' \<and>
    (\<forall>v. entry (mem s') d v = (if run_of a n v then (pa + (PGROUNDDOWN v - a)) OR perm OR PTE_P else entry (mem s) d v)) \<and>
    (r = 0 \<and> n = Suc k \<or> r = - 1 \<and> n \<le> k \<and> ys = [] \<and> length xs \<le> n)"
  using assms
proof (induction k arbitrary: a pa s xs fuel)
  case 0
  obtain f where f: "fuel = Suc f" using 0(4) by (cases fuel) auto
  note first = run_of_first [OF 0(2)]
  have "run_of a (Suc 0) a" by (simp add: run_of_def)
  then have e: "entry (mem s) d a AND PTE_P = 0" using 0(6) by blast
  show ?case
  proof (rule map_one [OF 0(1) e, where w = "pa OR perm OR PTE_P"], goal_cases)
    case (1 s')
    then show ?case using f by (intro exI [of _ "- 1"] exI [of _ s'] exI [of _ "[]"] exI [of _ 0]) simp
  next
    case (2 pte s1 s' ys)
    then have "mappages_loop fuel d a final pa perm s = Ok 0 s'" using f 0(5) by simp
    moreover have "entry (mem s') d v = (if run_of a 1 v then (pa + (PGROUNDDOWN v - a)) OR perm OR PTE_P else entry (mem s) d v)" for v
      using 2(7) [of v] first [of v] pgrounddown_same [OF 0(2)] by (cases "PGROUNDDOWN v = a") simp_all
    ultimately show ?case using 2(5) by (intro exI [of _ 0] exI [of _ s'] exI [of _ ys] exI [of _ 1]) simp
  qed
next
  case (Suc k)
  obtain f where f: "fuel = Suc f" using Suc(5) by (cases fuel) auto
  have next': "page_aligned (a + PGSIZE)" "unat (a + PGSIZE) = unat a + 4096"
    using page_aligned_next [OF Suc(3)] Suc(4) by auto
  note run = run_of_Suc [OF next'(2)] and first = run_of_first [OF Suc(3)]
  have "run_of a (Suc (Suc k)) a" by (simp add: run_of_def)
  then have e: "entry (mem s) d a AND PTE_P = 0" using Suc(7) by blast
  have nf: "a \<noteq> final" unfolding Suc(6) using far_apart [of "Suc k"] Suc(4) by simp
  show ?case
  proof (rule map_one [OF Suc(2) e, where w = "pa OR perm OR PTE_P"], goal_cases)
    case (1 s')
    then show ?case using f by (intro exI [of _ "- 1"] exI [of _ s'] exI [of _ "[]"] exI [of _ 0]) simp
  next
    case (2 pte s1 s1' ys)
    have e1: "entry (mem s1') d v = (if run_of a 1 v then pa OR perm OR PTE_P else entry (mem s) d v)" for v
      using 2(7) [of v] first [of v] pgrounddown_same [OF Suc(3)] by simp
    have "final = a + PGSIZE + of_nat (4096 * k)" using Suc(6) by (simp add: algebra_simps)
    moreover have "\<forall>v. run_of (a + PGSIZE) (Suc k) v \<longrightarrow> entry (mem s1') d v AND PTE_P = 0"
      using Suc(7) e1 run by metis
    ultimately obtain r s' zs n where
      l: "mappages_loop f d (a + PGSIZE) final (pa + PGSIZE) perm s1' = Ok r s'" "vm_step d ys s1' zs s'" and
      e2: "\<forall>v. entry (mem s') d v = (if run_of (a + PGSIZE) n v then
        (pa + PGSIZE + (PGROUNDDOWN v - (a + PGSIZE))) OR perm OR PTE_P else entry (mem s1') d v)" and
      r: "r = 0 \<and> n = Suc k \<or> r = - 1 \<and> n \<le> k \<and> zs = [] \<and> length ys \<le> n"
      using Suc.IH [OF vm_stepD(1) [OF 2(5)] next'(1), of f "pa + PGSIZE"] Suc(4,5) next'(2) f by auto
    have "entry (mem s') d v = (if run_of a (Suc n) v then (pa + (PGROUNDDOWN v - a)) OR perm OR PTE_P else entry (mem s) d v)" for v
      using e2 [rule_format, of v] e1 [of v] run [where n = n and v = v] first [of v] by (auto simp: algebra_simps)
    moreover have "mappages_loop fuel d a final pa perm s = Ok r s'" using 2 f nf l(1) by simp
    ultimately show ?case using vm_step_trans [OF 2(5) l(2)] r 2(6)
      by (intro exI [of _ r] exI [of _ s'] exI [of _ zs] exI [of _ "Suc n"]) auto
  qed
qed

text \<open>From entries to addresses.\<close>

lemma page_offset: "PGROUNDDOWN v + (v AND 0xFFF) = v"
proof -
  have split: "(v AND NOT k) + (v AND k) = v" for k :: uint
  proof -
    have "(v AND NOT k) + (v AND k) = (v AND NOT k) OR (v AND k)" by (rule disjunctive_add) (auto simp: bit_simps)
    also have "\<dots> = v" by (rule bit_word_eqI) (auto simp: bit_simps)
    finally show ?thesis .
  qed
  show ?thesis using split [of "0xFFF"] by (simp add: PGROUNDDOWN_def)
qed

lemma page_aligned_multiple: "page_aligned (4096 * z)"
proof -
  have "unat (4096 * z :: uint) mod 4096 = 4096 * unat z mod 4294967296 mod 4096" by (simp add: unat_word_ariths)
  also have "\<dots> = 4096 * unat z mod 4096" by (rule mod_mod_cancel) simp
  finally show ?thesis by (simp add: page_aligned_def)
qed

lemma page_aligned_shift:
  assumes "page_aligned x" "page_aligned y" "page_aligned z"
  shows "page_aligned (x + (y - z))"
proof -
  have "\<exists>q. w = 4096 * q" if "page_aligned w" for w
    using pgrounddown_same [OF that] unfolding pgrounddown_bits push_bit_eq_mult by (auto simp: mult.commute intro!: exI [of _ "drop_bit 12 w"])
  with assms obtain a b c where "x = 4096 * a" "y = 4096 * b" "z = 4096 * c" by metis
  then have "x + (y - z) = 4096 * (a + (b - c))" by (simp add: algebra_simps)
  then show ?thesis by (simp only: page_aligned_multiple)
qed

lemma mmu_of_entry:
  assumes "entry m d v = x OR perm OR PTE_P" "page_aligned x" "perm AND NOT 0xFFF = 0"
  shows "mmu d m v = Some (P2V x + (v AND 0xFFF))"
proof -
  have "(perm OR PTE_P) AND NOT 0xFFF = 0" using assms(3) by (simp add: bit.conj_disj_distrib2)
  then have "PTE_ADDR (x OR perm OR PTE_P) = x" using PTE_ADDR_or [OF assms(2)] by (simp add: or.assoc)
  then show ?thesis using assms(1) present_or [of "x OR perm"] by (simp add: mmu_entry or.assoc)
qed

lemma mmu_None_iff: "mmu d m v = None \<longleftrightarrow> entry m d v AND PTE_P = 0"
  by (simp add: mmu_entry Let_def)

text \<open>The number of pages that \<open>sz\<close> bytes at \<open>va\<close> lie on.\<close>

definition pages :: "addr \<Rightarrow> uint \<Rightarrow> nat" where
  "pages va sz = (unat va + unat sz - 1) div 4096 - unat va div 4096 + 1"

lemma last_page:
  assumes "0 < unat sz" "unat va + unat sz \<le> 2 ^ 32"
  obtains k where "pages va sz = Suc k" "PGROUNDDOWN (va + sz - 1) = PGROUNDDOWN va + of_nat (4096 * k)"
    "unat (PGROUNDDOWN va) + 4096 * k < 2 ^ 32" "k < all_pages"
proof -
  let ?a = "unat (PGROUNDDOWN va)" and ?f = "unat (PGROUNDDOWN (va + sz - 1))"
  have last: "unat (va + sz - 1) = unat va + unat sz - 1"
  proof -
    have "va + sz - 1 = of_nat (unat va + unat sz - 1)" using assms(1) by simp
    also have "unat \<dots> = unat va + unat sz - 1" unfolding unat_of_nat using assms by (intro mod_less) simp
    finally show ?thesis .
  qed
  have down: "unat (PGROUNDDOWN v) = 4096 * (unat v div 4096)" for v by (simp add: unat_pgrounddown minus_mod_eq_mult_div)
  define k where "k = (unat va + unat sz - 1) div 4096 - unat va div 4096"
  have le: "unat va div 4096 \<le> (unat va + unat sz - 1) div 4096" using assms(1) by (intro div_le_mono) simp
  then have f: "?f = ?a + 4096 * k" unfolding down last k_def by (simp add: algebra_simps)
  have lt: "?f < 2 ^ 32" by simp
  have "PGROUNDDOWN (va + sz - 1) = of_nat ?f" by simp
  also have "\<dots> = PGROUNDDOWN va + of_nat (4096 * k)" unfolding f by simp
  finally have e: "PGROUNDDOWN (va + sz - 1) = PGROUNDDOWN va + of_nat (4096 * k)" .
  have "pages va sz = Suc k" by (simp add: pages_def k_def)
  then show thesis by (rule that [OF _ e]) (use f lt in simp_all)
qed

lemma last_in_page: "page_aligned a \<Longrightarrow> PGROUNDDOWN (a + PGSIZE - 1) = a"
  using pgrounddown_offset [of a 4095] by (simp add: add.commute)

lemma pages_one: "page_aligned a \<Longrightarrow> pages a PGSIZE = 1"
  by (auto simp: pages_def page_aligned_def mod_eq_0_iff_dvd elim!: dvdE)

text \<open>An empty table: a directory page of zeroes.\<close>

lemma zero_dir:
  assumes "page_aligned d" "\<And>y. PGROUNDDOWN y = d \<Longrightarrow> m y = 0"
  shows "d \<notin> set xs \<Longrightarrow> dir_ok d xs m" "tables m d = {d}" "mmu d m v = None"
proof -
  have "tab m d i = None" if "unat i < 1024" for i using ld32_zero [OF assms(1) that assms(2)] by (simp add: tab_def)
  then show "d \<notin> set xs \<Longrightarrow> dir_ok d xs m" "tables m d = {d}" "mmu d m v = None"
    using assms(1) PDX_less by (auto simp: dir_ok_def tables_def mmu_entry entry_def)
qed

lemma mappages_entries:
  assumes "vm_inv d xs s" "0 < unat sz" "unat va + unat sz \<le> 2 ^ 32" and
    free: "\<forall>v. run_of (PGROUNDDOWN va) (pages va sz) v \<longrightarrow> mmu d (mem s) v = None"
  obtains r s' ys n where "mappages d va sz pa perm s = Ok r s'" "vm_step d xs s ys s'"
    "\<And>v. entry (mem s') d v =
      (if run_of (PGROUNDDOWN va) n v then (pa + (PGROUNDDOWN v - PGROUNDDOWN va)) OR perm OR PTE_P else entry (mem s) d v)"
    "r = 0 \<and> n = pages va sz \<or> r = - 1 \<and> n < pages va sz \<and> ys = [] \<and> length xs \<le> n"
proof -
  obtain k where k: "pages va sz = Suc k" "PGROUNDDOWN (va + sz - 1) = PGROUNDDOWN va + of_nat (4096 * k)"
    "unat (PGROUNDDOWN va) + 4096 * k < 2 ^ 32" "k < all_pages"
    using last_page [OF assms(2,3)] by blast
  have "\<forall>v. run_of (PGROUNDDOWN va) (Suc k) v \<longrightarrow> entry (mem s) d v AND PTE_P = 0" using free k(1) by (simp add: mmu_None_iff)
  from mappages_loop_runs [OF assms(1) page_aligned_pgrounddown k(3,4,2) this, of pa perm]
  show thesis using k(1) that unfolding mappages_def Let_def by (auto simp: less_Suc_eq_le)
qed

lemma mapped_address:
  assumes "entry m d v = (pa + (PGROUNDDOWN v - PGROUNDDOWN va)) OR perm OR PTE_P" "page_aligned pa" "perm AND NOT 0xFFF = 0"
  shows "mmu d m v = Some (P2V (pa + (v - PGROUNDDOWN va)))"
proof -
  have "mmu d m v = Some (P2V (pa + (PGROUNDDOWN v - PGROUNDDOWN va)) + (v AND 0xFFF))"
    by (rule mmu_of_entry [OF assms(1) page_aligned_shift assms(3)]) (simp_all add: assms(2))
  also have "P2V (pa + (PGROUNDDOWN v - PGROUNDDOWN va)) + (v AND 0xFFF) = P2V (pa + (PGROUNDDOWN v + (v AND 0xFFF) - PGROUNDDOWN va))"
    by (simp add: P2V_def algebra_simps)
  finally show ?thesis by (simp only: page_offset)
qed

text \<open>
  C18: \<open>mappages\<close> refines the abstract page map that the processor uses.  Asked to map a run of pages
  none of which is present, it maps the first \<open>n\<close> of them: every address on these translates to the
  physical address at the same distance from \<open>pa\<close>, and every other address translates as before.  It returns 0
  when that is the whole run, and -1 when memory ran out, with no page left on the free list and at least as many
  pages mapped as were free.  The pages of the table and the free list together are the same as before, and no
  byte outside them changed.
\<close>

theorem mappages_maps:
  assumes "vm_inv d xs s" "page_aligned pa" "perm AND NOT 0xFFF = 0" "0 < unat sz" "unat va + unat sz \<le> 2 ^ 32"
    "\<forall>v. run_of (PGROUNDDOWN va) (pages va sz) v \<longrightarrow> mmu d (mem s) v = None"
  shows "\<exists>r s' ys n. mappages d va sz pa perm s = Ok r s' \<and> vm_step d xs s ys s' \<and>
    (\<forall>v. mmu d (mem s') v = (if run_of (PGROUNDDOWN va) n v then Some (P2V (pa + (v - PGROUNDDOWN va))) else mmu d (mem s) v)) \<and>
    (r = 0 \<and> n = pages va sz \<or> r = - 1 \<and> n < pages va sz \<and> ys = [] \<and> length xs \<le> n)"
proof -
  obtain r s' ys n where m: "mappages d va sz pa perm s = Ok r s'" "vm_step d xs s ys s'" and
    e: "\<And>v. entry (mem s') d v =
      (if run_of (PGROUNDDOWN va) n v then (pa + (PGROUNDDOWN v - PGROUNDDOWN va)) OR perm OR PTE_P else entry (mem s) d v)" and
    r: "r = 0 \<and> n = pages va sz \<or> r = - 1 \<and> n < pages va sz \<and> ys = [] \<and> length xs \<le> n"
    using mappages_entries [OF assms(1,4,5,6), of pa perm] by blast
  have "mmu d (mem s') v = (if run_of (PGROUNDDOWN va) n v then Some (P2V (pa + (v - PGROUNDDOWN va))) else mmu d (mem s) v)" for v
    using mapped_address [OF _ assms(2,3), of "mem s'" d v va] e [of v] by (auto simp: mmu_entry)
  with m r show ?thesis by blast
qed

definition vm_example :: vm_st where
  "vm_example = kmem_st.extend (kmem_example 0x80200000) \<lparr>kpgdir = 0x80300000, cr3 = 0x300000, gdt = [], gdt_loaded = [],
     ts_addr = 0, ts_ss0 = 0, ts_esp0 = 0, ts_iomb = 0, task_reg = 0\<rparr>"

lemma vm_example_inv: "vm_inv 0x80300000 [0x80200000] vm_example" "mmu 0x80300000 (mem vm_example) v = None"
proof -
  have z: "mem vm_example = (\<lambda>_. 0)" by (simp add: vm_example_def kmem_example_def kmem_st.defs)
  have "kmem_inv [0x80200000] vm_example"
    by (simp add: vm_example_def kmem_example_def kmem_st.defs kmem_inv_def kmem_lock_ok_def cli_wf_def phys_page_def page_aligned_def
        V2P_def ld32_def get32_def)
  moreover have al: "page_aligned 0x80300000" by (simp add: page_aligned_def)
  ultimately show "vm_inv 0x80300000 [0x80200000] vm_example" using zero_dir(1) [OF al] z by (simp add: vm_inv_def)
  show "mmu 0x80300000 (mem vm_example) v = None" using zero_dir(3) [OF al] z by simp
qed

theorem mappages_maps_witness:
  "\<exists>s'. mappages 0x80300000 0x2000 0x1000 0x400000 PTE_W vm_example = Ok 0 s' \<and>
    mmu 0x80300000 (mem s') 0x2345 = Some 0x80400345"
proof -
  have c: "run_of 0x2000 1 0x2345" "PGROUNDDOWN 0x2000 = 0x2000" "pages 0x2000 PGSIZE = 1"
    by (simp_all add: run_of_def PGROUNDDOWN_def pages_def)
  have "P2V (0x400000 + (0x2345 - 0x2000)) = 0x80400345" by (simp add: P2V_def)
  with mappages_maps [OF vm_example_inv(1), of "0x400000" PTE_W "0x1000" "0x2000"] c show ?thesis
    using vm_example_inv(2) by (auto simp: page_aligned_def)
qed

end
