(* ===== verification/Xv6_Proc.thy ===== *)
theory Xv6_Proc
  imports Xv6_Vm
begin

text \<open>
  The process table (proc.c): allocation of slots, sleeping and waking, scheduling, killing
  and reaping.  A process pointer is an index into the table.  Routines that also need open
  files and inodes (\<open>fork\<close>, \<open>exit\<close>, \<open>userinit\<close>) are in the theory of the process life cycle.
  The interleaving of these operations on several CPUs is in the theory of the scheduler.
\<close>

subsection \<open>Data\<close>

datatype procstate = UNUSED | EMBRYO | SLEEPING | RUNNABLE | RUNNING | ZOMBIE

text \<open>
  \<open>tf\<close> and \<open>context\<close> point into the process's kernel stack page.  C \<open>int\<close> fields are 32-bit
  words read with \<open>sint\<close>.
\<close>

record proc =
  p_sz :: uint
  p_pgdir :: addr
  p_kstack :: addr
  p_state :: procstate
  p_pid :: uint
  p_parent :: "nat option"
  p_tf :: addr
  p_context :: addr
  p_chan :: "chan option"
  p_killed :: bool
  p_ofile :: "nat option list"
  p_cwd :: "nat option"
  p_name :: "byte list"
  p_alarmticks :: uint
  p_alarmhandler :: addr
  p_ticks :: uint

record proc_st = vm_st +
  procs :: "proc list"
  curp :: "nat option"
  nextpid :: uint
  initproc :: "nat option"
  ticks :: uint
  sym_trapret :: addr
  sym_forkret :: addr

abbreviation "NPROC \<equiv> 64 :: nat"
abbreviation "NOFILE \<equiv> 16 :: nat"

definition proc_zero :: proc where
  "proc_zero = \<lparr>p_sz = 0, p_pgdir = 0, p_kstack = 0, p_state = UNUSED, p_pid = 0, p_parent = None,
     p_tf = 0, p_context = 0, p_chan = None, p_killed = False, p_ofile = replicate NOFILE None,
     p_cwd = None, p_name = replicate 16 0, p_alarmticks = 0, p_alarmhandler = 0, p_ticks = 0\<rparr>"

definition upd_proc :: "nat \<Rightarrow> (proc \<Rightarrow> proc) \<Rightarrow> 'z proc_st_scheme \<Rightarrow> 'z proc_st_scheme" where
  "upd_proc i f s = s\<lparr>procs := (procs s)[i := f (procs s ! i)]\<rparr>"

definition set_state :: "procstate \<Rightarrow> proc \<Rightarrow> proc" where
  "set_state st p = p\<lparr>p_state := st\<rparr>"

subsection \<open>The running CPU and process\<close>

text \<open>
  \<open>mycpu\<close> finds the entry of the CPU table whose APIC identifier is the one read from the
  local APIC, and refuses to run with interrupts on.
\<close>

definition mycpu :: "byte list \<Rightarrow> byte \<Rightarrow> 'z kst_scheme \<Rightarrow> (nat, 'z kst_scheme) res" where
  "mycpu apicids lapicid s =
    (if iflag s then Panic ''mycpu called with interrupts enabled''
     else case scan (\<lambda>a. a = lapicid) apicids of
       Some i \<Rightarrow> Ok i s
     | None \<Rightarrow> Panic ''unknown apicid'')"

definition cpuid :: "byte list \<Rightarrow> byte \<Rightarrow> 'z kst_scheme \<Rightarrow> (nat, 'z kst_scheme) res" where
  "cpuid apicids lapicid s = mycpu apicids lapicid s"

text \<open>
  \<open>myproc\<close> reads the CPU's current process between \<open>pushcli\<close> and \<open>popcli\<close>; the pair restores
  the interrupt state, so users of the model read the field directly.
\<close>

definition myproc :: "'z proc_st_scheme \<Rightarrow> (nat option, 'z proc_st_scheme) res" where
  "myproc s =
    (let s = pushcli s; p = curp s in rbind (popcli s) (\<lambda>_ s. Ok p s))"

subsection \<open>Allocating a process\<close>

text \<open>The kernel stack of slot \<open>i\<close>, laid out so that the process starts in \<open>forkret\<close> and returns to \<open>trapret\<close>.\<close>

definition alloc_stack :: "nat \<Rightarrow> 'z proc_st_scheme \<Rightarrow> (nat option, 'z proc_st_scheme) res" where
  "alloc_stack i s =
    rbind (kalloc s) (\<lambda>k s.
    let s = upd_proc i (\<lambda>p. p\<lparr>p_kstack := k\<rparr>) s in
    if k = 0 then Ok None (upd_proc i (set_state UNUSED) s)
    else
      let sp = k + 4096;
          sp = sp - 76;
          s = upd_proc i (\<lambda>p. p\<lparr>p_tf := sp\<rparr>) s;
          sp = sp - 4;
          s = s\<lparr>mem := st32 (mem s) sp (sym_trapret s)\<rparr>;
          sp = sp - 20;
          s = upd_proc i (\<lambda>p. p\<lparr>p_context := sp\<rparr>) s;
          s = s\<lparr>mem := memset (mem s) sp 0 20\<rparr>;
          s = s\<lparr>mem := st32 (mem s) (sp + 16) (sym_forkret s)\<rparr>;
          s = upd_proc i (\<lambda>p. p\<lparr>p_alarmticks := 0, p_alarmhandler := 0, p_ticks := 0\<rparr>) s
      in Ok (Some i) s)"

definition allocproc :: "'z proc_st_scheme \<Rightarrow> (nat option, 'z proc_st_scheme) res" where
  "allocproc s =
    rbind (acquire L_ptable s) (\<lambda>_ s.
    case scan (\<lambda>p. p_state p = UNUSED) (procs s) of
      None \<Rightarrow> rbind (release L_ptable s) (\<lambda>_ s. Ok None s)
    | Some i \<Rightarrow>
        let s = upd_proc i (\<lambda>p. p\<lparr>p_state := EMBRYO, p_pid := nextpid s\<rparr>) s;
            s = s\<lparr>nextpid := nextpid s + 1\<rparr>
        in rbind (release L_ptable s) (\<lambda>_ s. alloc_stack i s))"

subsection \<open>Sleeping, waking, scheduling\<close>

text \<open>The checks \<open>sched\<close> makes before it switches away from process \<open>i\<close>.\<close>

definition sched :: "nat \<Rightarrow> 'z proc_st_scheme \<Rightarrow> (unit, 'z proc_st_scheme) res" where
  "sched i s =
    (if \<not> holding L_ptable s then Panic ''sched ptable.lock''
     else if ncli s \<noteq> 1 then Panic ''sched locks''
     else if p_state (procs s ! i) = RUNNING then Panic ''sched running''
     else if iflag s then Panic ''sched interruptible''
     else Ok () s)"

text \<open>
  \<open>sleep\<close> runs up to the context switch: the result is \<open>Sleep\<close> with the state the process
  sleeps in.  \<open>sleep_resume\<close> is what it does when it is scheduled again.
\<close>

definition sleep :: "chan \<Rightarrow> lock \<Rightarrow> 'z proc_st_scheme \<Rightarrow> ('a, 'z proc_st_scheme) res" where
  "sleep ch lk s =
    (case curp s of None \<Rightarrow> Panic ''sleep''
     | Some i \<Rightarrow>
       rbind (if lk \<noteq> L_ptable then rbind (acquire L_ptable s) (\<lambda>_ s. release lk s) else Ok () s) (\<lambda>_ s.
       let s = upd_proc i (\<lambda>p. p\<lparr>p_chan := Some ch\<rparr>) s;
           s = upd_proc i (set_state SLEEPING) s
       in rbind (sched i s) (\<lambda>_ s. Sleep ch s)))"

definition sleep_resume :: "nat \<Rightarrow> lock \<Rightarrow> 'z proc_st_scheme \<Rightarrow> (unit, 'z proc_st_scheme) res" where
  "sleep_resume i lk s =
    (let s = upd_proc i (\<lambda>p. p\<lparr>p_chan := None\<rparr>) s in
     if lk \<noteq> L_ptable then rbind (release L_ptable s) (\<lambda>_ s. acquire lk s) else Ok () s)"

definition wake :: "chan \<Rightarrow> proc \<Rightarrow> proc" where
  "wake ch p = (if p_state p = SLEEPING \<and> p_chan p = Some ch then set_state RUNNABLE p else p)"

definition wakeup1 :: "chan \<Rightarrow> 'z proc_st_scheme \<Rightarrow> 'z proc_st_scheme" where
  "wakeup1 ch s = s\<lparr>procs := map (wake ch) (procs s)\<rparr>"

definition wakeup :: "chan \<Rightarrow> 'z proc_st_scheme \<Rightarrow> (unit, 'z proc_st_scheme) res" where
  "wakeup ch s = rbind (acquire L_ptable s) (\<lambda>_ s. release L_ptable (wakeup1 ch s))"

text \<open>
  One choice of the scheduler loop: the first runnable process at or after position \<open>from\<close>
  becomes the CPU's current process; the scheduler keeps the table lock over the switch.
\<close>

definition scheduler_pick :: "nat \<Rightarrow> 'z proc_st_scheme \<Rightarrow> (nat option, 'z proc_st_scheme) res" where
  "scheduler_pick from s =
    (case scan (\<lambda>p. p_state p = RUNNABLE) (drop from (procs s)) of
       None \<Rightarrow> Ok None s
     | Some k \<Rightarrow>
       let i = from + k; p = procs s ! i; s = s\<lparr>curp := Some i\<rparr> in
       rbind (switchuvm (Some (p_kstack p, p_pgdir p)) s) (\<lambda>_ s.
       Ok (Some i) (upd_proc i (set_state RUNNING) s)))"

text \<open>After the process switches back: the kernel page table again, and no current process.\<close>

definition scheduler_return :: "'z proc_st_scheme \<Rightarrow> 'z proc_st_scheme" where
  "scheduler_return s = (switchkvm s)\<lparr>curp := None\<rparr>"

text \<open>
  \<open>yield\<close> up to the switch, and as a whole: when the scheduler picks the process again it is
  running and holds the table lock, which it then releases.
\<close>

definition yield_enter :: "'z proc_st_scheme \<Rightarrow> (nat, 'z proc_st_scheme) res" where
  "yield_enter s =
    rbind (acquire L_ptable s) (\<lambda>_ s.
    case curp s of None \<Rightarrow> Panic ''null dereference''
    | Some i \<Rightarrow> rbind (sched i (upd_proc i (set_state RUNNABLE) s)) (\<lambda>_ s. Ok i s))"

definition yield :: "'z proc_st_scheme \<Rightarrow> (unit, 'z proc_st_scheme) res" where
  "yield s = rbind (yield_enter s) (\<lambda>i s. release L_ptable (upd_proc i (set_state RUNNING) s))"

definition kill_proc :: "proc \<Rightarrow> proc" where
  "kill_proc p = (let p = p\<lparr>p_killed := True\<rparr> in if p_state p = SLEEPING then set_state RUNNABLE p else p)"

definition kill :: "uint \<Rightarrow> 'z proc_st_scheme \<Rightarrow> (int, 'z proc_st_scheme) res" where
  "kill pid s =
    rbind (acquire L_ptable s) (\<lambda>_ s.
    case scan (\<lambda>p. p_pid p = pid) (procs s) of
      Some i \<Rightarrow> rbind (release L_ptable (upd_proc i kill_proc s)) (\<lambda>_ s. Ok 0 s)
    | None \<Rightarrow> rbind (release L_ptable s) (\<lambda>_ s. Ok (- 1) s))"

definition wakeup_proc :: "nat option \<Rightarrow> 'z proc_st_scheme \<Rightarrow> 'z proc_st_scheme" where
  "wakeup_proc p s = (case p of None \<Rightarrow> s | Some j \<Rightarrow> wakeup1 (Ch_proc j) s)"

text \<open>Handing the children of \<open>c\<close> to init, waking it when one has already exited.\<close>

definition reparent_one :: "nat \<Rightarrow> nat \<Rightarrow> 'z proc_st_scheme \<Rightarrow> 'z proc_st_scheme" where
  "reparent_one c j s =
    (if p_parent (procs s ! j) = Some c then
       let s = upd_proc j (\<lambda>p. p\<lparr>p_parent := initproc s\<rparr>) s in
       if p_state (procs s ! j) = ZOMBIE then wakeup_proc (initproc s) s else s
     else s)"

definition reparent :: "nat \<Rightarrow> 'z proc_st_scheme \<Rightarrow> 'z proc_st_scheme" where
  "reparent c s = fold (reparent_one c) [0..<length (procs s)] s"

text \<open>The end of \<open>exit\<close>, under the table lock: process \<open>c\<close> leaves the CPU as a zombie.\<close>

definition exit_zombie :: "nat \<Rightarrow> 'z proc_st_scheme \<Rightarrow> ('a, 'z proc_st_scheme) res" where
  "exit_zombie c s =
    rbind (acquire L_ptable s) (\<lambda>_ s.
    let s = wakeup_proc (p_parent (procs s ! c)) s;
        s = reparent c s;
        s = upd_proc c (set_state ZOMBIE) s
    in rbind (sched c s) (\<lambda>_ s. Sleep Ch_exit s))"

subsection \<open>Waiting for children, growing\<close>

definition reap :: "proc \<Rightarrow> proc" where
  "reap p = p\<lparr>p_pid := 0, p_parent := None, p_name := (p_name p)[0 := 0], p_killed := False, p_state := UNUSED\<rparr>"

definition wait :: "'z proc_st_scheme \<Rightarrow> (uint, 'z proc_st_scheme) res" where
  "wait s =
    (case curp s of None \<Rightarrow> Panic ''null dereference''
     | Some cur \<Rightarrow>
       rbind (acquire L_ptable s) (\<lambda>_ s.
       case scan (\<lambda>p. p_parent p = Some cur \<and> p_state p = ZOMBIE) (procs s) of
         Some i \<Rightarrow>
           let pid = p_pid (procs s ! i) in
           rbind (kfree (p_kstack (procs s ! i)) s) (\<lambda>_ s.
           let s = upd_proc i (\<lambda>p. p\<lparr>p_kstack := 0\<rparr>) s in
           rbind (freevm (p_pgdir (procs s ! i)) s) (\<lambda>_ s.
           let s = upd_proc i reap s in
           rbind (release L_ptable s) (\<lambda>_ s. Ok pid s)))
       | None \<Rightarrow>
           if scan (\<lambda>p. p_parent p = Some cur) (procs s) = None \<or> p_killed (procs s ! cur)
           then rbind (release L_ptable s) (\<lambda>_ s. Ok (- 1) s)
           else sleep (Ch_proc cur) L_ptable s))"

definition growproc :: "uint \<Rightarrow> 'z proc_st_scheme \<Rightarrow> (int, 'z proc_st_scheme) res" where
  "growproc n s =
    (case curp s of None \<Rightarrow> Panic ''null dereference''
     | Some i \<Rightarrow>
       let sz = p_sz (procs s ! i); d = p_pgdir (procs s ! i) in
       rbind (if 0 < sint n then allocuvm d sz (sz + n) s
              else if sint n < 0 then deallocuvm d sz (sz + n) s
              else Ok sz s) (\<lambda>sz' s.
       if sint n \<noteq> 0 \<and> sz' = 0 then Ok (- 1) s
       else
         let s = upd_proc i (\<lambda>p. p\<lparr>p_sz := sz'\<rparr>) s in
         rbind (switchuvm (Some (p_kstack (procs s ! i), p_pgdir (procs s ! i))) s) (\<lambda>_ s. Ok 0 s)))"

definition pinit :: "'z proc_st_scheme \<Rightarrow> 'z proc_st_scheme" where
  "pinit s = initlock L_ptable s"

end
