(* ===== verification/Xv6_Bio.thy ===== *)
theory Xv6_Bio
  imports Xv6_Proc
begin

text \<open>
  Sleep locks (sleeplock.c), the disk driver (ide.c, and its in-memory variant memide.c) and
  the buffer cache (bio.c).  A buffer pointer is an index into \<open>bufs\<close>; index \<open>NBUF\<close> is the
  list head \<open>bcache.head\<close>.  The recency list is kept as in the code, through \<open>prev\<close> and \<open>next\<close>.
\<close>

subsection \<open>Sleep locks\<close>

record sleeplock =
  sl_locked :: bool
  sl_pid :: uint

text \<open>
  A sleep lock lives inside a buffer or an inode; the operations take its spin lock, its
  channel and how to read and write it.  A process that finds the lock taken sleeps.
\<close>

definition initsleeplock ::
  "lock \<Rightarrow> (sleeplock \<Rightarrow> 'z proc_st_scheme \<Rightarrow> 'z proc_st_scheme) \<Rightarrow> 'z proc_st_scheme \<Rightarrow> 'z proc_st_scheme" where
  "initsleeplock lk put s = put \<lparr>sl_locked = False, sl_pid = 0\<rparr> (initlock lk s)"

definition acquiresleep ::
  "lock \<Rightarrow> chan \<Rightarrow> ('z proc_st_scheme \<Rightarrow> sleeplock) \<Rightarrow>
   (sleeplock \<Rightarrow> 'z proc_st_scheme \<Rightarrow> 'z proc_st_scheme) \<Rightarrow>
   'z proc_st_scheme \<Rightarrow> (unit, 'z proc_st_scheme) res" where
  "acquiresleep lk ch get put s =
    rbind (acquire lk s) (\<lambda>_ s.
    if sl_locked (get s) then sleep ch lk s
    else case curp s of
      None \<Rightarrow> Panic ''null dereference''
    | Some i \<Rightarrow> release lk (put \<lparr>sl_locked = True, sl_pid = p_pid (procs s ! i)\<rparr> s))"

definition releasesleep ::
  "lock \<Rightarrow> chan \<Rightarrow> (sleeplock \<Rightarrow> 'z proc_st_scheme \<Rightarrow> 'z proc_st_scheme) \<Rightarrow>
   'z proc_st_scheme \<Rightarrow> (unit, 'z proc_st_scheme) res" where
  "releasesleep lk ch put s =
    rbind (acquire lk s) (\<lambda>_ s.
    let s = put \<lparr>sl_locked = False, sl_pid = 0\<rparr> s in
    rbind (wakeup ch s) (\<lambda>_ s. release lk s))"

definition holdingsleep ::
  "lock \<Rightarrow> ('z proc_st_scheme \<Rightarrow> sleeplock) \<Rightarrow> 'z proc_st_scheme \<Rightarrow> (bool, 'z proc_st_scheme) res" where
  "holdingsleep lk get s =
    rbind (acquire lk s) (\<lambda>_ s.
    let r = sl_locked (get s) in rbind (release lk s) (\<lambda>_ s. Ok r s))"

subsection \<open>Buffers\<close>

abbreviation "BSIZE \<equiv> 512 :: nat"
abbreviation "NBUF \<equiv> 30 :: nat"
abbreviation "FSSIZE \<equiv> 1000 :: uint"
abbreviation "B_VALID \<equiv> 2 :: uint"
abbreviation "B_DIRTY \<equiv> 4 :: uint"

record buf =
  b_flags :: uint
  b_dev :: uint
  b_blockno :: uint
  b_lock :: sleeplock
  b_refcnt :: uint
  b_prev :: nat
  b_next :: nat
  b_qnext :: "nat option"
  b_data :: "byte list"

text \<open>
  The device: the contents of both drives, the sectors that report an error on reading, the
  drive and sector selected by the last command, and the sequence of completed sector writes
  (newest first), which the crash analysis of the log uses.
\<close>

record bio_st = proc_st +
  bufs :: "buf list"
  idequeue :: "nat option"
  havedisk1 :: bool
  disk :: "uint \<Rightarrow> uint \<Rightarrow> byte list"
  bad_sector :: "uint \<Rightarrow> uint \<Rightarrow> bool"
  ide_sel :: "uint \<times> uint"
  disk_writes :: "(uint \<times> uint \<times> byte list) list"

definition upd_buf :: "nat \<Rightarrow> (buf \<Rightarrow> buf) \<Rightarrow> 'z bio_st_scheme \<Rightarrow> 'z bio_st_scheme" where
  "upd_buf b f s = s\<lparr>bufs := (bufs s)[b := f (bufs s ! b)]\<rparr>"

definition buf_zero :: buf where
  "buf_zero = \<lparr>b_flags = 0, b_dev = 0, b_blockno = 0, b_lock = \<lparr>sl_locked = False, sl_pid = 0\<rparr>,
     b_refcnt = 0, b_prev = 0, b_next = 0, b_qnext = None, b_data = replicate BSIZE 0\<rparr>"

definition put_buflock :: "nat \<Rightarrow> sleeplock \<Rightarrow> 'z bio_st_scheme \<Rightarrow> 'z bio_st_scheme" where
  "put_buflock b l s = upd_buf b (\<lambda>x. x\<lparr>b_lock := l\<rparr>) s"

definition buf_acquire :: "nat \<Rightarrow> 'z bio_st_scheme \<Rightarrow> (unit, 'z bio_st_scheme) res" where
  "buf_acquire b s = acquiresleep (L_buf b) (Ch_buflock b) (\<lambda>s. b_lock (bufs s ! b)) (put_buflock b) s"

definition buf_release :: "nat \<Rightarrow> 'z bio_st_scheme \<Rightarrow> (unit, 'z bio_st_scheme) res" where
  "buf_release b s = releasesleep (L_buf b) (Ch_buflock b) (put_buflock b) s"

definition buf_holding :: "nat \<Rightarrow> 'z bio_st_scheme \<Rightarrow> (bool, 'z bio_st_scheme) res" where
  "buf_holding b s = holdingsleep (L_buf b) (\<lambda>s. b_lock (bufs s ! b)) s"

subsection \<open>The IDE driver\<close>

text \<open>The port writes that select a sector, and how the drive reads them.\<close>

definition ide_regs :: "uint \<Rightarrow> uint \<Rightarrow> (uint \<times> byte) list" where
  "ide_regs dev blockno =
    (let sector = blockno * 1 in
     [(0x3f6, 0), (0x1f2, 1),
      (0x1f3, ucast (sector AND 0xff)),
      (0x1f4, ucast (drop_bit 8 sector AND 0xff)),
      (0x1f5, ucast (drop_bit 16 sector AND 0xff)),
      (0x1f6, ucast (0xe0 OR push_bit 4 (dev AND 1) OR (drop_bit 24 sector AND 0x0f)))])"

definition ide_port :: "(uint \<times> byte) list \<Rightarrow> uint \<Rightarrow> uint" where
  "ide_port regs p = (case map_of regs p of Some b \<Rightarrow> ucast b | None \<Rightarrow> 0)"

definition ide_decode :: "(uint \<times> byte) list \<Rightarrow> uint \<times> uint" where
  "ide_decode regs =
    (drop_bit 4 (ide_port regs 0x1f6) AND 1,
     ide_port regs 0x1f3 OR push_bit 8 (ide_port regs 0x1f4) OR push_bit 16 (ide_port regs 0x1f5)
       OR push_bit 24 (ide_port regs 0x1f6 AND 0x0f))"

definition disk_write :: "uint \<times> uint \<Rightarrow> byte list \<Rightarrow> 'z bio_st_scheme \<Rightarrow> 'z bio_st_scheme" where
  "disk_write sel data s =
    s\<lparr>disk := (disk s)(fst sel := (disk s (fst sel))(snd sel := data)),
      disk_writes := (fst sel, snd sel, data) # disk_writes s\<rparr>"

text \<open>
  \<open>idewait\<close> polls until the drive is ready; it then reports the error bits if asked to.  A
  drive that never becomes ready is outside the model.
\<close>

definition idewait :: "bool \<Rightarrow> 'z bio_st_scheme \<Rightarrow> int" where
  "idewait checkerr s = (if checkerr \<and> bad_sector s (fst (ide_sel s)) (snd (ide_sel s)) then - 1 else 0)"

definition ideinit :: "bool \<Rightarrow> 'z bio_st_scheme \<Rightarrow> 'z bio_st_scheme" where
  "ideinit disk1_answers s = (initlock L_ide s)\<lparr>havedisk1 := disk1_answers\<rparr>"

definition idestart :: "nat option \<Rightarrow> 'z bio_st_scheme \<Rightarrow> (unit, 'z bio_st_scheme) res" where
  "idestart ob s =
    (case ob of None \<Rightarrow> Panic ''idestart''
     | Some b \<Rightarrow>
       let x = bufs s ! b in
       if b_blockno x \<ge> FSSIZE then Panic ''incorrect blockno''
       else
         let s = s\<lparr>ide_sel := ide_decode (ide_regs (b_dev x) (b_blockno x))\<rparr> in
         if b_flags x AND B_DIRTY \<noteq> 0 then Ok () (disk_write (ide_sel s) (b_data x) s)
         else Ok () s)"

definition ideintr :: "'z bio_st_scheme \<Rightarrow> (unit, 'z bio_st_scheme) res" where
  "ideintr s =
    rbind (acquire L_ide s) (\<lambda>_ s.
    case idequeue s of
      None \<Rightarrow> release L_ide s
    | Some b \<Rightarrow>
        let s = s\<lparr>idequeue := b_qnext (bufs s ! b)\<rparr>;
            s = (if b_flags (bufs s ! b) AND B_DIRTY = 0 \<and> idewait True s \<ge> 0
                 then upd_buf b (\<lambda>x. x\<lparr>b_data := disk s (fst (ide_sel s)) (snd (ide_sel s))\<rparr>) s
                 else s);
            s = upd_buf b (\<lambda>x. x\<lparr>b_flags := b_flags x OR B_VALID\<rparr>) s;
            s = upd_buf b (\<lambda>x. x\<lparr>b_flags := b_flags x AND NOT B_DIRTY\<rparr>) s
        in rbind (wakeup (Ch_buf b) s) (\<lambda>_ s.
           rbind (if idequeue s \<noteq> None then idestart (idequeue s) s else Ok () s) (\<lambda>_ s.
           release L_ide s)))"

text \<open>Walking the request queue to its end and linking a buffer there.\<close>

fun queue_last :: "nat \<Rightarrow> buf list \<Rightarrow> nat \<Rightarrow> nat option" where
  "queue_last 0 bs b = None"
| "queue_last (Suc k) bs b = (case b_qnext (bs ! b) of None \<Rightarrow> Some b | Some n \<Rightarrow> queue_last k bs n)"

definition queue_append :: "nat \<Rightarrow> 'z bio_st_scheme \<Rightarrow> (unit, 'z bio_st_scheme) res" where
  "queue_append b s =
    (let s = upd_buf b (\<lambda>x. x\<lparr>b_qnext := None\<rparr>) s in
     case idequeue s of
       None \<Rightarrow> Ok () (s\<lparr>idequeue := Some b\<rparr>)
     | Some q \<Rightarrow>
       (case queue_last (length (bufs s)) (bufs s) q of
          None \<Rightarrow> out_of_fuel
        | Some l \<Rightarrow> Ok () (upd_buf l (\<lambda>x. x\<lparr>b_qnext := Some b\<rparr>) s)))"

text \<open>
  A process that sleeps until an interrupt handler \<open>ev\<close> has run: \<open>sleep\<close> puts it to sleep, the
  scheduler drops the table lock, the handler runs, and if it made the process runnable the
  scheduler runs the process again and \<open>sleep\<close> returns.  (The scheduler also loads the kernel's
  page table and then the process's own again.)
\<close>

definition sleep_for ::
  "('z proc_st_scheme \<Rightarrow> (unit, 'z proc_st_scheme) res) \<Rightarrow> chan \<Rightarrow> lock \<Rightarrow>
   'z proc_st_scheme \<Rightarrow> (unit, 'z proc_st_scheme) res" where
  "sleep_for ev ch lk s =
    (case sleep ch lk s :: (unit, 'z proc_st_scheme) res of
       Ok x s \<Rightarrow> Ok x s
     | Panic m \<Rightarrow> Panic m
     | Sleep _ s \<Rightarrow>
       (case curp s of None \<Rightarrow> Panic ''sleep''
        | Some i \<Rightarrow>
          rbind (release L_ptable s) (\<lambda>_ s.
          rbind (ev s) (\<lambda>_ s.
          rbind (acquire L_ptable s) (\<lambda>_ s.
          if p_state (procs s ! i) = RUNNABLE
          then sleep_resume i lk (upd_proc i (set_state RUNNING) s)
          else Sleep ch s)))))"

fun iderw_wait :: "nat \<Rightarrow> nat \<Rightarrow> 'z bio_st_scheme \<Rightarrow> (unit, 'z bio_st_scheme) res" where
  "iderw_wait 0 b s = out_of_fuel"
| "iderw_wait (Suc k) b s =
    (if b_flags (bufs s ! b) AND (B_VALID OR B_DIRTY) \<noteq> B_VALID
     then rbind (sleep_for ideintr (Ch_buf b) L_ide s) (\<lambda>_ s. iderw_wait k b s)
     else Ok () s)"

definition iderw :: "nat \<Rightarrow> 'z bio_st_scheme \<Rightarrow> (unit, 'z bio_st_scheme) res" where
  "iderw b s =
    rbind (buf_holding b s) (\<lambda>h s.
    if \<not> h then Panic ''iderw: buf not locked''
    else if b_flags (bufs s ! b) AND (B_VALID OR B_DIRTY) = B_VALID then Panic ''iderw: nothing to do''
    else if b_dev (bufs s ! b) \<noteq> 0 \<and> \<not> havedisk1 s then Panic ''iderw: ide disk 1 not present''
    else
      rbind (acquire L_ide s) (\<lambda>_ s.
      rbind (queue_append b s) (\<lambda>_ s.
      rbind (if idequeue s = Some b then idestart (Some b) s else Ok () s) (\<lambda>_ s.
      rbind (iderw_wait (length (bufs s) + 1) b s) (\<lambda>_ s.
      release L_ide s)))))"

text \<open>The in-memory disk of memide.c: drive 1 only, no queue and no interrupt.\<close>

definition mem_iderw :: "uint \<Rightarrow> nat \<Rightarrow> 'z bio_st_scheme \<Rightarrow> (unit, 'z bio_st_scheme) res" where
  "mem_iderw disksize b s =
    rbind (buf_holding b s) (\<lambda>h s.
    let x = bufs s ! b in
    if \<not> h then Panic ''iderw: buf not locked''
    else if b_flags x AND (B_VALID OR B_DIRTY) = B_VALID then Panic ''iderw: nothing to do''
    else if b_dev x \<noteq> 1 then Panic ''iderw: request not for disk 1''
    else if b_blockno x \<ge> disksize then Panic ''iderw: block out of range''
    else
      let s = (if b_flags x AND B_DIRTY \<noteq> 0
               then disk_write (1, b_blockno x) (b_data x) (upd_buf b (\<lambda>x. x\<lparr>b_flags := b_flags x AND NOT B_DIRTY\<rparr>) s)
               else upd_buf b (\<lambda>x. x\<lparr>b_data := disk s 1 (b_blockno x)\<rparr>) s)
      in Ok () (upd_buf b (\<lambda>x. x\<lparr>b_flags := b_flags x OR B_VALID\<rparr>) s))"

subsection \<open>The buffer cache\<close>

definition link_front :: "nat \<Rightarrow> buf list \<Rightarrow> buf list" where
  "link_front b bs =
    (let bs = bs[b := (bs ! b)\<lparr>b_next := b_next (bs ! NBUF)\<rparr>];
         bs = bs[b := (bs ! b)\<lparr>b_prev := NBUF\<rparr>];
         n = b_next (bs ! NBUF);
         bs = bs[n := (bs ! n)\<lparr>b_prev := b\<rparr>]
     in bs[NBUF := (bs ! NBUF)\<lparr>b_next := b\<rparr>])"

definition unlink_buf :: "nat \<Rightarrow> buf list \<Rightarrow> buf list" where
  "unlink_buf b bs =
    (let n = b_next (bs ! b); bs = bs[n := (bs ! n)\<lparr>b_prev := b_prev (bs ! b)\<rparr>];
         p = b_prev (bs ! b)
     in bs[p := (bs ! p)\<lparr>b_next := b_next (bs ! b)\<rparr>])"

definition binit :: "'z bio_st_scheme \<Rightarrow> 'z bio_st_scheme" where
  "binit s =
    (let s = initlock L_bcache s;
         s = upd_buf NBUF (\<lambda>h. h\<lparr>b_prev := NBUF, b_next := NBUF\<rparr>) s
     in fold (\<lambda>b s. let s = initsleeplock (L_buf b) (put_buflock b) s in s\<lparr>bufs := link_front b (bufs s)\<rparr>) [0..<NBUF] s)"

text \<open>
  Following the list in one direction from \<open>b\<close> until the head, for the first buffer with \<open>P\<close>:
  \<open>None\<close> when the steps run out.
\<close>

fun walk :: "nat \<Rightarrow> (buf \<Rightarrow> nat) \<Rightarrow> (buf \<Rightarrow> bool) \<Rightarrow> buf list \<Rightarrow> nat \<Rightarrow> nat option option" where
  "walk 0 nxt P bs b = None"
| "walk (Suc k) nxt P bs b =
    (if b = NBUF then Some None
     else if P (bs ! b) then Some (Some b)
     else walk k nxt P bs (nxt (bs ! b)))"

definition bget :: "uint \<Rightarrow> uint \<Rightarrow> 'z bio_st_scheme \<Rightarrow> (nat, 'z bio_st_scheme) res" where
  "bget dev blockno s =
    rbind (acquire L_bcache s) (\<lambda>_ s.
    case walk (Suc NBUF) b_next (\<lambda>x. b_dev x = dev \<and> b_blockno x = blockno) (bufs s) (b_next (bufs s ! NBUF)) of
      None \<Rightarrow> out_of_fuel
    | Some (Some b) \<Rightarrow>
        let s = upd_buf b (\<lambda>x. x\<lparr>b_refcnt := b_refcnt x + 1\<rparr>) s in
        rbind (release L_bcache s) (\<lambda>_ s.
        rbind (buf_acquire b s) (\<lambda>_ s. Ok b s))
    | Some None \<Rightarrow>
       (case walk (Suc NBUF) b_prev (\<lambda>x. b_refcnt x = 0 \<and> b_flags x AND B_DIRTY = 0) (bufs s) (b_prev (bufs s ! NBUF)) of
          None \<Rightarrow> out_of_fuel
        | Some (Some b) \<Rightarrow>
            let s = upd_buf b (\<lambda>x. x\<lparr>b_dev := dev, b_blockno := blockno, b_flags := 0, b_refcnt := 1\<rparr>) s in
            rbind (release L_bcache s) (\<lambda>_ s.
            rbind (buf_acquire b s) (\<lambda>_ s. Ok b s))
        | Some None \<Rightarrow> Panic ''bget: no buffers''))"

definition bread :: "uint \<Rightarrow> uint \<Rightarrow> 'z bio_st_scheme \<Rightarrow> (nat, 'z bio_st_scheme) res" where
  "bread dev blockno s =
    rbind (bget dev blockno s) (\<lambda>b s.
    rbind (if b_flags (bufs s ! b) AND B_VALID = 0 then iderw b s else Ok () s) (\<lambda>_ s. Ok b s))"

definition bwrite :: "nat \<Rightarrow> 'z bio_st_scheme \<Rightarrow> (unit, 'z bio_st_scheme) res" where
  "bwrite b s =
    rbind (buf_holding b s) (\<lambda>h s.
    if \<not> h then Panic ''bwrite''
    else iderw b (upd_buf b (\<lambda>x. x\<lparr>b_flags := b_flags x OR B_DIRTY\<rparr>) s))"

definition brelse :: "nat \<Rightarrow> 'z bio_st_scheme \<Rightarrow> (unit, 'z bio_st_scheme) res" where
  "brelse b s =
    rbind (buf_holding b s) (\<lambda>h s.
    if \<not> h then Panic ''brelse''
    else
      rbind (buf_release b s) (\<lambda>_ s.
      rbind (acquire L_bcache s) (\<lambda>_ s.
      let s = upd_buf b (\<lambda>x. x\<lparr>b_refcnt := b_refcnt x - 1\<rparr>) s;
          s = (if b_refcnt (bufs s ! b) = 0
               then s\<lparr>bufs := link_front b (unlink_buf b (bufs s))\<rparr> else s)
      in release L_bcache s)))"

text \<open>Clients change a locked buffer by copying into \<open>b->data\<close>.\<close>

definition set_data :: "nat \<Rightarrow> byte list \<Rightarrow> 'z bio_st_scheme \<Rightarrow> 'z bio_st_scheme" where
  "set_data b d s = upd_buf b (\<lambda>x. x\<lparr>b_data := d\<rparr>) s"

end
