(* ===== verification/Xv6_Log.thy ===== *)
theory Xv6_Log
  imports Xv6_Bio
begin

text \<open>
  The write-ahead log (log.c), with the superblock of fs.h and \<open>readsb\<close> of fs.c, which the log
  uses to find itself.  Blocks are byte lists; the header block and the superblock are read
  and written through their C layouts (little-endian 32-bit fields).
\<close>

subsection \<open>Superblock\<close>

record superblock =
  sb_size :: uint
  sb_nblocks :: uint
  sb_ninodes :: uint
  sb_nlog :: uint
  sb_logstart :: uint
  sb_inodestart :: uint
  sb_bmapstart :: uint

definition sb_of :: "byte list \<Rightarrow> superblock" where
  "sb_of d = \<lparr>sb_size = get32 d 0, sb_nblocks = get32 d 4, sb_ninodes = get32 d 8, sb_nlog = get32 d 12,
     sb_logstart = get32 d 16, sb_inodestart = get32 d 20, sb_bmapstart = get32 d 24\<rparr>"

definition readsb :: "uint \<Rightarrow> 'z bio_st_scheme \<Rightarrow> (superblock, 'z bio_st_scheme) res" where
  "readsb dev s =
    rbind (bread dev 1 s) (\<lambda>bp s.
    let sb = sb_of (b_data (bufs s ! bp)) in
    rbind (brelse bp s) (\<lambda>_ s. Ok sb s))"

subsection \<open>The log\<close>

abbreviation "MAXOPBLOCKS \<equiv> 10 :: int"
abbreviation "LOGSIZE \<equiv> 30 :: int"

record log_st = bio_st +
  log_start :: uint
  log_size :: uint
  log_outstanding :: int
  log_committing :: bool
  log_dev :: uint
  lh_n :: int
  lh_block :: "uint list"

text \<open>
  The loops of \<open>install_trans\<close> and \<open>write_log\<close> run over the positions of the header.
  The home block number recorded at position \<open>tail\<close>, and the log block that holds its copy:
\<close>

definition log_home :: "nat \<Rightarrow> 'z log_st_scheme \<Rightarrow> uint" where
  "log_home tail s = lh_block s ! tail"

definition log_slot :: "nat \<Rightarrow> 'z log_st_scheme \<Rightarrow> uint" where
  "log_slot tail s = log_start s + of_nat tail + 1"

definition install_one :: "nat \<Rightarrow> 'z log_st_scheme \<Rightarrow> (unit, 'z log_st_scheme) res" where
  "install_one tail s =
    rbind (bread (log_dev s) (log_slot tail s) s) (\<lambda>lbuf s.
    rbind (bread (log_dev s) (log_home tail s) s) (\<lambda>dbuf s.
    rbind (bwrite dbuf (set_data dbuf (b_data (bufs s ! lbuf)) s)) (\<lambda>_ s.
    rbind (brelse lbuf s) (\<lambda>_ s.
    brelse dbuf s))))"

definition install_trans :: "'z log_st_scheme \<Rightarrow> (unit, 'z log_st_scheme) res" where
  "install_trans s = rfor [0..<nat (lh_n s)] install_one s"

text \<open>
  The header block: \<open>n\<close> and then \<open>LOGSIZE\<close> block numbers.  The code copies as many entries as
  the block says; more than the array holds would write past it, which the model makes a
  failure.
\<close>

definition read_head :: "'z log_st_scheme \<Rightarrow> (unit, 'z log_st_scheme) res" where
  "read_head s =
    rbind (bread (log_dev s) (log_start s) s) (\<lambda>b s.
    let d = b_data (bufs s ! b); n = sint (get32 d 0) in
    if n > LOGSIZE then Panic ''array overrun''
    else
      let s = s\<lparr>lh_n := n\<rparr>;
          s = s\<lparr>lh_block := map (\<lambda>i. get32 d (4 + 4 * i)) [0..<nat n] @ drop (nat n) (lh_block s)\<rparr>
      in brelse b s)"

definition head_bytes :: "int \<Rightarrow> uint list \<Rightarrow> byte list \<Rightarrow> byte list" where
  "head_bytes n blocks d =
    fold (\<lambda>i d. put32 (4 + 4 * i) (blocks ! i) d) [0..<nat n] (put32 0 (of_int n) d)"

definition write_head :: "'z log_st_scheme \<Rightarrow> (unit, 'z log_st_scheme) res" where
  "write_head s =
    rbind (bread (log_dev s) (log_start s) s) (\<lambda>b s.
    let s = set_data b (head_bytes (lh_n s) (lh_block s) (b_data (bufs s ! b))) s in
    rbind (bwrite b s) (\<lambda>_ s. brelse b s))"

definition recover_from_log :: "'z log_st_scheme \<Rightarrow> (unit, 'z log_st_scheme) res" where
  "recover_from_log s =
    rbind (read_head s) (\<lambda>_ s.
    rbind (install_trans s) (\<lambda>_ s.
    write_head (s\<lparr>lh_n := 0\<rparr>)))"

definition initlog :: "uint \<Rightarrow> 'z log_st_scheme \<Rightarrow> (unit, 'z log_st_scheme) res" where
  "initlog dev s =
    (let s = initlock L_log s in
     rbind (readsb dev s) (\<lambda>sb s.
     recover_from_log (s\<lparr>log_start := sb_logstart sb, log_size := sb_nlog sb, log_dev := dev\<rparr>)))"

text \<open>
  A process that cannot start its operation sleeps on the log and tries again when woken: one
  pass of the loop either reserves space or sleeps.
\<close>

definition begin_op :: "'z log_st_scheme \<Rightarrow> (unit, 'z log_st_scheme) res" where
  "begin_op s =
    rbind (acquire L_log s) (\<lambda>_ s.
    if log_committing s then sleep Ch_log L_log s
    else if lh_n s + (log_outstanding s + 1) * MAXOPBLOCKS > LOGSIZE then sleep Ch_log L_log s
    else release L_log (s\<lparr>log_outstanding := log_outstanding s + 1\<rparr>))"

definition write_log_one :: "nat \<Rightarrow> 'z log_st_scheme \<Rightarrow> (unit, 'z log_st_scheme) res" where
  "write_log_one tail s =
    rbind (bread (log_dev s) (log_slot tail s) s) (\<lambda>dst s.
    rbind (bread (log_dev s) (log_home tail s) s) (\<lambda>from s.
    rbind (bwrite dst (set_data dst (b_data (bufs s ! from)) s)) (\<lambda>_ s.
    rbind (brelse from s) (\<lambda>_ s.
    brelse dst s))))"

definition write_log :: "'z log_st_scheme \<Rightarrow> (unit, 'z log_st_scheme) res" where
  "write_log s = rfor [0..<nat (lh_n s)] write_log_one s"

definition commit :: "'z log_st_scheme \<Rightarrow> (unit, 'z log_st_scheme) res" where
  "commit s =
    (if lh_n s > 0 then
       rbind (write_log s) (\<lambda>_ s.
       rbind (write_head s) (\<lambda>_ s.
       rbind (install_trans s) (\<lambda>_ s.
       write_head (s\<lparr>lh_n := 0\<rparr>))))
     else Ok () s)"

definition end_op :: "'z log_st_scheme \<Rightarrow> (unit, 'z log_st_scheme) res" where
  "end_op s =
    rbind (acquire L_log s) (\<lambda>_ s.
    let s = s\<lparr>log_outstanding := log_outstanding s - 1\<rparr> in
    if log_committing s then Panic ''log.committing''
    else if log_outstanding s = 0 then
      let s = s\<lparr>log_committing := True\<rparr> in
      rbind (release L_log s) (\<lambda>_ s.
      rbind (commit s) (\<lambda>_ s.
      rbind (acquire L_log s) (\<lambda>_ s.
      let s = s\<lparr>log_committing := False\<rparr> in
      rbind (wakeup Ch_log s) (\<lambda>_ s. release L_log s))))
    else rbind (wakeup Ch_log s) (\<lambda>_ s. release L_log s))"

definition log_write :: "nat \<Rightarrow> 'z log_st_scheme \<Rightarrow> (unit, 'z log_st_scheme) res" where
  "log_write b s =
    (if lh_n s \<ge> LOGSIZE \<or> lh_n s \<ge> sint (log_size s) - 1 then Panic ''too big a transaction''
     else if log_outstanding s < 1 then Panic ''log_write outside of trans''
     else
       rbind (acquire L_log s) (\<lambda>_ s.
       let i = (case scan (\<lambda>x. x = b_blockno (bufs s ! b)) (take (nat (lh_n s)) (lh_block s)) of
                  Some i \<Rightarrow> i | None \<Rightarrow> nat (lh_n s));
           s = s\<lparr>lh_block := (lh_block s)[i := b_blockno (bufs s ! b)]\<rparr>;
           s = (if int i = lh_n s then s\<lparr>lh_n := lh_n s + 1\<rparr> else s);
           s = upd_buf b (\<lambda>x. x\<lparr>b_flags := b_flags x OR B_DIRTY\<rparr>) s
       in release L_log s))"

end
