(* ===== verification/Xv6_Inode.thy ===== *)
theory Xv6_Inode
  imports Xv6_Log
begin

text \<open>
  The lower half of the file system (fs.c): disk blocks, inodes, the inode cache and the block
  map of an inode.  An inode pointer is an index into the cache.  On disk an inode is 64 bytes
  of its block, eight to a block; the bitmap has one bit per block.
\<close>

subsection \<open>On-disk layout\<close>

abbreviation "NDIRECT \<equiv> 12 :: nat"
abbreviation "NINDIRECT \<equiv> 128 :: nat"
abbreviation "MAXFILE \<equiv> 140 :: nat"
abbreviation "IPB \<equiv> 8 :: uint"
abbreviation "BPB \<equiv> 4096 :: nat"
abbreviation "NINODE \<equiv> 50 :: nat"
abbreviation "ROOTDEV \<equiv> 1 :: uint"
abbreviation "ROOTINO \<equiv> 1 :: uint"
abbreviation "T_DIR \<equiv> 1 :: ushort"
abbreviation "T_FILE \<equiv> 2 :: ushort"
abbreviation "T_DEV \<equiv> 3 :: ushort"

definition IBLOCK :: "uint \<Rightarrow> superblock \<Rightarrow> uint" where
  "IBLOCK i sb = i div IPB + sb_inodestart sb"

definition BBLOCK :: "uint \<Rightarrow> superblock \<Rightarrow> uint" where
  "BBLOCK b sb = b div of_nat BPB + sb_bmapstart sb"

record dinode =
  d_type :: ushort
  d_major :: ushort
  d_minor :: ushort
  d_nlink :: ushort
  d_size :: uint
  d_addrs :: "uint list"

definition dinode_at :: "byte list \<Rightarrow> nat \<Rightarrow> dinode" where
  "dinode_at d k = \<lparr>d_type = get16 d k, d_major = get16 d (k + 2), d_minor = get16 d (k + 4),
     d_nlink = get16 d (k + 6), d_size = get32 d (k + 8),
     d_addrs = map (\<lambda>j. get32 d (k + 12 + 4 * j)) [0..<NDIRECT + 1]\<rparr>"

definition put_addrs :: "nat \<Rightarrow> uint list \<Rightarrow> byte list \<Rightarrow> byte list" where
  "put_addrs k as d = fold (\<lambda>j d. put32 (k + 4 * j) (as ! j) d) [0..<length as] d"

definition put_dinode :: "nat \<Rightarrow> dinode \<Rightarrow> byte list \<Rightarrow> byte list" where
  "put_dinode k i d =
    (let d = put16 k (d_type i) d; d = put16 (k + 2) (d_major i) d; d = put16 (k + 4) (d_minor i) d;
         d = put16 (k + 6) (d_nlink i) d; d = put32 (k + 8) (d_size i) d
     in put_addrs (k + 12) (d_addrs i) d)"

definition dinode_off :: "uint \<Rightarrow> nat" where
  "dinode_off inum = 64 * unat (inum mod IPB)"

subsection \<open>State\<close>

record inode =
  i_dev :: uint
  i_inum :: uint
  i_ref :: int
  i_lock :: sleeplock
  i_valid :: bool
  i_type :: ushort
  i_major :: ushort
  i_minor :: ushort
  i_nlink :: ushort
  i_size :: uint
  i_addrs :: "uint list"

record fs_st = log_st +
  sb :: superblock
  inodes :: "inode list"

definition upd_inode :: "nat \<Rightarrow> (inode \<Rightarrow> inode) \<Rightarrow> 'z fs_st_scheme \<Rightarrow> 'z fs_st_scheme" where
  "upd_inode ip f s = s\<lparr>inodes := (inodes s)[ip := f (inodes s ! ip)]\<rparr>"

definition put_inodelock :: "nat \<Rightarrow> sleeplock \<Rightarrow> 'z fs_st_scheme \<Rightarrow> 'z fs_st_scheme" where
  "put_inodelock ip l s = upd_inode ip (\<lambda>x. x\<lparr>i_lock := l\<rparr>) s"

definition inode_acquire :: "nat \<Rightarrow> 'z fs_st_scheme \<Rightarrow> (unit, 'z fs_st_scheme) res" where
  "inode_acquire ip s = acquiresleep (L_inode ip) (Ch_inodelock ip) (\<lambda>s. i_lock (inodes s ! ip)) (put_inodelock ip) s"

definition inode_release :: "nat \<Rightarrow> 'z fs_st_scheme \<Rightarrow> (unit, 'z fs_st_scheme) res" where
  "inode_release ip s = releasesleep (L_inode ip) (Ch_inodelock ip) (put_inodelock ip) s"

definition inode_holding :: "nat \<Rightarrow> 'z fs_st_scheme \<Rightarrow> (bool, 'z fs_st_scheme) res" where
  "inode_holding ip s = holdingsleep (L_inode ip) (\<lambda>s. i_lock (inodes s ! ip)) s"

subsection \<open>Blocks\<close>

definition bzero :: "uint \<Rightarrow> uint \<Rightarrow> 'z fs_st_scheme \<Rightarrow> (unit, 'z fs_st_scheme) res" where
  "bzero dev bno s =
    rbind (bread dev bno s) (\<lambda>bp s.
    let s = set_data bp (replicate BSIZE 0) s in
    rbind (log_write bp s) (\<lambda>_ s. brelse bp s))"

text \<open>Bit \<open>bi\<close> of a bitmap block.\<close>

definition bit_mask :: "nat \<Rightarrow> byte" where
  "bit_mask bi = push_bit (bi mod 8) 1"

definition in_use :: "byte list \<Rightarrow> nat \<Rightarrow> bool" where
  "in_use d bi \<longleftrightarrow> d ! (bi div 8) AND bit_mask bi \<noteq> 0"

definition mark_used :: "nat \<Rightarrow> byte list \<Rightarrow> byte list" where
  "mark_used bi d = d[bi div 8 := d ! (bi div 8) OR bit_mask bi]"

definition mark_free :: "nat \<Rightarrow> byte list \<Rightarrow> byte list" where
  "mark_free bi d = d[bi div 8 := d ! (bi div 8) AND NOT (bit_mask bi)]"

text \<open>The outer loop of \<open>balloc\<close> runs over the first blocks of the bitmap blocks.\<close>

fun balloc_loop :: "uint \<Rightarrow> nat list \<Rightarrow> 'z fs_st_scheme \<Rightarrow> (uint, 'z fs_st_scheme) res" where
  "balloc_loop dev [] s = Panic ''balloc: out of blocks''"
| "balloc_loop dev (b # bs) s =
    rbind (bread dev (BBLOCK (of_nat b) (sb s)) s) (\<lambda>bp s.
    case scan (\<lambda>bi. \<not> in_use (b_data (bufs s ! bp)) bi) [0..<min BPB (unat (sb_size (sb s)) - b)] of
      Some bi \<Rightarrow>
        let s = set_data bp (mark_used bi (b_data (bufs s ! bp))) s in
        rbind (log_write bp s) (\<lambda>_ s.
        rbind (brelse bp s) (\<lambda>_ s.
        rbind (bzero dev (of_nat (b + bi)) s) (\<lambda>_ s.
        Ok (of_nat (b + bi)) s)))
    | None \<Rightarrow> rbind (brelse bp s) (\<lambda>_ s. balloc_loop dev bs s))"

definition balloc :: "uint \<Rightarrow> 'z fs_st_scheme \<Rightarrow> (uint, 'z fs_st_scheme) res" where
  "balloc dev s = balloc_loop dev (map (\<lambda>k. k * BPB) [0..<(unat (sb_size (sb s)) + BPB - 1) div BPB]) s"

definition bfree :: "uint \<Rightarrow> uint \<Rightarrow> 'z fs_st_scheme \<Rightarrow> (unit, 'z fs_st_scheme) res" where
  "bfree dev b s =
    rbind (readsb dev s) (\<lambda>r s.
    let s = s\<lparr>sb := r\<rparr> in
    rbind (bread dev (BBLOCK b (sb s)) s) (\<lambda>bp s.
    let bi = unat b mod BPB in
    if \<not> in_use (b_data (bufs s ! bp)) bi then Panic ''freeing free block''
    else
      let s = set_data bp (mark_free bi (b_data (bufs s ! bp))) s in
      rbind (log_write bp s) (\<lambda>_ s. brelse bp s)))"

subsection \<open>Inodes\<close>

text \<open>\<open>iinit\<close> also prints the superblock on the console.\<close>

definition iinit :: "uint \<Rightarrow> 'z fs_st_scheme \<Rightarrow> (unit, 'z fs_st_scheme) res" where
  "iinit dev s =
    (let s = initlock L_icache s;
         s = fold (\<lambda>i s. initsleeplock (L_inode i) (put_inodelock i) s) [0..<NINODE] s
     in rbind (readsb dev s) (\<lambda>r s. Ok () (s\<lparr>sb := r\<rparr>)))"

definition iget :: "uint \<Rightarrow> uint \<Rightarrow> 'z fs_st_scheme \<Rightarrow> (nat, 'z fs_st_scheme) res" where
  "iget dev inum s =
    rbind (acquire L_icache s) (\<lambda>_ s.
    case scan (\<lambda>x. i_ref x > 0 \<and> i_dev x = dev \<and> i_inum x = inum) (inodes s) of
      Some ip \<Rightarrow>
        let s = upd_inode ip (\<lambda>x. x\<lparr>i_ref := i_ref x + 1\<rparr>) s in
        rbind (release L_icache s) (\<lambda>_ s. Ok ip s)
    | None \<Rightarrow>
       (case scan (\<lambda>x. i_ref x = 0) (inodes s) of
          None \<Rightarrow> Panic ''iget: no inodes''
        | Some ip \<Rightarrow>
            let s = upd_inode ip (\<lambda>x. x\<lparr>i_dev := dev, i_inum := inum, i_ref := 1, i_valid := False\<rparr>) s in
            rbind (release L_icache s) (\<lambda>_ s. Ok ip s)))"

fun ialloc_loop :: "uint \<Rightarrow> ushort \<Rightarrow> nat list \<Rightarrow> 'z fs_st_scheme \<Rightarrow> (nat, 'z fs_st_scheme) res" where
  "ialloc_loop dev ty [] s = Panic ''ialloc: no inodes''"
| "ialloc_loop dev ty (n # ns) s =
    (let inum = of_nat n in
     rbind (bread dev (IBLOCK inum (sb s)) s) (\<lambda>bp s.
     let d = b_data (bufs s ! bp); k = dinode_off inum in
     if get16 d k = 0 then
       let s = set_data bp (put16 k ty (splice k (replicate 64 0) d)) s in
       rbind (log_write bp s) (\<lambda>_ s.
       rbind (brelse bp s) (\<lambda>_ s.
       iget dev inum s))
     else rbind (brelse bp s) (\<lambda>_ s. ialloc_loop dev ty ns s)))"

definition ialloc :: "uint \<Rightarrow> ushort \<Rightarrow> 'z fs_st_scheme \<Rightarrow> (nat, 'z fs_st_scheme) res" where
  "ialloc dev ty s = ialloc_loop dev ty [1..<unat (sb_ninodes (sb s))] s"

definition dinode_of :: "inode \<Rightarrow> dinode" where
  "dinode_of x = \<lparr>d_type = i_type x, d_major = i_major x, d_minor = i_minor x, d_nlink = i_nlink x,
     d_size = i_size x, d_addrs = i_addrs x\<rparr>"

definition iupdate :: "nat \<Rightarrow> 'z fs_st_scheme \<Rightarrow> (unit, 'z fs_st_scheme) res" where
  "iupdate ip s =
    (let x = inodes s ! ip in
     rbind (bread (i_dev x) (IBLOCK (i_inum x) (sb s)) s) (\<lambda>bp s.
     let x = inodes s ! ip;
         s = set_data bp (put_dinode (dinode_off (i_inum x)) (dinode_of x) (b_data (bufs s ! bp))) s in
     rbind (log_write bp s) (\<lambda>_ s. brelse bp s)))"

definition idup :: "nat \<Rightarrow> 'z fs_st_scheme \<Rightarrow> (nat, 'z fs_st_scheme) res" where
  "idup ip s =
    rbind (acquire L_icache s) (\<lambda>_ s.
    let s = upd_inode ip (\<lambda>x. x\<lparr>i_ref := i_ref x + 1\<rparr>) s in
    rbind (release L_icache s) (\<lambda>_ s. Ok ip s))"

definition load_dinode :: "dinode \<Rightarrow> inode \<Rightarrow> inode" where
  "load_dinode d x = x\<lparr>i_type := d_type d, i_major := d_major d, i_minor := d_minor d, i_nlink := d_nlink d,
     i_size := d_size d, i_addrs := d_addrs d\<rparr>"

definition ilock :: "nat \<Rightarrow> 'z fs_st_scheme \<Rightarrow> (unit, 'z fs_st_scheme) res" where
  "ilock ip s =
    (if i_ref (inodes s ! ip) < 1 then Panic ''ilock''
     else
       rbind (inode_acquire ip s) (\<lambda>_ s.
       let x = inodes s ! ip in
       if \<not> i_valid x then
         rbind (bread (i_dev x) (IBLOCK (i_inum x) (sb s)) s) (\<lambda>bp s.
         let s = upd_inode ip (load_dinode (dinode_at (b_data (bufs s ! bp)) (dinode_off (i_inum (inodes s ! ip))))) s in
         rbind (brelse bp s) (\<lambda>_ s.
         let s = upd_inode ip (\<lambda>x. x\<lparr>i_valid := True\<rparr>) s in
         if i_type (inodes s ! ip) = 0 then Panic ''ilock: no type'' else Ok () s))
       else Ok () s))"

definition iunlock :: "nat \<Rightarrow> 'z fs_st_scheme \<Rightarrow> (unit, 'z fs_st_scheme) res" where
  "iunlock ip s =
    rbind (inode_holding ip s) (\<lambda>h s.
    if \<not> h \<or> i_ref (inodes s ! ip) < 1 then Panic ''iunlock''
    else inode_release ip s)"

subsection \<open>Inode content\<close>

definition bmap :: "nat \<Rightarrow> uint \<Rightarrow> 'z fs_st_scheme \<Rightarrow> (uint, 'z fs_st_scheme) res" where
  "bmap ip bn s =
    (if unat bn < NDIRECT then
       let addr = i_addrs (inodes s ! ip) ! unat bn in
       if addr = 0 then
         rbind (balloc (i_dev (inodes s ! ip)) s) (\<lambda>addr s.
         Ok addr (upd_inode ip (\<lambda>x. x\<lparr>i_addrs := (i_addrs x)[unat bn := addr]\<rparr>) s))
       else Ok addr s
     else
       let bn = bn - of_nat NDIRECT in
       if unat bn < NINDIRECT then
         let addr = i_addrs (inodes s ! ip) ! NDIRECT in
         rbind (if addr = 0 then
                  rbind (balloc (i_dev (inodes s ! ip)) s) (\<lambda>addr s.
                  Ok addr (upd_inode ip (\<lambda>x. x\<lparr>i_addrs := (i_addrs x)[NDIRECT := addr]\<rparr>) s))
                else Ok addr s) (\<lambda>addr s.
         rbind (bread (i_dev (inodes s ! ip)) addr s) (\<lambda>bp s.
         let addr = get32 (b_data (bufs s ! bp)) (4 * unat bn) in
         rbind (if addr = 0 then
                  rbind (balloc (i_dev (inodes s ! ip)) s) (\<lambda>addr s.
                  let s = set_data bp (put32 (4 * unat bn) addr (b_data (bufs s ! bp))) s in
                  rbind (log_write bp s) (\<lambda>_ s. Ok addr s))
                else Ok addr s) (\<lambda>addr s.
         rbind (brelse bp s) (\<lambda>_ s. Ok addr s))))
       else Panic ''bmap: out of range'')"

definition itrunc :: "nat \<Rightarrow> 'z fs_st_scheme \<Rightarrow> (unit, 'z fs_st_scheme) res" where
  "itrunc ip s =
    rbind (rfor [0..<NDIRECT] (\<lambda>i s.
      let a = i_addrs (inodes s ! ip) ! i in
      if a \<noteq> 0 then
        rbind (bfree (i_dev (inodes s ! ip)) a s) (\<lambda>_ s.
        Ok () (upd_inode ip (\<lambda>x. x\<lparr>i_addrs := (i_addrs x)[i := 0]\<rparr>) s))
      else Ok () s) s) (\<lambda>_ s.
    rbind (let a = i_addrs (inodes s ! ip) ! NDIRECT in
      if a \<noteq> 0 then
        rbind (bread (i_dev (inodes s ! ip)) a s) (\<lambda>bp s.
        rbind (rfor [0..<NINDIRECT] (\<lambda>j s.
          let e = get32 (b_data (bufs s ! bp)) (4 * j) in
          if e \<noteq> 0 then bfree (i_dev (inodes s ! ip)) e s else Ok () s) s) (\<lambda>_ s.
        rbind (brelse bp s) (\<lambda>_ s.
        rbind (bfree (i_dev (inodes s ! ip)) (i_addrs (inodes s ! ip) ! NDIRECT) s) (\<lambda>_ s.
        Ok () (upd_inode ip (\<lambda>x. x\<lparr>i_addrs := (i_addrs x)[NDIRECT := 0]\<rparr>) s)))))
      else Ok () s) (\<lambda>_ s.
    iupdate ip (upd_inode ip (\<lambda>x. x\<lparr>i_size := 0\<rparr>) s)))"

definition iput :: "nat \<Rightarrow> 'z fs_st_scheme \<Rightarrow> (unit, 'z fs_st_scheme) res" where
  "iput ip s =
    rbind (inode_acquire ip s) (\<lambda>_ s.
    rbind (if i_valid (inodes s ! ip) \<and> i_nlink (inodes s ! ip) = 0 then
             rbind (acquire L_icache s) (\<lambda>_ s.
             let r = i_ref (inodes s ! ip) in
             rbind (release L_icache s) (\<lambda>_ s.
             if r = 1 then
               rbind (itrunc ip s) (\<lambda>_ s.
               let s = upd_inode ip (\<lambda>x. x\<lparr>i_type := 0\<rparr>) s in
               rbind (iupdate ip s) (\<lambda>_ s.
               Ok () (upd_inode ip (\<lambda>x. x\<lparr>i_valid := False\<rparr>) s)))
             else Ok () s))
           else Ok () s) (\<lambda>_ s.
    rbind (inode_release ip s) (\<lambda>_ s.
    rbind (acquire L_icache s) (\<lambda>_ s.
    let s = upd_inode ip (\<lambda>x. x\<lparr>i_ref := i_ref x - 1\<rparr>) s in
    release L_icache s))))"

definition iunlockput :: "nat \<Rightarrow> 'z fs_st_scheme \<Rightarrow> (unit, 'z fs_st_scheme) res" where
  "iunlockput ip s = rbind (iunlock ip s) (\<lambda>_ s. iput ip s)"

record stat =
  st_type :: ushort
  st_dev :: uint
  st_ino :: uint
  st_nlink :: ushort
  st_size :: uint

definition stati :: "nat \<Rightarrow> 'z fs_st_scheme \<Rightarrow> stat" where
  "stati ip s =
    (let x = inodes s ! ip in
     \<lparr>st_type = i_type x, st_dev = i_dev x, st_ino = i_inum x, st_nlink = i_nlink x, st_size = i_size x\<rparr>)"

end
