(* ===== verification/Xv6_Console.thy ===== *)
theory Xv6_Console
  imports Xv6_Inode
begin

text \<open>
  The console (console.c): formatted output, the text screen, line-edited input, and the
  console as a device; the serial port's output (uart.c) and the debugging listings
  \<open>getcallerpcs\<close> (spinlock.c) and \<open>procdump\<close> (proc.c), which print through it.
\<close>

subsection \<open>State\<close>

text \<open>
  Device drivers register their functions in \<open>devsw\<close>; the console is the only driver, so an
  entry is either empty or the console's.
\<close>

datatype devfn = Dev_none | Dev_console

record cons_st = fs_st +
  panicked :: bool
  cons_locking :: bool
  crt :: "ushort list"
  crt_pos :: int
  uart_present :: bool
  uart_out :: "byte list"
  in_buf :: "byte list"
  in_r :: uint
  in_w :: uint
  in_e :: uint
  devsw_read :: "devfn list"
  devsw_write :: "devfn list"

abbreviation "INPUT_BUF \<equiv> 128 :: uint"
abbreviation "BACKSPACE \<equiv> 0x100 :: uint"
abbreviation "NDEV \<equiv> 10 :: int"
abbreviation "CONSOLE \<equiv> 1 :: nat"

subsection \<open>Output\<close>

definition uartputc :: "uint \<Rightarrow> 'z cons_st_scheme \<Rightarrow> 'z cons_st_scheme" where
  "uartputc c s = (if \<not> uart_present s then s else s\<lparr>uart_out := uart_out s @ [ucast c]\<rparr>)"

definition uartinit :: "bool \<Rightarrow> 'z cons_st_scheme \<Rightarrow> 'z cons_st_scheme" where
  "uartinit answers s =
    (if \<not> answers then s
     else fold uartputc [0x78, 0x76, 0x36, 0x2e, 0x2e, 0x2e, 0x0a] (s\<lparr>uart_present := True\<rparr>))"

text \<open>The cursor register holds the position; the screen has 25 lines of 80 cells, the last unused.\<close>

definition cgaputc :: "uint \<Rightarrow> 'z cons_st_scheme \<Rightarrow> (unit, 'z cons_st_scheme) res" where
  "cgaputc c s =
    (let pos = crt_pos s;
         (pos, t) = (if c = 0x0a then (pos + (80 - pos mod 80), crt s)
                     else if c = BACKSPACE then (if pos > 0 then pos - 1 else pos, crt s)
                     else (pos + 1, (crt s)[nat pos := (ucast c AND 0xff) OR 0x0700]))
     in if pos < 0 \<or> pos > 25 * 80 then Panic ''pos under/overflow''
        else
          let (pos, t) = (if pos div 80 \<ge> 24
                 then let t = splice 0 (slice 80 (23 * 80) t) t; pos = pos - 80
                      in (pos, splice (nat pos) (replicate (nat (24 * 80 - pos)) 0) t)
                 else (pos, t))
          in Ok () (s\<lparr>crt_pos := pos, crt := t[nat pos := 0x20 OR 0x0700]\<rparr>))"

text \<open>After a panic every CPU that prints stops for good.\<close>

definition consputc :: "uint \<Rightarrow> 'z cons_st_scheme \<Rightarrow> (unit, 'z cons_st_scheme) res" where
  "consputc c s =
    (if panicked s then Panic ''frozen''
     else
       let s = (if c = BACKSPACE then uartputc 0x08 (uartputc 0x20 (uartputc 0x08 s)) else uartputc c s)
       in cgaputc c s)"

fun consputs :: "uint list \<Rightarrow> 'z cons_st_scheme \<Rightarrow> (unit, 'z cons_st_scheme) res" where
  "consputs [] s = Ok () s"
| "consputs (c # cs) s = rbind (consputc c s) (\<lambda>_ s. consputs cs s)"

text \<open>
  \<open>printint\<close> collects the digits least significant first and prints them in reverse.
\<close>

definition digit :: "uint \<Rightarrow> uint" where
  "digit d = (if d < 10 then 0x30 + d else 0x61 + (d - 10))"

lemma unat_div_less:
  assumes "\<not> (base < 2 \<or> x div base = 0)"
  shows "unat (x div base) < unat (x :: uint)"
proof -
  have "2 \<le> unat base" and "x \<noteq> 0" using assms by (auto simp: word_less_nat_alt)
  then have "0 < unat x" "1 < unat base" by (simp_all add: unat_gt_0)
  then show ?thesis by (simp add: unat_div_distrib)
qed

function int_digits :: "uint \<Rightarrow> uint \<Rightarrow> uint list" where
  "int_digits base x =
    (if base < 2 \<or> x div base = 0 then [digit (x mod base)]
     else digit (x mod base) # int_digits base (x div base))"
  by auto
termination
  by (relation "measure (\<lambda>(base, x). unat x)") (simp_all add: unat_div_less)

definition printint_chars :: "uint \<Rightarrow> uint \<Rightarrow> bool \<Rightarrow> uint list" where
  "printint_chars xx base sign =
    (let neg = (sign \<and> sint xx < 0); x = (if neg then - xx else xx);
         buf = int_digits base x
     in rev (if neg then buf @ [0x2d] else buf))"

definition printint :: "uint \<Rightarrow> uint \<Rightarrow> bool \<Rightarrow> 'z cons_st_scheme \<Rightarrow> (unit, 'z cons_st_scheme) res" where
  "printint xx base sign s = consputs (printint_chars xx base sign) s"

text \<open>
  The arguments of a format: words, and strings (\<open>None\<close> is the null pointer).  A directive that
  meets an argument of the other kind reads memory that is not an argument, which the model
  makes a failure.
\<close>

datatype parg = PInt uint | PStr "byte list option"

fun cprintf_loop :: "byte list \<Rightarrow> parg list \<Rightarrow> 'z cons_st_scheme \<Rightarrow> (unit, 'z cons_st_scheme) res" where
  "cprintf_loop [] args s = Ok () s"
| "cprintf_loop [c] args s = (if c \<noteq> 0x25 then consputc (ucast c) s else Ok () s)"
| "cprintf_loop (c # d # fmt) args s =
    (if c \<noteq> 0x25 then rbind (consputc (ucast c) s) (\<lambda>_ s. cprintf_loop (d # fmt) args s)
     else if d = 0x64 then
       (case args of PInt x # args \<Rightarrow> rbind (printint x 10 True s) (\<lambda>_ s. cprintf_loop fmt args s)
        | _ \<Rightarrow> Panic ''bad argument'')
     else if d = 0x78 \<or> d = 0x70 then
       (case args of PInt x # args \<Rightarrow> rbind (printint x 16 False s) (\<lambda>_ s. cprintf_loop fmt args s)
        | _ \<Rightarrow> Panic ''bad argument'')
     else if d = 0x73 then
       (case args of
          PStr str # args \<Rightarrow>
            rbind (consputs (map ucast (case str of Some t \<Rightarrow> t | None \<Rightarrow> [0x28, 0x6e, 0x75, 0x6c, 0x6c, 0x29])) s)
              (\<lambda>_ s. cprintf_loop fmt args s)
        | _ \<Rightarrow> Panic ''bad argument'')
     else if d = 0x25 then rbind (consputc 0x25 s) (\<lambda>_ s. cprintf_loop fmt args s)
     else rbind (consputc 0x25 s) (\<lambda>_ s. rbind (consputc (ucast d) s) (\<lambda>_ s. cprintf_loop fmt args s)))"

definition cprintf :: "byte list \<Rightarrow> parg list \<Rightarrow> 'z cons_st_scheme \<Rightarrow> (unit, 'z cons_st_scheme) res" where
  "cprintf fmt args s =
    (let locking = cons_locking s in
     rbind (if locking then acquire L_cons s else Ok () s) (\<lambda>_ s.
     rbind (cprintf_loop fmt args s) (\<lambda>_ s.
     if locking then release L_cons s else Ok () s)))"

text \<open>The state in which \<open>panic\<close> stops; \<open>pcs\<close> is the stack trace.\<close>

definition panic :: "uint \<Rightarrow> byte list \<Rightarrow> uint list \<Rightarrow> 'z cons_st_scheme \<Rightarrow> (unit, 'z cons_st_scheme) res" where
  "panic lapicid msg pcs s =
    (let s = (cli s)\<lparr>cons_locking := False\<rparr> in
     rbind (cprintf [0x6c, 0x61, 0x70, 0x69, 0x63, 0x69, 0x64, 0x20, 0x25, 0x64, 0x3a, 0x20,
                     0x70, 0x61, 0x6e, 0x69, 0x63, 0x3a, 0x20] [PInt lapicid] s) (\<lambda>_ s.
     rbind (cprintf msg [] s) (\<lambda>_ s.
     rbind (cprintf [0x0a] [] s) (\<lambda>_ s.
     rbind (rfor pcs (\<lambda>pc s. cprintf [0x20, 0x25, 0x70] [PInt pc] s) s) (\<lambda>_ s.
     Ok () (s\<lparr>panicked := True\<rparr>))))))"

subsection \<open>Stack traces and the process listing\<close>

fun callerpcs_loop :: "nat \<Rightarrow> memory \<Rightarrow> addr \<Rightarrow> uint list" where
  "callerpcs_loop 0 m ebp = []"
| "callerpcs_loop (Suc k) m ebp =
    (if ebp = 0 \<or> ebp < KERNBASE \<or> ebp = 0xffffffff then replicate (Suc k) 0
     else ld32 m (ebp + 4) # callerpcs_loop k m (ld32 m ebp))"

definition getcallerpcs :: "memory \<Rightarrow> addr \<Rightarrow> uint list" where
  "getcallerpcs m v = callerpcs_loop 10 m (v - 8)"

definition state_name :: "procstate \<Rightarrow> byte list" where
  "state_name st = (case st of
      UNUSED \<Rightarrow> [0x75, 0x6e, 0x75, 0x73, 0x65, 0x64]
    | EMBRYO \<Rightarrow> [0x65, 0x6d, 0x62, 0x72, 0x79, 0x6f]
    | SLEEPING \<Rightarrow> [0x73, 0x6c, 0x65, 0x65, 0x70, 0x20]
    | RUNNABLE \<Rightarrow> [0x72, 0x75, 0x6e, 0x62, 0x6c, 0x65]
    | RUNNING \<Rightarrow> [0x72, 0x75, 0x6e, 0x20, 0x20, 0x20]
    | ZOMBIE \<Rightarrow> [0x7a, 0x6f, 0x6d, 0x62, 0x69, 0x65])"

definition procdump :: "'z cons_st_scheme \<Rightarrow> (unit, 'z cons_st_scheme) res" where
  "procdump s =
    rfor [0..<length (procs s)] (\<lambda>i s.
      let p = procs s ! i in
      if p_state p = UNUSED then Ok () s
      else
        rbind (cprintf [0x25, 0x64, 0x20, 0x25, 0x73, 0x20, 0x25, 0x73]
                 [PInt (p_pid p), PStr (Some (state_name (p_state p))), PStr (Some (cname 16 (p_name p)))] s) (\<lambda>_ s.
        rbind (if p_state p = SLEEPING
               then rfor (takeWhile (\<lambda>pc. pc \<noteq> 0) (getcallerpcs (mem s) (ld32 (mem s) (p_context p + 12) + 8)))
                      (\<lambda>pc s. cprintf [0x20, 0x25, 0x70] [PInt pc] s) s
               else Ok () s) (\<lambda>_ s.
        cprintf [0x0a] [] s))) s"

subsection \<open>Input\<close>

definition in_at :: "uint \<Rightarrow> 'z cons_st_scheme \<Rightarrow> byte" where
  "in_at i s = in_buf s ! unat (i mod INPUT_BUF)"

text \<open>Control-U erases the characters typed since the last committed line.\<close>

fun kill_line :: "nat \<Rightarrow> 'z cons_st_scheme \<Rightarrow> (unit, 'z cons_st_scheme) res" where
  "kill_line 0 s = out_of_fuel"
| "kill_line (Suc k) s =
    (if in_e s \<noteq> in_w s \<and> in_at (in_e s - 1) s \<noteq> 0x0a
     then rbind (consputc BACKSPACE (s\<lparr>in_e := in_e s - 1\<rparr>)) (\<lambda>_ s. kill_line k s)
     else Ok () s)"

text \<open>What one character does; the flag asks for a process listing afterwards.\<close>

definition consoleintr_char :: "uint \<Rightarrow> bool \<Rightarrow> 'z cons_st_scheme \<Rightarrow> (bool, 'z cons_st_scheme) res" where
  "consoleintr_char c doprocdump s =
    (if c = 0x10 then Ok True s
     else if c = 0x15 then rbind (kill_line (unat INPUT_BUF + 1) s) (\<lambda>_ s. Ok doprocdump s)
     else if c = 0x08 \<or> c = 0x7f then
       (if in_e s \<noteq> in_w s
        then rbind (consputc BACKSPACE (s\<lparr>in_e := in_e s - 1\<rparr>)) (\<lambda>_ s. Ok doprocdump s)
        else Ok doprocdump s)
     else if c \<noteq> 0 \<and> in_e s - in_r s < INPUT_BUF then
       let c = (if c = 0x0d then 0x0a else c);
           s = s\<lparr>in_buf := (in_buf s)[unat (in_e s mod INPUT_BUF) := ucast c], in_e := in_e s + 1\<rparr>
       in rbind (consputc c s) (\<lambda>_ s.
          if c = 0x0a \<or> c = 0x04 \<or> in_e s = in_r s + INPUT_BUF
          then rbind (wakeup Ch_input_r (s\<lparr>in_w := in_e s\<rparr>)) (\<lambda>_ s. Ok doprocdump s)
          else Ok doprocdump s)
     else Ok doprocdump s)"

fun consoleintr_loop :: "uint list \<Rightarrow> bool \<Rightarrow> 'z cons_st_scheme \<Rightarrow> (bool, 'z cons_st_scheme) res" where
  "consoleintr_loop [] d s = Ok d s"
| "consoleintr_loop (c # cs) d s = rbind (consoleintr_char c d s) (\<lambda>d s. consoleintr_loop cs d s)"

text \<open>\<open>cs\<close> are the characters the device delivers before it reports that it has no more.\<close>

definition consoleintr :: "uint list \<Rightarrow> 'z cons_st_scheme \<Rightarrow> (unit, 'z cons_st_scheme) res" where
  "consoleintr cs s =
    rbind (acquire L_cons s) (\<lambda>_ s.
    rbind (consoleintr_loop cs False s) (\<lambda>d s.
    rbind (release L_cons s) (\<lambda>_ s.
    if d then procdump s else Ok () s)))"

subsection \<open>The console device\<close>

text \<open>
  The loop of \<open>consoleread\<close>; \<open>n\<close> counts down, \<open>acc\<close> is what has been stored so far, and the
  result \<open>None\<close> means the process was killed.
\<close>

fun consoleread_loop ::
  "nat \<Rightarrow> nat \<Rightarrow> byte list \<Rightarrow> 'z cons_st_scheme \<Rightarrow> (byte list option, 'z cons_st_scheme) res" where
  "consoleread_loop target 0 acc s = Ok (Some acc) s"
| "consoleread_loop target (Suc n) acc s =
    (if in_r s = in_w s then
       (case curp s of None \<Rightarrow> Panic ''null dereference''
        | Some i \<Rightarrow> if p_killed (procs s ! i) then Ok None s else sleep Ch_input_r L_cons s)
     else
       let c = in_at (in_r s) s; s = s\<lparr>in_r := in_r s + 1\<rparr> in
       if c = 0x04 then Ok (Some acc) (if Suc n < target then s\<lparr>in_r := in_r s - 1\<rparr> else s)
       else if c = 0x0a then Ok (Some (acc @ [c])) s
       else consoleread_loop target n (acc @ [c]) s)"

definition consoleread :: "nat \<Rightarrow> int \<Rightarrow> 'z cons_st_scheme \<Rightarrow> (int \<times> byte list, 'z cons_st_scheme) res" where
  "consoleread ip n s =
    rbind (iunlock ip s) (\<lambda>_ s.
    rbind (acquire L_cons s) (\<lambda>_ s.
    rbind (consoleread_loop (nat n) (nat n) [] s) (\<lambda>r s.
    rbind (release L_cons s) (\<lambda>_ s.
    rbind (ilock ip s) (\<lambda>_ s.
    case r of None \<Rightarrow> Ok (- 1, []) s | Some bs \<Rightarrow> Ok (int (length bs), bs) s)))))"

definition consolewrite :: "nat \<Rightarrow> byte list \<Rightarrow> 'z cons_st_scheme \<Rightarrow> (int, 'z cons_st_scheme) res" where
  "consolewrite ip bs s =
    rbind (iunlock ip s) (\<lambda>_ s.
    rbind (acquire L_cons s) (\<lambda>_ s.
    rbind (consputs (map ucast bs) s) (\<lambda>_ s.
    rbind (release L_cons s) (\<lambda>_ s.
    rbind (ilock ip s) (\<lambda>_ s. Ok (int (length bs)) s)))))"

definition consoleinit :: "'z cons_st_scheme \<Rightarrow> 'z cons_st_scheme" where
  "consoleinit s =
    (initlock L_cons s)\<lparr>devsw_write := (devsw_write s)[CONSOLE := Dev_console],
       devsw_read := (devsw_read s)[CONSOLE := Dev_console], cons_locking := True\<rparr>"

end
