(* ===== verification/Xv6_Fs.thy ===== *)
theory Xv6_Fs
  imports Xv6_Console
begin

text \<open>
  The upper half of the file system (fs.c): file content, directories and path names.  Reading
  returns the bytes read next to the C result; writing takes the bytes.  A path is the list of
  its bytes without the terminating zero, a name buffer has the \<open>DIRSIZ\<close> bytes of a directory
  entry.
\<close>

subsection \<open>File content\<close>

definition dev_read :: "devfn \<Rightarrow> nat \<Rightarrow> int \<Rightarrow> 'z cons_st_scheme \<Rightarrow> (int \<times> byte list, 'z cons_st_scheme) res" where
  "dev_read f ip n s = (case f of Dev_none \<Rightarrow> Ok (- 1, []) s | Dev_console \<Rightarrow> consoleread ip n s)"

definition dev_write :: "devfn \<Rightarrow> nat \<Rightarrow> byte list \<Rightarrow> 'z cons_st_scheme \<Rightarrow> (int, 'z cons_st_scheme) res" where
  "dev_write f ip bs s = (case f of Dev_none \<Rightarrow> Ok (- 1) s | Dev_console \<Rightarrow> consolewrite ip bs s)"

text \<open>How much of \<open>r\<close> remaining bytes lies in the block that contains offset \<open>off\<close>.\<close>

definition chunk :: "uint \<Rightarrow> nat \<Rightarrow> nat" where
  "chunk off r = min r (BSIZE - unat off mod BSIZE)"

lemma chunk_positive: "0 < r \<Longrightarrow> 0 < chunk off r"
  unfolding chunk_def by (simp add: mod_less_divisor)

function readi_loop :: "nat \<Rightarrow> uint \<Rightarrow> nat \<Rightarrow> 'z cons_st_scheme \<Rightarrow> (byte list, 'z cons_st_scheme) res" where
  "readi_loop ip off r s =
    (if r = 0 then Ok [] s
     else
       rbind (bmap ip (off div of_nat BSIZE) s) (\<lambda>a s.
       rbind (bread (i_dev (inodes s ! ip)) a s) (\<lambda>bp s.
       let m = chunk off r; bs = slice (unat off mod BSIZE) m (b_data (bufs s ! bp)) in
       rbind (brelse bp s) (\<lambda>_ s.
       rbind (readi_loop ip (off + of_nat m) (r - m) s) (\<lambda>cs s.
       Ok (bs @ cs) s)))))"
  by pat_completeness auto
termination
  by (relation "measure (\<lambda>(ip, off, r, s). r)") (auto intro!: diff_less chunk_positive)

definition readi :: "nat \<Rightarrow> uint \<Rightarrow> uint \<Rightarrow> 'z cons_st_scheme \<Rightarrow> (int \<times> byte list, 'z cons_st_scheme) res" where
  "readi ip off n s =
    (let x = inodes s ! ip in
     if i_type x = T_DEV then
       (if sint (i_major x) < 0 \<or> sint (i_major x) \<ge> NDEV \<or> devsw_read s ! nat (sint (i_major x)) = Dev_none
        then Ok (- 1, []) s
        else dev_read (devsw_read s ! nat (sint (i_major x))) ip (sint n) s)
     else if off > i_size x \<or> off + n < off then Ok (- 1, []) s
     else
       let n = (if off + n > i_size x then i_size x - off else n) in
       rbind (readi_loop ip off (unat n) s) (\<lambda>bs s. Ok (sint n, bs) s))"

function writei_loop :: "nat \<Rightarrow> uint \<Rightarrow> byte list \<Rightarrow> 'z cons_st_scheme \<Rightarrow> (uint, 'z cons_st_scheme) res" where
  "writei_loop ip off src s =
    (if src = [] then Ok off s
     else
       rbind (bmap ip (off div of_nat BSIZE) s) (\<lambda>a s.
       rbind (bread (i_dev (inodes s ! ip)) a s) (\<lambda>bp s.
       let m = chunk off (length src);
           s = set_data bp (splice (unat off mod BSIZE) (take m src) (b_data (bufs s ! bp))) s in
       rbind (log_write bp s) (\<lambda>_ s.
       rbind (brelse bp s) (\<lambda>_ s.
       writei_loop ip (off + of_nat m) (drop m src) s)))))"
  by pat_completeness auto
termination
  by (relation "measure (\<lambda>(ip, off, src, s). length src)") (auto intro!: diff_less chunk_positive)

definition writei :: "nat \<Rightarrow> byte list \<Rightarrow> uint \<Rightarrow> 'z cons_st_scheme \<Rightarrow> (int, 'z cons_st_scheme) res" where
  "writei ip src off s =
    (let x = inodes s ! ip; n = of_nat (length src) :: uint in
     if i_type x = T_DEV then
       (if sint (i_major x) < 0 \<or> sint (i_major x) \<ge> NDEV \<or> devsw_write s ! nat (sint (i_major x)) = Dev_none
        then Ok (- 1) s
        else dev_write (devsw_write s ! nat (sint (i_major x))) ip src s)
     else if off > i_size x \<or> off + n < off then Ok (- 1) s
     else if off + n > of_nat (MAXFILE * BSIZE) then Ok (- 1) s
     else
       rbind (writei_loop ip off src s) (\<lambda>off s.
       if n > 0 \<and> off > i_size (inodes s ! ip)
       then rbind (iupdate ip (upd_inode ip (\<lambda>x. x\<lparr>i_size := off\<rparr>) s)) (\<lambda>_ s. Ok (sint n) s)
       else Ok (sint n) s))"

subsection \<open>Directories\<close>

abbreviation "DIRSIZ \<equiv> 14 :: nat"
abbreviation "DE_SIZE \<equiv> 16 :: nat"

definition de_inum :: "byte list \<Rightarrow> ushort" where
  "de_inum de = get16 de 0"

definition de_name :: "byte list \<Rightarrow> byte list" where
  "de_name de = drop 2 de"

definition de_bytes :: "ushort \<Rightarrow> byte list \<Rightarrow> byte list" where
  "de_bytes inum name = put16 0 inum [0, 0] @ name"

definition namecmp :: "byte list \<Rightarrow> byte list \<Rightarrow> int" where
  "namecmp s t = strncmp_bytes DIRSIZ s t"

text \<open>The offsets of the entries of a directory of \<open>n\<close> bytes.\<close>

definition de_offsets :: "nat \<Rightarrow> nat list" where
  "de_offsets n = map (\<lambda>k. k * DE_SIZE) [0..<(n + DE_SIZE - 1) div DE_SIZE]"

fun dirlookup_loop ::
  "nat \<Rightarrow> byte list \<Rightarrow> nat list \<Rightarrow> 'z cons_st_scheme \<Rightarrow> ((nat \<times> uint) option, 'z cons_st_scheme) res" where
  "dirlookup_loop dp name [] s = Ok None s"
| "dirlookup_loop dp name (off # offs) s =
    rbind (readi dp (of_nat off) (of_nat DE_SIZE) s) (\<lambda>(r, de) s.
    if r \<noteq> int DE_SIZE then Panic ''dirlookup read''
    else if de_inum de = 0 then dirlookup_loop dp name offs s
    else if namecmp name (de_name de) = 0 then
      rbind (iget (i_dev (inodes s ! dp)) (ucast (de_inum de)) s) (\<lambda>ip s. Ok (Some (ip, of_nat off)) s)
    else dirlookup_loop dp name offs s)"

definition dirlookup :: "nat \<Rightarrow> byte list \<Rightarrow> 'z cons_st_scheme \<Rightarrow> ((nat \<times> uint) option, 'z cons_st_scheme) res" where
  "dirlookup dp name s =
    (if i_type (inodes s ! dp) \<noteq> T_DIR then Panic ''dirlookup not DIR''
     else dirlookup_loop dp name (de_offsets (unat (i_size (inodes s ! dp)))) s)"

text \<open>The first entry that is free, or the end of the directory.\<close>

fun dirlink_slot :: "nat \<Rightarrow> nat list \<Rightarrow> nat \<Rightarrow> 'z cons_st_scheme \<Rightarrow> (nat, 'z cons_st_scheme) res" where
  "dirlink_slot dp [] final s = Ok final s"
| "dirlink_slot dp (off # offs) final s =
    rbind (readi dp (of_nat off) (of_nat DE_SIZE) s) (\<lambda>(r, de) s.
    if r \<noteq> int DE_SIZE then Panic ''dirlink read''
    else if de_inum de = 0 then Ok off s
    else dirlink_slot dp offs final s)"

definition dirlink :: "nat \<Rightarrow> byte list \<Rightarrow> uint \<Rightarrow> 'z cons_st_scheme \<Rightarrow> (int, 'z cons_st_scheme) res" where
  "dirlink dp name inum s =
    rbind (dirlookup dp name s) (\<lambda>r s.
    case r of
      Some (ip, _) \<Rightarrow> rbind (iput ip s) (\<lambda>_ s. Ok (- 1) s)
    | None \<Rightarrow>
        let n = unat (i_size (inodes s ! dp)) in
        rbind (dirlink_slot dp (de_offsets n) (DE_SIZE * ((n + DE_SIZE - 1) div DE_SIZE)) s) (\<lambda>off s.
        rbind (writei dp (de_bytes (ucast inum) (strncpy_bytes DIRSIZ name)) (of_nat off) s) (\<lambda>r s.
        if r \<noteq> int DE_SIZE then Panic ''dirlink'' else Ok 0 s)))"

subsection \<open>Paths\<close>

abbreviation "SLASH \<equiv> 0x2f :: byte"

definition skipelem :: "byte list \<Rightarrow> byte list \<Rightarrow> (byte list \<times> byte list) option" where
  "skipelem path name =
    (let path = dropWhile (\<lambda>c. c = SLASH) path in
     if path = [] then None
     else
       let e = takeWhile (\<lambda>c. c \<noteq> SLASH) path;
           rest = dropWhile (\<lambda>c. c \<noteq> SLASH) path;
           len = length e;
           name = (if len \<ge> DIRSIZ then take DIRSIZ e else e @ [0] @ drop (len + 1) name)
       in Some (dropWhile (\<lambda>c. c = SLASH) rest, name))"

lemma skipelem_shorter: "skipelem path name = Some (path', name') \<Longrightarrow> length path' < length path"
proof -
  assume a: "skipelem path name = Some (path', name')"
  let ?p = "dropWhile (\<lambda>c. c = SLASH) path"
  have ne: "?p \<noteq> []" and p': "path' = dropWhile (\<lambda>c. c = SLASH) (dropWhile (\<lambda>c. c \<noteq> SLASH) ?p)"
    using a by (auto simp: skipelem_def Let_def split: if_splits)
  have "hd ?p \<noteq> SLASH" using hd_dropWhile [OF ne] by simp
  then have "length (dropWhile (\<lambda>c. c \<noteq> SLASH) ?p) < length ?p"
    using ne by (cases ?p) (auto intro: le_imp_less_Suc length_dropWhile_le)
  moreover have "length path' \<le> length (dropWhile (\<lambda>c. c \<noteq> SLASH) ?p)" and "length ?p \<le> length path"
    by (simp_all add: p' length_dropWhile_le)
  ultimately show ?thesis by simp
qed

text \<open>The loop of \<open>namex\<close>; the result carries the name buffer, in which \<open>nameiparent\<close> returns the last element.\<close>

function namex_loop ::
  "bool \<Rightarrow> nat \<Rightarrow> byte list \<Rightarrow> byte list \<Rightarrow> 'z cons_st_scheme \<Rightarrow> (nat option \<times> byte list, 'z cons_st_scheme) res" where
  "namex_loop parent ip path name s =
    (case skipelem path name of
       None \<Rightarrow>
         if parent then rbind (iput ip s) (\<lambda>_ s. Ok (None, name) s) else Ok (Some ip, name) s
     | Some (path', name') \<Rightarrow>
         rbind (ilock ip s) (\<lambda>_ s.
         if i_type (inodes s ! ip) \<noteq> T_DIR then rbind (iunlockput ip s) (\<lambda>_ s. Ok (None, name') s)
         else if parent \<and> path' = [] then rbind (iunlock ip s) (\<lambda>_ s. Ok (Some ip, name') s)
         else
           rbind (dirlookup ip name' s) (\<lambda>nxt s.
           case nxt of
             None \<Rightarrow> rbind (iunlockput ip s) (\<lambda>_ s. Ok (None, name') s)
           | Some (nxt, _) \<Rightarrow>
               rbind (iunlockput ip s) (\<lambda>_ s. namex_loop parent nxt path' name' s))))"
  by pat_completeness auto
termination
  by (relation "measure (\<lambda>(parent, ip, path, name, s). length path)") (auto intro: skipelem_shorter)

definition namex :: "byte list \<Rightarrow> bool \<Rightarrow> byte list \<Rightarrow> 'z cons_st_scheme \<Rightarrow> (nat option \<times> byte list, 'z cons_st_scheme) res" where
  "namex path parent name s =
    rbind (if path \<noteq> [] \<and> hd path = SLASH then iget ROOTDEV ROOTINO s
           else case curp s of None \<Rightarrow> Panic ''null dereference''
             | Some i \<Rightarrow> (case p_cwd (procs s ! i) of None \<Rightarrow> Panic ''null dereference'' | Some cwd \<Rightarrow> idup cwd s))
      (\<lambda>ip s. namex_loop parent ip path name s)"

definition namei :: "byte list \<Rightarrow> 'z cons_st_scheme \<Rightarrow> (nat option, 'z cons_st_scheme) res" where
  "namei path s = rbind (namex path False (replicate DIRSIZ 0) s) (\<lambda>(r, _) s. Ok r s)"

definition nameiparent :: "byte list \<Rightarrow> byte list \<Rightarrow> 'z cons_st_scheme \<Rightarrow> (nat option \<times> byte list, 'z cons_st_scheme) res" where
  "nameiparent path name s = namex path True name s"

end
