(* ===== verification/Xv6_File.thy ===== *)
theory Xv6_File
  imports Xv6_Fs
begin

text \<open>
  Open files (file.c) and pipes (pipe.c).  A file pointer is an index into \<open>ftable\<close>.  A pipe
  occupies a page from the page allocator; \<open>pipes\<close> gives the structure at that address.
\<close>

datatype filetype = FD_NONE | FD_PIPE | FD_INODE

record file_t =
  f_type :: filetype
  f_ref :: int
  f_readable :: bool
  f_writable :: bool
  f_pipe :: addr
  f_ip :: nat
  f_off :: uint

abbreviation "PIPESIZE \<equiv> 512 :: uint"
abbreviation "NFILE \<equiv> 100 :: nat"

record pipe =
  pp_data :: "byte list"
  pp_nread :: uint
  pp_nwrite :: uint
  pp_readopen :: bool
  pp_writeopen :: bool

record file_st = cons_st +
  ftable :: "file_t list"
  pipes :: "addr \<Rightarrow> pipe"

definition upd_file :: "nat \<Rightarrow> (file_t \<Rightarrow> file_t) \<Rightarrow> 'z file_st_scheme \<Rightarrow> 'z file_st_scheme" where
  "upd_file f g s = s\<lparr>ftable := (ftable s)[f := g (ftable s ! f)]\<rparr>"

definition upd_pipe :: "addr \<Rightarrow> (pipe \<Rightarrow> pipe) \<Rightarrow> 'z file_st_scheme \<Rightarrow> 'z file_st_scheme" where
  "upd_pipe p g s = s\<lparr>pipes := (pipes s)(p := g (pipes s p))\<rparr>"

subsection \<open>Pipes\<close>

definition pipeclose :: "addr \<Rightarrow> bool \<Rightarrow> 'z file_st_scheme \<Rightarrow> (unit, 'z file_st_scheme) res" where
  "pipeclose p writable s =
    rbind (acquire (L_pipe p) s) (\<lambda>_ s.
    rbind (if writable then wakeup (Ch_nread p) (upd_pipe p (\<lambda>x. x\<lparr>pp_writeopen := False\<rparr>) s)
           else wakeup (Ch_nwrite p) (upd_pipe p (\<lambda>x. x\<lparr>pp_readopen := False\<rparr>) s)) (\<lambda>_ s.
    if \<not> pp_readopen (pipes s p) \<and> \<not> pp_writeopen (pipes s p)
    then rbind (release (L_pipe p) s) (\<lambda>_ s. kfree p s)
    else release (L_pipe p) s))"

text \<open>One byte into, and one byte out of, the ring.\<close>

definition pipe_put :: "byte \<Rightarrow> pipe \<Rightarrow> pipe" where
  "pipe_put b x = x\<lparr>pp_data := (pp_data x)[unat (pp_nwrite x mod PIPESIZE) := b], pp_nwrite := pp_nwrite x + 1\<rparr>"

definition pipe_full :: "pipe \<Rightarrow> bool" where
  "pipe_full x \<longleftrightarrow> pp_nwrite x = pp_nread x + PIPESIZE"

definition pipe_head :: "pipe \<Rightarrow> byte" where
  "pipe_head x = pp_data x ! unat (pp_nread x mod PIPESIZE)"

definition pipe_get :: "pipe \<Rightarrow> pipe" where
  "pipe_get x = x\<lparr>pp_nread := pp_nread x + 1\<rparr>"

text \<open>The copying loop; the result says whether every byte was written.\<close>

fun pipewrite_loop :: "addr \<Rightarrow> byte list \<Rightarrow> 'z file_st_scheme \<Rightarrow> (bool, 'z file_st_scheme) res" where
  "pipewrite_loop p [] s = Ok True s"
| "pipewrite_loop p (b # bs) s =
    (if pipe_full (pipes s p) then
       (case curp s of None \<Rightarrow> Panic ''null dereference''
        | Some i \<Rightarrow>
          if \<not> pp_readopen (pipes s p) \<or> p_killed (procs s ! i) then Ok False s
          else rbind (wakeup (Ch_nread p) s) (\<lambda>_ s. sleep (Ch_nwrite p) (L_pipe p) s))
     else pipewrite_loop p bs (upd_pipe p (pipe_put b) s))"

definition pipewrite :: "addr \<Rightarrow> byte list \<Rightarrow> 'z file_st_scheme \<Rightarrow> (int, 'z file_st_scheme) res" where
  "pipewrite p bs s =
    rbind (acquire (L_pipe p) s) (\<lambda>_ s.
    rbind (pipewrite_loop p bs s) (\<lambda>ok s.
    if \<not> ok then rbind (release (L_pipe p) s) (\<lambda>_ s. Ok (- 1) s)
    else
      rbind (wakeup (Ch_nread p) s) (\<lambda>_ s.
      rbind (release (L_pipe p) s) (\<lambda>_ s. Ok (int (length bs)) s))))"

fun piperead_loop :: "addr \<Rightarrow> nat \<Rightarrow> 'z file_st_scheme \<Rightarrow> byte list \<times> 'z file_st_scheme" where
  "piperead_loop p 0 s = ([], s)"
| "piperead_loop p (Suc n) s =
    (if pp_nread (pipes s p) = pp_nwrite (pipes s p) then ([], s)
     else
       let b = pipe_head (pipes s p); (bs, s) = piperead_loop p n (upd_pipe p pipe_get s)
       in (b # bs, s))"

definition piperead :: "addr \<Rightarrow> int \<Rightarrow> 'z file_st_scheme \<Rightarrow> (int \<times> byte list, 'z file_st_scheme) res" where
  "piperead p n s =
    rbind (acquire (L_pipe p) s) (\<lambda>_ s.
    if pp_nread (pipes s p) = pp_nwrite (pipes s p) \<and> pp_writeopen (pipes s p) then
      (case curp s of None \<Rightarrow> Panic ''null dereference''
       | Some i \<Rightarrow>
         if p_killed (procs s ! i) then rbind (release (L_pipe p) s) (\<lambda>_ s. Ok (- 1, []) s)
         else sleep (Ch_nread p) (L_pipe p) s)
    else
      let (bs, s) = piperead_loop p (nat n) s in
      rbind (wakeup (Ch_nwrite p) s) (\<lambda>_ s.
      rbind (release (L_pipe p) s) (\<lambda>_ s. Ok (int (length bs), bs) s)))"

subsection \<open>The file table\<close>

definition fileinit :: "'z file_st_scheme \<Rightarrow> 'z file_st_scheme" where
  "fileinit s = initlock L_ftable s"

definition filealloc :: "'z file_st_scheme \<Rightarrow> (nat option, 'z file_st_scheme) res" where
  "filealloc s =
    rbind (acquire L_ftable s) (\<lambda>_ s.
    let s = sti s in
    case scan (\<lambda>x. f_ref x = 0) (ftable s) of
      Some f \<Rightarrow>
        let s = upd_file f (\<lambda>x. x\<lparr>f_ref := 1\<rparr>) s; s = cli s in
        rbind (release L_ftable s) (\<lambda>_ s. Ok (Some f) s)
    | None \<Rightarrow> let s = cli s in rbind (release L_ftable s) (\<lambda>_ s. Ok None s))"

definition filedup :: "nat \<Rightarrow> 'z file_st_scheme \<Rightarrow> (nat, 'z file_st_scheme) res" where
  "filedup f s =
    rbind (acquire L_ftable s) (\<lambda>_ s.
    if f_ref (ftable s ! f) < 1 then Panic ''filedup''
    else
      let s = upd_file f (\<lambda>x. x\<lparr>f_ref := f_ref x + 1\<rparr>) s in
      rbind (release L_ftable s) (\<lambda>_ s. Ok f s))"

definition fileclose :: "nat \<Rightarrow> 'z file_st_scheme \<Rightarrow> (unit, 'z file_st_scheme) res" where
  "fileclose f s =
    rbind (acquire L_ftable s) (\<lambda>_ s.
    if f_ref (ftable s ! f) < 1 then Panic ''fileclose''
    else
      let s = upd_file f (\<lambda>x. x\<lparr>f_ref := f_ref x - 1\<rparr>) s in
      if f_ref (ftable s ! f) > 0 then release L_ftable s
      else
        let ff = ftable s ! f; s = upd_file f (\<lambda>x. x\<lparr>f_ref := 0, f_type := FD_NONE\<rparr>) s in
        rbind (release L_ftable s) (\<lambda>_ s.
        case f_type ff of
          FD_PIPE \<Rightarrow> pipeclose (f_pipe ff) (f_writable ff) s
        | FD_INODE \<Rightarrow> rbind (begin_op s) (\<lambda>_ s. rbind (iput (f_ip ff) s) (\<lambda>_ s. end_op s))
        | FD_NONE \<Rightarrow> Ok () s))"

definition filestat :: "nat \<Rightarrow> 'z file_st_scheme \<Rightarrow> (stat option, 'z file_st_scheme) res" where
  "filestat f s =
    (let ff = ftable s ! f in
     if f_type ff = FD_INODE then
       rbind (ilock (f_ip ff) s) (\<lambda>_ s.
       let st = stati (f_ip ff) s in
       rbind (iunlock (f_ip ff) s) (\<lambda>_ s. Ok (Some st) s))
     else Ok None s)"

definition fileread :: "nat \<Rightarrow> int \<Rightarrow> 'z file_st_scheme \<Rightarrow> (int \<times> byte list, 'z file_st_scheme) res" where
  "fileread f n s =
    (let ff = ftable s ! f in
     if \<not> f_readable ff then Ok (- 1, []) s
     else case f_type ff of
       FD_PIPE \<Rightarrow> piperead (f_pipe ff) n s
     | FD_INODE \<Rightarrow>
         rbind (ilock (f_ip ff) s) (\<lambda>_ s.
         rbind (readi (f_ip ff) (f_off (ftable s ! f)) (of_int n) s) (\<lambda>(r, bs) s.
         let s = (if r > 0 then upd_file f (\<lambda>x. x\<lparr>f_off := f_off x + of_int r\<rparr>) s else s) in
         rbind (iunlock (f_ip ff) s) (\<lambda>_ s. Ok (r, bs) s)))
     | FD_NONE \<Rightarrow> Panic ''fileread'')"

text \<open>A write goes to disk in pieces that fit a transaction: \<open>((MAXOPBLOCKS-1-1-2) / 2) * 512\<close> bytes.\<close>

definition max_write :: nat where
  "max_write = ((10 - 1 - 1 - 2) div 2) * 512"

function filewrite_loop :: "nat \<Rightarrow> nat \<Rightarrow> byte list \<Rightarrow> 'z file_st_scheme \<Rightarrow> (bool, 'z file_st_scheme) res" where
  "filewrite_loop f ip bs s =
    (if bs = [] then Ok True s
     else
       let n1 = min (length bs) max_write in
       rbind (begin_op s) (\<lambda>_ s.
       rbind (ilock ip s) (\<lambda>_ s.
       rbind (writei ip (take n1 bs) (f_off (ftable s ! f)) s) (\<lambda>r s.
       let s = (if r > 0 then upd_file f (\<lambda>x. x\<lparr>f_off := f_off x + of_int r\<rparr>) s else s) in
       rbind (iunlock ip s) (\<lambda>_ s.
       rbind (end_op s) (\<lambda>_ s.
       if r < 0 then Ok False s
       else if r \<noteq> int n1 then Panic ''short filewrite''
       else filewrite_loop f ip (drop n1 bs) s))))))"
  by pat_completeness auto
termination
  by (relation "measure (\<lambda>(f, ip, bs, s). length bs)") (auto simp: max_write_def)

definition filewrite :: "nat \<Rightarrow> byte list \<Rightarrow> 'z file_st_scheme \<Rightarrow> (int, 'z file_st_scheme) res" where
  "filewrite f bs s =
    (let ff = ftable s ! f in
     if \<not> f_writable ff then Ok (- 1) s
     else case f_type ff of
       FD_PIPE \<Rightarrow> pipewrite (f_pipe ff) bs s
     | FD_INODE \<Rightarrow>
         rbind (filewrite_loop f (f_ip ff) bs s) (\<lambda>ok s. Ok (if ok then int (length bs) else - 1) s)
     | FD_NONE \<Rightarrow> Panic ''filewrite'')"

subsection \<open>Making a pipe\<close>

definition close_opt :: "nat option \<Rightarrow> 'z file_st_scheme \<Rightarrow> (unit, 'z file_st_scheme) res" where
  "close_opt f s = (case f of None \<Rightarrow> Ok () s | Some f \<Rightarrow> fileclose f s)"

definition pipealloc_bad ::
  "addr \<Rightarrow> nat option \<Rightarrow> nat option \<Rightarrow> 'z file_st_scheme \<Rightarrow> ((nat \<times> nat) option, 'z file_st_scheme) res" where
  "pipealloc_bad p f0 f1 s =
    rbind (if p \<noteq> 0 then kfree p s else Ok () s) (\<lambda>_ s.
    rbind (close_opt f0 s) (\<lambda>_ s.
    rbind (close_opt f1 s) (\<lambda>_ s. Ok None s)))"

definition pipealloc :: "'z file_st_scheme \<Rightarrow> ((nat \<times> nat) option, 'z file_st_scheme) res" where
  "pipealloc s =
    rbind (filealloc s) (\<lambda>f0 s.
    case f0 of
      None \<Rightarrow> pipealloc_bad 0 None None s
    | Some r \<Rightarrow>
        rbind (filealloc s) (\<lambda>f1 s.
        case f1 of
          None \<Rightarrow> pipealloc_bad 0 f0 None s
        | Some w \<Rightarrow>
            rbind (kalloc s) (\<lambda>p s.
            if p = 0 then pipealloc_bad 0 f0 f1 s
            else
              let s = upd_pipe p (\<lambda>x. x\<lparr>pp_readopen := True, pp_writeopen := True, pp_nwrite := 0, pp_nread := 0\<rparr>) s;
                  s = initlock (L_pipe p) s;
                  s = upd_file r (\<lambda>x. x\<lparr>f_type := FD_PIPE, f_readable := True, f_writable := False, f_pipe := p\<rparr>) s;
                  s = upd_file w (\<lambda>x. x\<lparr>f_type := FD_PIPE, f_readable := False, f_writable := True, f_pipe := p\<rparr>) s
              in Ok (Some (r, w)) s)))"

end
