(* ===== verification/Xv6_User.thy ===== *)
theory Xv6_User
  imports Xv6_File
begin

text \<open>
  How the kernel reads and writes user memory and system-call arguments (syscall.c).  The kernel
  uses user addresses directly, through the current page table; an access to an absent page
  faults in kernel mode and is served by the page-fault case of \<open>trap\<close> (trap.c), which adds a
  zeroed page.
\<close>

subsection \<open>Page faults\<close>

text \<open>
  The \<open>T_PGFLT\<close> case of \<open>trap\<close> for fault address \<open>va\<close> (register cr2): the result says whether it
  reaches its \<open>break\<close>, that is, whether a page was added.  It prints a message otherwise.
\<close>

definition pgflt :: "addr \<Rightarrow> 'z file_st_scheme \<Rightarrow> (bool, 'z file_st_scheme) res" where
  "pgflt va s =
    rbind (kalloc s) (\<lambda>page s.
    if page = 0 then Ok False s
    else
      let s = s\<lparr>mem := memset (mem s) page 0 PGSIZE\<rparr> in
      case curp s of None \<Rightarrow> Panic ''null dereference''
      | Some i \<Rightarrow>
        rbind (mappages (p_pgdir (procs s ! i)) (PGROUNDDOWN va) PGSIZE (V2P page) (PTE_W OR PTE_U) s) (\<lambda>r s.
        if r < 0 then rbind (kfree page s) (\<lambda>_ s. Ok False s) else Ok True s))"

text \<open>
  The kernel address behind user address \<open>va\<close>.  When the handler returns without adding a page
  the instruction faults again, forever.
\<close>

definition user_addr :: "addr \<Rightarrow> 'z file_st_scheme \<Rightarrow> (addr, 'z file_st_scheme) res" where
  "user_addr va s =
    (case mmu (P2V (cr3 s)) (mem s) va of
       Some ka \<Rightarrow> Ok ka s
     | None \<Rightarrow>
       rbind (pgflt va s) (\<lambda>added s.
       case mmu (P2V (cr3 s)) (mem s) va of
         Some ka \<Rightarrow> Ok ka s
       | None \<Rightarrow> Panic ''endless page fault''))"

fun load_user :: "addr \<Rightarrow> nat \<Rightarrow> 'z file_st_scheme \<Rightarrow> (byte list, 'z file_st_scheme) res" where
  "load_user va 0 s = Ok [] s"
| "load_user va (Suc n) s =
    rbind (user_addr va s) (\<lambda>ka s.
    rbind (load_user (va + 1) n s) (\<lambda>bs s. Ok (mem s ka # bs) s))"

fun store_user :: "addr \<Rightarrow> byte list \<Rightarrow> 'z file_st_scheme \<Rightarrow> (unit, 'z file_st_scheme) res" where
  "store_user va [] s = Ok () s"
| "store_user va (b # bs) s =
    rbind (user_addr va s) (\<lambda>ka s. store_user (va + 1) bs (s\<lparr>mem := (mem s)(ka := b)\<rparr>))"

definition word_bytes :: "uint \<Rightarrow> byte list" where
  "word_bytes w = put32 0 w [0, 0, 0, 0]"

subsection \<open>Arguments\<close>

definition cur :: "'z file_st_scheme \<Rightarrow> (nat, 'z file_st_scheme) res" where
  "cur s = (case curp s of None \<Rightarrow> Panic ''null dereference'' | Some i \<Rightarrow> Ok i s)"

text \<open>Fields of the trap frame that is saved on the kernel stack.\<close>

abbreviation "TF_EAX \<equiv> 28 :: uint"
abbreviation "TF_TRAPNO \<equiv> 48 :: uint"
abbreviation "TF_ERR \<equiv> 52 :: uint"
abbreviation "TF_EIP \<equiv> 56 :: uint"
abbreviation "TF_CS \<equiv> 60 :: uint"
abbreviation "TF_EFLAGS \<equiv> 64 :: uint"
abbreviation "TF_ESP \<equiv> 68 :: uint"
abbreviation "TF_SS \<equiv> 72 :: uint"
abbreviation "TF_SIZE \<equiv> 76 :: nat"

definition fetchint :: "uint \<Rightarrow> 'z file_st_scheme \<Rightarrow> (uint option, 'z file_st_scheme) res" where
  "fetchint a s =
    rbind (cur s) (\<lambda>i s.
    let sz = p_sz (procs s ! i) in
    if a \<ge> sz \<or> a + 4 > sz then Ok None s
    else rbind (load_user a 4 s) (\<lambda>bs s. Ok (Some (get32 bs 0)) s))"

fun fetchstr_loop :: "addr \<Rightarrow> nat \<Rightarrow> 'z file_st_scheme \<Rightarrow> (byte list option, 'z file_st_scheme) res" where
  "fetchstr_loop a 0 s = Ok None s"
| "fetchstr_loop a (Suc k) s =
    rbind (user_addr a s) (\<lambda>ka s.
    if mem s ka = 0 then Ok (Some []) s
    else rbind (fetchstr_loop (a + 1) k s) (\<lambda>r s. Ok (map_option ((#) (mem s ka)) r) s))"

text \<open>The model returns the string itself, the code a pointer to it and its length.\<close>

definition fetchstr :: "uint \<Rightarrow> 'z file_st_scheme \<Rightarrow> (byte list option, 'z file_st_scheme) res" where
  "fetchstr a s =
    rbind (cur s) (\<lambda>i s.
    let sz = p_sz (procs s ! i) in
    if a \<ge> sz then Ok None s else fetchstr_loop a (unat (sz - a)) s)"

definition argint :: "uint \<Rightarrow> 'z file_st_scheme \<Rightarrow> (uint option, 'z file_st_scheme) res" where
  "argint n s =
    rbind (cur s) (\<lambda>i s. fetchint (ld32 (mem s) (p_tf (procs s ! i) + TF_ESP) + 4 + 4 * n) s)"

definition ptr_ok :: "uint \<Rightarrow> int \<Rightarrow> uint \<Rightarrow> bool" where
  "ptr_ok a n sz \<longleftrightarrow> \<not> (n < 0 \<or> a \<ge> sz \<or> a + of_int n > sz)"

definition argptr :: "uint \<Rightarrow> int \<Rightarrow> 'z file_st_scheme \<Rightarrow> (addr option, 'z file_st_scheme) res" where
  "argptr n sz s =
    rbind (cur s) (\<lambda>i s.
    rbind (argint n s) (\<lambda>a s.
    case a of None \<Rightarrow> Ok None s
    | Some a \<Rightarrow> Ok (if ptr_ok a sz (p_sz (procs s ! i)) then Some a else None) s))"

definition argstr :: "uint \<Rightarrow> 'z file_st_scheme \<Rightarrow> (byte list option, 'z file_st_scheme) res" where
  "argstr n s =
    rbind (argint n s) (\<lambda>a s. case a of None \<Rightarrow> Ok None s | Some a \<Rightarrow> fetchstr a s)"

end
