(* ===== verification/Xv6_Sysfile.thy ===== *)
theory Xv6_Sysfile
  imports Xv6_User
begin

text \<open>
  The file-system calls (sysfile.c) except \<open>sys_exec\<close>, which is with \<open>exec\<close>.  Each returns the
  C result; arguments come from the user stack.
\<close>

subsection \<open>Descriptors\<close>

definition argfd :: "uint \<Rightarrow> 'z file_st_scheme \<Rightarrow> ((nat \<times> nat) option, 'z file_st_scheme) res" where
  "argfd n s =
    rbind (argint n s) (\<lambda>a s.
    case a of None \<Rightarrow> Ok None s
    | Some fd \<Rightarrow>
        rbind (cur s) (\<lambda>i s.
        if sint fd < 0 \<or> sint fd \<ge> int NOFILE then Ok None s
        else case p_ofile (procs s ! i) ! nat (sint fd) of
          None \<Rightarrow> Ok None s
        | Some f \<Rightarrow> Ok (Some (nat (sint fd), f)) s))"

definition set_ofile :: "nat \<Rightarrow> nat \<Rightarrow> nat option \<Rightarrow> 'z file_st_scheme \<Rightarrow> 'z file_st_scheme" where
  "set_ofile i fd f s = upd_proc i (\<lambda>p. p\<lparr>p_ofile := (p_ofile p)[fd := f]\<rparr>) s"

definition fdalloc :: "nat \<Rightarrow> 'z file_st_scheme \<Rightarrow> (nat option, 'z file_st_scheme) res" where
  "fdalloc f s =
    rbind (cur s) (\<lambda>i s.
    case scan (\<lambda>x. x = None) (p_ofile (procs s ! i)) of
      None \<Rightarrow> Ok None s
    | Some fd \<Rightarrow> Ok (Some fd) (set_ofile i fd (Some f) s))"

definition sys_dup :: "'z file_st_scheme \<Rightarrow> (int, 'z file_st_scheme) res" where
  "sys_dup s =
    rbind (argfd 0 s) (\<lambda>r s.
    case r of None \<Rightarrow> Ok (- 1) s
    | Some (_, f) \<Rightarrow>
        rbind (fdalloc f s) (\<lambda>r s.
        case r of None \<Rightarrow> Ok (- 1) s
        | Some fd \<Rightarrow> rbind (filedup f s) (\<lambda>_ s. Ok (int fd) s)))"

text \<open>The arguments of \<open>read\<close> and \<open>write\<close>: file, buffer and count.\<close>

definition rw_args :: "'z file_st_scheme \<Rightarrow> ((nat \<times> addr \<times> int) option, 'z file_st_scheme) res" where
  "rw_args s =
    rbind (argfd 0 s) (\<lambda>r s.
    case r of None \<Rightarrow> Ok None s
    | Some (_, f) \<Rightarrow>
        rbind (argint 2 s) (\<lambda>n s.
        case n of None \<Rightarrow> Ok None s
        | Some n \<Rightarrow>
            rbind (argptr 1 (sint n) s) (\<lambda>p s.
            case p of None \<Rightarrow> Ok None s | Some p \<Rightarrow> Ok (Some (f, p, sint n)) s)))"

definition sys_read :: "'z file_st_scheme \<Rightarrow> (int, 'z file_st_scheme) res" where
  "sys_read s =
    rbind (rw_args s) (\<lambda>a s.
    case a of None \<Rightarrow> Ok (- 1) s
    | Some (f, p, n) \<Rightarrow>
        rbind (fileread f n s) (\<lambda>(r, bs) s.
        rbind (store_user p bs s) (\<lambda>_ s. Ok r s)))"

definition sys_write :: "'z file_st_scheme \<Rightarrow> (int, 'z file_st_scheme) res" where
  "sys_write s =
    rbind (rw_args s) (\<lambda>a s.
    case a of None \<Rightarrow> Ok (- 1) s
    | Some (f, p, n) \<Rightarrow> rbind (load_user p (nat n) s) (\<lambda>bs s. filewrite f bs s))"

definition sys_close :: "'z file_st_scheme \<Rightarrow> (int, 'z file_st_scheme) res" where
  "sys_close s =
    rbind (argfd 0 s) (\<lambda>r s.
    case r of None \<Rightarrow> Ok (- 1) s
    | Some (fd, f) \<Rightarrow>
        rbind (cur s) (\<lambda>i s.
        rbind (fileclose f (set_ofile i fd None s)) (\<lambda>_ s. Ok 0 s)))"

text \<open>\<open>struct stat\<close> in memory: 20 bytes, the two bytes of padding after \<open>type\<close> and \<open>nlink\<close> untouched.\<close>

definition store_stat :: "addr \<Rightarrow> stat \<Rightarrow> 'z file_st_scheme \<Rightarrow> (unit, 'z file_st_scheme) res" where
  "store_stat a st s =
    rbind (store_user (a + 4) (word_bytes (st_dev st)) s) (\<lambda>_ s.
    rbind (store_user (a + 8) (word_bytes (st_ino st)) s) (\<lambda>_ s.
    rbind (store_user a (put16 0 (st_type st) [0, 0]) s) (\<lambda>_ s.
    rbind (store_user (a + 12) (put16 0 (st_nlink st) [0, 0]) s) (\<lambda>_ s.
    store_user (a + 16) (word_bytes (st_size st)) s))))"

definition sys_fstat :: "'z file_st_scheme \<Rightarrow> (int, 'z file_st_scheme) res" where
  "sys_fstat s =
    rbind (argfd 0 s) (\<lambda>r s.
    case r of None \<Rightarrow> Ok (- 1) s
    | Some (_, f) \<Rightarrow>
        rbind (argptr 1 20 s) (\<lambda>p s.
        case p of None \<Rightarrow> Ok (- 1) s
        | Some p \<Rightarrow>
            rbind (filestat f s) (\<lambda>st s.
            case st of None \<Rightarrow> Ok (- 1) s
            | Some st \<Rightarrow> rbind (store_stat p st s) (\<lambda>_ s. Ok 0 s))))"

subsection \<open>Links and directories\<close>

definition add_nlink :: "int \<Rightarrow> nat \<Rightarrow> 'z file_st_scheme \<Rightarrow> 'z file_st_scheme" where
  "add_nlink k ip s = upd_inode ip (\<lambda>x. x\<lparr>i_nlink := i_nlink x + of_int k\<rparr>) s"

definition end_with :: "int \<Rightarrow> 'z file_st_scheme \<Rightarrow> (int, 'z file_st_scheme) res" where
  "end_with r s = rbind (end_op s) (\<lambda>_ s. Ok r s)"

definition link_bad :: "nat \<Rightarrow> 'z file_st_scheme \<Rightarrow> (int, 'z file_st_scheme) res" where
  "link_bad ip s =
    rbind (ilock ip s) (\<lambda>_ s.
    rbind (iupdate ip (add_nlink (- 1) ip s)) (\<lambda>_ s.
    rbind (iunlockput ip s) (\<lambda>_ s. end_with (- 1) s)))"

definition sys_link :: "'z file_st_scheme \<Rightarrow> (int, 'z file_st_scheme) res" where
  "sys_link s =
    rbind (argstr 0 s) (\<lambda>old s.
    case old of None \<Rightarrow> Ok (- 1) s | Some old \<Rightarrow>
    rbind (argstr 1 s) (\<lambda>new s.
    case new of None \<Rightarrow> Ok (- 1) s | Some new \<Rightarrow>
    rbind (begin_op s) (\<lambda>_ s.
    rbind (namei old s) (\<lambda>ip s.
    case ip of None \<Rightarrow> end_with (- 1) s | Some ip \<Rightarrow>
    rbind (ilock ip s) (\<lambda>_ s.
    if i_type (inodes s ! ip) = T_DIR then rbind (iunlockput ip s) (\<lambda>_ s. end_with (- 1) s)
    else
      rbind (iupdate ip (add_nlink 1 ip s)) (\<lambda>_ s.
      rbind (iunlock ip s) (\<lambda>_ s.
      rbind (nameiparent new (replicate DIRSIZ 0) s) (\<lambda>(dp, name) s.
      case dp of None \<Rightarrow> link_bad ip s | Some dp \<Rightarrow>
      rbind (ilock dp s) (\<lambda>_ s.
      rbind (if i_dev (inodes s ! dp) \<noteq> i_dev (inodes s ! ip) then Ok (- 1) s
             else dirlink dp name (i_inum (inodes s ! ip)) s) (\<lambda>r s.
      if r < 0 then rbind (iunlockput dp s) (\<lambda>_ s. link_bad ip s)
      else
        rbind (iunlockput dp s) (\<lambda>_ s.
        rbind (iput ip s) (\<lambda>_ s. end_with 0 s))))))))))))"

fun isdirempty_loop :: "nat \<Rightarrow> nat list \<Rightarrow> 'z file_st_scheme \<Rightarrow> (bool, 'z file_st_scheme) res" where
  "isdirempty_loop dp [] s = Ok True s"
| "isdirempty_loop dp (off # offs) s =
    rbind (readi dp (of_nat off) (of_nat DE_SIZE) s) (\<lambda>(r, de) s.
    if r \<noteq> int DE_SIZE then Panic ''isdirempty: readi''
    else if de_inum de \<noteq> 0 then Ok False s
    else isdirempty_loop dp offs s)"

definition isdirempty :: "nat \<Rightarrow> 'z file_st_scheme \<Rightarrow> (bool, 'z file_st_scheme) res" where
  "isdirempty dp s = isdirempty_loop dp (drop 2 (de_offsets (unat (i_size (inodes s ! dp))))) s"

definition dot :: "byte list" where "dot = [0x2e, 0]"
definition dotdot :: "byte list" where "dotdot = [0x2e, 0x2e, 0]"

definition unlink_bad :: "nat \<Rightarrow> 'z file_st_scheme \<Rightarrow> (int, 'z file_st_scheme) res" where
  "unlink_bad dp s = rbind (iunlockput dp s) (\<lambda>_ s. end_with (- 1) s)"

definition sys_unlink :: "'z file_st_scheme \<Rightarrow> (int, 'z file_st_scheme) res" where
  "sys_unlink s =
    rbind (argstr 0 s) (\<lambda>path s.
    case path of None \<Rightarrow> Ok (- 1) s | Some path \<Rightarrow>
    rbind (begin_op s) (\<lambda>_ s.
    rbind (nameiparent path (replicate DIRSIZ 0) s) (\<lambda>(dp, name) s.
    case dp of None \<Rightarrow> end_with (- 1) s | Some dp \<Rightarrow>
    rbind (ilock dp s) (\<lambda>_ s.
    if namecmp name dot = 0 \<or> namecmp name dotdot = 0 then unlink_bad dp s
    else
      rbind (dirlookup dp name s) (\<lambda>r s.
      case r of None \<Rightarrow> unlink_bad dp s | Some (ip, off) \<Rightarrow>
      rbind (ilock ip s) (\<lambda>_ s.
      if sint (i_nlink (inodes s ! ip)) < 1 then Panic ''unlink: nlink < 1''
      else
        rbind (if i_type (inodes s ! ip) = T_DIR then isdirempty ip s else Ok True s) (\<lambda>e s.
        if \<not> e then rbind (iunlockput ip s) (\<lambda>_ s. unlink_bad dp s)
        else
          rbind (writei dp (replicate DE_SIZE 0) off s) (\<lambda>r s.
          if r \<noteq> int DE_SIZE then Panic ''unlink: writei''
          else
            rbind (if i_type (inodes s ! ip) = T_DIR then iupdate dp (add_nlink (- 1) dp s) else Ok () s) (\<lambda>_ s.
            rbind (iunlockput dp s) (\<lambda>_ s.
            rbind (iupdate ip (add_nlink (- 1) ip s)) (\<lambda>_ s.
            rbind (iunlockput ip s) (\<lambda>_ s. end_with 0 s))))))))))))"

definition create :: "byte list \<Rightarrow> ushort \<Rightarrow> ushort \<Rightarrow> ushort \<Rightarrow> 'z file_st_scheme \<Rightarrow> (nat option, 'z file_st_scheme) res" where
  "create path ty major minor s =
    rbind (nameiparent path (replicate DIRSIZ 0) s) (\<lambda>(dp, name) s.
    case dp of None \<Rightarrow> Ok None s | Some dp \<Rightarrow>
    rbind (ilock dp s) (\<lambda>_ s.
    rbind (dirlookup dp name s) (\<lambda>r s.
    case r of
      Some (ip, _) \<Rightarrow>
        rbind (iunlockput dp s) (\<lambda>_ s.
        rbind (ilock ip s) (\<lambda>_ s.
        if ty = T_FILE \<and> i_type (inodes s ! ip) = T_FILE then Ok (Some ip) s
        else rbind (iunlockput ip s) (\<lambda>_ s. Ok None s)))
    | None \<Rightarrow>
        rbind (ialloc (i_dev (inodes s ! dp)) ty s) (\<lambda>ip s.
        rbind (ilock ip s) (\<lambda>_ s.
        let s = upd_inode ip (\<lambda>x. x\<lparr>i_major := major, i_minor := minor, i_nlink := 1\<rparr>) s in
        rbind (iupdate ip s) (\<lambda>_ s.
        rbind (if ty = T_DIR then
                 rbind (iupdate dp (add_nlink 1 dp s)) (\<lambda>_ s.
                 rbind (dirlink ip dot (i_inum (inodes s ! ip)) s) (\<lambda>r s.
                 if r < 0 then Panic ''create dots''
                 else
                   rbind (dirlink ip dotdot (i_inum (inodes s ! dp)) s) (\<lambda>r s.
                   if r < 0 then Panic ''create dots'' else Ok () s)))
               else Ok () s) (\<lambda>_ s.
        rbind (dirlink dp name (i_inum (inodes s ! ip)) s) (\<lambda>r s.
        if r < 0 then Panic ''create: dirlink''
        else rbind (iunlockput dp s) (\<lambda>_ s. Ok (Some ip) s))))))))) "

subsection \<open>Opening and making\<close>

abbreviation "O_RDONLY \<equiv> 0 :: uint"
abbreviation "O_WRONLY \<equiv> 1 :: uint"
abbreviation "O_RDWR \<equiv> 2 :: uint"
abbreviation "O_CREATE \<equiv> 0x200 :: uint"

text \<open>The inode \<open>open\<close> works on, locked; \<open>None\<close> after the transaction has been ended with an error.\<close>

definition open_inode :: "byte list \<Rightarrow> uint \<Rightarrow> 'z file_st_scheme \<Rightarrow> (nat option, 'z file_st_scheme) res" where
  "open_inode path omode s =
    (if omode AND O_CREATE \<noteq> 0 then
       rbind (create path T_FILE 0 0 s) (\<lambda>ip s.
       case ip of None \<Rightarrow> rbind (end_op s) (\<lambda>_ s. Ok None s) | Some ip \<Rightarrow> Ok (Some ip) s)
     else
       rbind (namei path s) (\<lambda>ip s.
       case ip of None \<Rightarrow> rbind (end_op s) (\<lambda>_ s. Ok None s) | Some ip \<Rightarrow>
       rbind (ilock ip s) (\<lambda>_ s.
       if i_type (inodes s ! ip) = T_DIR \<and> omode \<noteq> O_RDONLY
       then rbind (iunlockput ip s) (\<lambda>_ s. rbind (end_op s) (\<lambda>_ s. Ok None s))
       else Ok (Some ip) s)))"

definition sys_open :: "'z file_st_scheme \<Rightarrow> (int, 'z file_st_scheme) res" where
  "sys_open s =
    rbind (argstr 0 s) (\<lambda>path s.
    case path of None \<Rightarrow> Ok (- 1) s | Some path \<Rightarrow>
    rbind (argint 1 s) (\<lambda>omode s.
    case omode of None \<Rightarrow> Ok (- 1) s | Some omode \<Rightarrow>
    rbind (begin_op s) (\<lambda>_ s.
    rbind (open_inode path omode s) (\<lambda>ip s.
    case ip of None \<Rightarrow> Ok (- 1) s | Some ip \<Rightarrow>
    rbind (filealloc s) (\<lambda>f s.
    rbind (case f of None \<Rightarrow> Ok None s | Some f \<Rightarrow> fdalloc f s) (\<lambda>fd s.
    case (f, fd) of
      (Some f, Some fd) \<Rightarrow>
        rbind (iunlock ip s) (\<lambda>_ s.
        rbind (end_op s) (\<lambda>_ s.
        Ok (int fd) (upd_file f (\<lambda>x. x\<lparr>f_type := FD_INODE, f_ip := ip, f_off := 0,
          f_readable := (omode AND O_WRONLY = 0),
          f_writable := (omode AND O_WRONLY \<noteq> 0 \<or> omode AND O_RDWR \<noteq> 0)\<rparr>) s)))
    | _ \<Rightarrow>
        rbind (close_opt f s) (\<lambda>_ s.
        rbind (iunlockput ip s) (\<lambda>_ s. end_with (- 1) s))))))))"

definition finish_create :: "nat option \<Rightarrow> 'z file_st_scheme \<Rightarrow> (int, 'z file_st_scheme) res" where
  "finish_create ip s =
    (case ip of None \<Rightarrow> end_with (- 1) s
     | Some ip \<Rightarrow> rbind (iunlockput ip s) (\<lambda>_ s. end_with 0 s))"

definition sys_mkdir :: "'z file_st_scheme \<Rightarrow> (int, 'z file_st_scheme) res" where
  "sys_mkdir s =
    rbind (begin_op s) (\<lambda>_ s.
    rbind (argstr 0 s) (\<lambda>path s.
    case path of None \<Rightarrow> end_with (- 1) s | Some path \<Rightarrow>
    rbind (create path T_DIR 0 0 s) (\<lambda>ip s. finish_create ip s)))"

definition sys_mknod :: "'z file_st_scheme \<Rightarrow> (int, 'z file_st_scheme) res" where
  "sys_mknod s =
    rbind (begin_op s) (\<lambda>_ s.
    rbind (argstr 0 s) (\<lambda>path s.
    case path of None \<Rightarrow> end_with (- 1) s | Some path \<Rightarrow>
    rbind (argint 1 s) (\<lambda>major s.
    case major of None \<Rightarrow> end_with (- 1) s | Some major \<Rightarrow>
    rbind (argint 2 s) (\<lambda>minor s.
    case minor of None \<Rightarrow> end_with (- 1) s | Some minor \<Rightarrow>
    rbind (create path T_DEV (ucast major) (ucast minor) s) (\<lambda>ip s. finish_create ip s)))))"

definition sys_chdir :: "'z file_st_scheme \<Rightarrow> (int, 'z file_st_scheme) res" where
  "sys_chdir s =
    rbind (cur s) (\<lambda>i s.
    rbind (begin_op s) (\<lambda>_ s.
    rbind (argstr 0 s) (\<lambda>path s.
    case path of None \<Rightarrow> end_with (- 1) s | Some path \<Rightarrow>
    rbind (namei path s) (\<lambda>ip s.
    case ip of None \<Rightarrow> end_with (- 1) s | Some ip \<Rightarrow>
    rbind (ilock ip s) (\<lambda>_ s.
    if i_type (inodes s ! ip) \<noteq> T_DIR then rbind (iunlockput ip s) (\<lambda>_ s. end_with (- 1) s)
    else
      rbind (iunlock ip s) (\<lambda>_ s.
      rbind (case p_cwd (procs s ! i) of None \<Rightarrow> Panic ''null dereference'' | Some c \<Rightarrow> iput c s) (\<lambda>_ s.
      rbind (end_op s) (\<lambda>_ s.
      Ok 0 (upd_proc i (\<lambda>p. p\<lparr>p_cwd := Some ip\<rparr>) s)))))))))"

definition sys_pipe :: "'z file_st_scheme \<Rightarrow> (int, 'z file_st_scheme) res" where
  "sys_pipe s =
    rbind (argptr 0 8 s) (\<lambda>fd s.
    case fd of None \<Rightarrow> Ok (- 1) s | Some fd \<Rightarrow>
    rbind (pipealloc s) (\<lambda>r s.
    case r of None \<Rightarrow> Ok (- 1) s | Some (rfile, wfile) \<Rightarrow>
    rbind (fdalloc rfile s) (\<lambda>fd0 s.
    rbind (case fd0 of None \<Rightarrow> Ok None s | Some _ \<Rightarrow> fdalloc wfile s) (\<lambda>fd1 s.
    case (fd0, fd1) of
      (Some fd0, Some fd1) \<Rightarrow>
        rbind (store_user fd (word_bytes (of_nat fd0)) s) (\<lambda>_ s.
        rbind (store_user (fd + 4) (word_bytes (of_nat fd1)) s) (\<lambda>_ s. Ok 0 s))
    | _ \<Rightarrow>
        rbind (cur s) (\<lambda>i s.
        let s = (case fd0 of None \<Rightarrow> s | Some fd0 \<Rightarrow> set_ofile i fd0 None s) in
        rbind (fileclose rfile s) (\<lambda>_ s.
        rbind (fileclose wfile s) (\<lambda>_ s. Ok (- 1) s)))))))"

end
