(* ===== verification/Xv6_Exec.thy ===== *)
theory Xv6_Exec
  imports Xv6_Sysfile
begin

text \<open>
  Loading a program (exec.c, \<open>loaduvm\<close> of vm.c, \<open>sys_exec\<close> of sysfile.c).  The ELF headers are read
  through their layouts; argument strings are byte lists without the terminating zero.
\<close>

subsection \<open>ELF headers\<close>

abbreviation "ELF_MAGIC \<equiv> 0x464C457F :: uint"
abbreviation "ELF_SIZE \<equiv> 52 :: nat"
abbreviation "PH_SIZE \<equiv> 32 :: nat"

record elfhdr =
  elf_magic :: uint
  elf_entry :: uint
  elf_phoff :: uint
  elf_phnum :: ushort

definition elf_of :: "byte list \<Rightarrow> elfhdr" where
  "elf_of d = \<lparr>elf_magic = get32 d 0, elf_entry = get32 d 24, elf_phoff = get32 d 28, elf_phnum = get16 d 44\<rparr>"

record proghdr =
  ph_type :: uint
  ph_off :: uint
  ph_vaddr :: uint
  ph_filesz :: uint
  ph_memsz :: uint

definition ph_of :: "byte list \<Rightarrow> proghdr" where
  "ph_of d = \<lparr>ph_type = get32 d 0, ph_off = get32 d 4, ph_vaddr = get32 d 8, ph_filesz = get32 d 16, ph_memsz = get32 d 20\<rparr>"

subsection \<open>Loading segments\<close>

fun loaduvm_loop ::
  "nat \<Rightarrow> addr \<Rightarrow> addr \<Rightarrow> nat \<Rightarrow> uint \<Rightarrow> uint \<Rightarrow> uint \<Rightarrow> 'z file_st_scheme \<Rightarrow> (int, 'z file_st_scheme) res" where
  "loaduvm_loop 0 pgdir a ip offset sz i s = (if i < sz then out_of_fuel else Ok 0 s)"
| "loaduvm_loop (Suc k) pgdir a ip offset sz i s =
    (if i < sz then
       rbind (walkpgdir pgdir (a + i) False s) (\<lambda>pte s.
       if pte = 0 then Panic ''loaduvm: address should exist''
       else
         let pa = PTE_ADDR (ld32 (mem s) pte); n = (if sz - i < PGSIZE then sz - i else PGSIZE) in
         rbind (readi ip (offset + i) n s) (\<lambda>(r, bs) s.
         let s = s\<lparr>mem := mem_write (mem s) (P2V pa) bs\<rparr> in
         if of_int r \<noteq> n then Ok (- 1) s
         else loaduvm_loop k pgdir a ip offset sz (i + PGSIZE) s))
     else Ok 0 s)"

definition loaduvm :: "addr \<Rightarrow> addr \<Rightarrow> nat \<Rightarrow> uint \<Rightarrow> uint \<Rightarrow> 'z file_st_scheme \<Rightarrow> (int, 'z file_st_scheme) res" where
  "loaduvm pgdir a ip offset sz s =
    (if a mod PGSIZE \<noteq> 0 then Panic ''loaduvm: addr must be page aligned''
     else loaduvm_loop all_pages pgdir a ip offset sz 0 s)"

text \<open>The program headers, \<open>k\<close> of them from \<open>off\<close>; the result is the size loaded, or \<open>None\<close> for \<open>goto bad\<close>.\<close>

fun exec_load :: "nat \<Rightarrow> addr \<Rightarrow> nat \<Rightarrow> uint \<Rightarrow> uint \<Rightarrow> 'z file_st_scheme \<Rightarrow> (uint option, 'z file_st_scheme) res" where
  "exec_load 0 pgdir ip off sz s = Ok (Some sz) s"
| "exec_load (Suc k) pgdir ip off sz s =
    rbind (readi ip off (of_nat PH_SIZE) s) (\<lambda>(r, d) s.
    if r \<noteq> int PH_SIZE then Ok None s
    else
      let ph = ph_of d in
      if ph_type ph \<noteq> 1 then exec_load k pgdir ip (off + of_nat PH_SIZE) sz s
      else if ph_memsz ph < ph_filesz ph then Ok None s
      else if ph_vaddr ph + ph_memsz ph < ph_vaddr ph then Ok None s
      else
        rbind (allocuvm pgdir sz (ph_vaddr ph + ph_memsz ph) s) (\<lambda>sz s.
        if sz = 0 then Ok None s
        else if ph_vaddr ph mod PGSIZE \<noteq> 0 then Ok None s
        else
          rbind (loaduvm pgdir (ph_vaddr ph) ip (ph_off ph) (ph_filesz ph) s) (\<lambda>r s.
          if r < 0 then Ok None s
          else exec_load k pgdir ip (off + of_nat PH_SIZE) sz s)))"

subsection \<open>The new stack\<close>

abbreviation "MAXARG \<equiv> 32 :: nat"

definition arg_slot :: "uint \<Rightarrow> nat \<Rightarrow> uint" where
  "arg_slot sp len = (sp - (of_nat len + 1)) AND NOT 3"

text \<open>Pushing the argument strings: the final stack pointer and the addresses of the strings.\<close>

fun push_args ::
  "addr \<Rightarrow> byte list list \<Rightarrow> nat \<Rightarrow> uint \<Rightarrow> 'z file_st_scheme \<Rightarrow> ((uint \<times> uint list) option, 'z file_st_scheme) res" where
  "push_args pgdir [] argc sp s = Ok (Some (sp, [])) s"
| "push_args pgdir (str # strs) argc sp s =
    (if argc \<ge> MAXARG then Ok None s
     else
       let sp = arg_slot sp (length str) in
       rbind (copyout pgdir sp (str @ [0]) s) (\<lambda>r s.
       if r < 0 then Ok None s
       else
         rbind (push_args pgdir strs (argc + 1) sp s) (\<lambda>t s.
         Ok (map_option (\<lambda>(sp', as). (sp', sp # as)) t) s)))"

definition ustack :: "uint \<Rightarrow> uint list \<Rightarrow> uint list" where
  "ustack sp as =
    (let argc = of_nat (length as) in
     [0xffffffff, argc, sp - (argc + 1) * 4] @ as @ [0])"

definition words_bytes :: "uint list \<Rightarrow> byte list" where
  "words_bytes ws = concat (map word_bytes ws)"

definition last_elem :: "byte list \<Rightarrow> byte list" where
  "last_elem path = rev (takeWhile (\<lambda>c. c \<noteq> SLASH) (rev path))"

definition safestrcpy_bytes :: "nat \<Rightarrow> byte list \<Rightarrow> byte list \<Rightarrow> byte list" where
  "safestrcpy_bytes n src old =
    (let e = takeWhile (\<lambda>c. c \<noteq> 0) (take (n - 1) src) in e @ [0] @ drop (length e + 1) old)"

subsection \<open>exec\<close>

definition exec_bad :: "addr \<Rightarrow> nat option \<Rightarrow> 'z file_st_scheme \<Rightarrow> (int, 'z file_st_scheme) res" where
  "exec_bad pgdir ip s =
    rbind (if pgdir \<noteq> 0 then freevm pgdir s else Ok () s) (\<lambda>_ s.
    case ip of None \<Rightarrow> Ok (- 1) s
    | Some ip \<Rightarrow> rbind (iunlockput ip s) (\<lambda>_ s. end_with (- 1) s))"

text \<open>From the loaded image to the switch: guard page and stack, arguments, and the commit.\<close>

definition exec_image ::
  "byte list \<Rightarrow> byte list list \<Rightarrow> elfhdr \<Rightarrow> addr \<Rightarrow> uint \<Rightarrow> nat \<Rightarrow> 'z file_st_scheme \<Rightarrow> (int, 'z file_st_scheme) res" where
  "exec_image path argv elf pgdir sz i s =
    (let sz = PGROUNDUP sz in
     rbind (allocuvm pgdir sz (sz + 2 * PGSIZE) s) (\<lambda>sz s.
     if sz = 0 then exec_bad pgdir None s
     else
       rbind (clearpteu pgdir (sz - 2 * PGSIZE) s) (\<lambda>_ s.
       rbind (push_args pgdir argv 0 sz s) (\<lambda>r s.
       case r of None \<Rightarrow> exec_bad pgdir None s | Some (sp, as) \<Rightarrow>
       let ws = ustack sp as; sp = sp - of_nat (3 + length as + 1) * 4 in
       rbind (copyout pgdir sp (words_bytes ws) s) (\<lambda>r s.
       if r < 0 then exec_bad pgdir None s
       else
         let p = procs s ! i; oldpgdir = p_pgdir p;
             s = upd_proc i (\<lambda>p. p\<lparr>p_name := safestrcpy_bytes 16 (last_elem path) (p_name p), p_pgdir := pgdir, p_sz := sz\<rparr>) s;
             s = s\<lparr>mem := st32 (mem s) (p_tf p + TF_EIP) (elf_entry elf)\<rparr>;
             s = s\<lparr>mem := st32 (mem s) (p_tf p + TF_ESP) sp\<rparr>
         in rbind (switchuvm (Some (p_kstack p, pgdir)) s) (\<lambda>_ s.
            rbind (freevm oldpgdir s) (\<lambda>_ s. Ok 0 s))))))) "

definition exec :: "byte list \<Rightarrow> byte list list \<Rightarrow> 'z file_st_scheme \<Rightarrow> (int, 'z file_st_scheme) res" where
  "exec path argv s =
    rbind (cur s) (\<lambda>i s.
    rbind (begin_op s) (\<lambda>_ s.
    rbind (namei path s) (\<lambda>ip s.
    case ip of None \<Rightarrow> end_with (- 1) s | Some ip \<Rightarrow>
    rbind (ilock ip s) (\<lambda>_ s.
    rbind (readi ip 0 (of_nat ELF_SIZE) s) (\<lambda>(r, d) s.
    if r \<noteq> int ELF_SIZE then exec_bad 0 (Some ip) s
    else
      let elf = elf_of d in
      if elf_magic elf \<noteq> ELF_MAGIC then exec_bad 0 (Some ip) s
      else
        rbind (setupkvm s) (\<lambda>pgdir s.
        if pgdir = 0 then exec_bad 0 (Some ip) s
        else
          rbind (exec_load (unat (elf_phnum elf)) pgdir ip (elf_phoff elf) 0 s) (\<lambda>sz s.
          case sz of None \<Rightarrow> exec_bad pgdir (Some ip) s | Some sz \<Rightarrow>
          rbind (iunlockput ip s) (\<lambda>_ s.
          rbind (end_op s) (\<lambda>_ s.
          exec_image path argv elf pgdir sz i s)))))))))"

text \<open>Collecting the argument vector from user memory: at most \<open>MAXARG\<close> entries with the terminator.\<close>

fun fetch_argv :: "nat \<Rightarrow> uint \<Rightarrow> 'z file_st_scheme \<Rightarrow> (byte list list option, 'z file_st_scheme) res" where
  "fetch_argv 0 uargv s = Ok None s"
| "fetch_argv (Suc k) uargv s =
    rbind (fetchint uargv s) (\<lambda>uarg s.
    case uarg of None \<Rightarrow> Ok None s | Some uarg \<Rightarrow>
    if uarg = 0 then Ok (Some []) s
    else
      rbind (fetchstr uarg s) (\<lambda>str s.
      case str of None \<Rightarrow> Ok None s | Some str \<Rightarrow>
      rbind (fetch_argv k (uargv + 4) s) (\<lambda>r s. Ok (map_option ((#) str) r) s)))"

definition sys_exec :: "'z file_st_scheme \<Rightarrow> (int, 'z file_st_scheme) res" where
  "sys_exec s =
    rbind (argstr 0 s) (\<lambda>path s.
    case path of None \<Rightarrow> Ok (- 1) s | Some path \<Rightarrow>
    rbind (argint 1 s) (\<lambda>uargv s.
    case uargv of None \<Rightarrow> Ok (- 1) s | Some uargv \<Rightarrow>
    rbind (fetch_argv MAXARG uargv s) (\<lambda>argv s.
    case argv of None \<Rightarrow> Ok (- 1) s | Some argv \<Rightarrow> exec path argv s)))"

end
