(* ===== verification/Xv6_Trap.thy ===== *)
theory Xv6_Trap
  imports Xv6_Exec
begin

text \<open>
  The process life cycle (\<open>userinit\<close>, \<open>fork\<close>, \<open>exit\<close>, \<open>forkret\<close> of proc.c), the remaining system
  calls (sysproc.c), the clock (\<open>cmostime\<close> of lapic.c), system-call dispatch (syscall.c) and
  traps (trap.c).
\<close>

subsection \<open>State\<close>

record gatedesc =
  g_off_15_0 :: "16 word"
  g_cs :: "16 word"
  g_type :: nat
  g_dpl :: nat
  g_p :: bool
  g_off_31_16 :: "16 word"

record kernel = file_st +
  forkret_first :: bool
  idt :: "gatedesc list"

subsection \<open>Life cycle\<close>

text \<open>Copies of the trap frame between kernel stacks.\<close>

definition copy_tf :: "addr \<Rightarrow> addr \<Rightarrow> 'z kmem_st_scheme \<Rightarrow> 'z kmem_st_scheme" where
  "copy_tf dst src s = s\<lparr>mem := mem_write (mem s) dst (load (mem s) src TF_SIZE)\<rparr>"

definition st16 :: "memory \<Rightarrow> addr \<Rightarrow> ushort \<Rightarrow> memory" where
  "st16 m a w = m(a := ucast w, a + 1 := ucast (drop_bit 8 w))"

definition ld16 :: "memory \<Rightarrow> addr \<Rightarrow> ushort" where
  "ld16 m a = ucast (m a) OR push_bit 8 (ucast (m (a + 1)))"

definition userinit :: "byte list \<Rightarrow> 'z file_st_scheme \<Rightarrow> (unit, 'z file_st_scheme) res" where
  "userinit initcode s =
    rbind (allocproc s) (\<lambda>p s.
    let s = s\<lparr>initproc := p\<rparr> in
    case p of None \<Rightarrow> Panic ''null dereference'' | Some i \<Rightarrow>
    rbind (setupkvm s) (\<lambda>d s.
    let s = upd_proc i (\<lambda>p. p\<lparr>p_pgdir := d\<rparr>) s in
    if d = 0 then Panic ''userinit: out of memory?''
    else
      rbind (inituvm d initcode s) (\<lambda>_ s.
      let s = upd_proc i (\<lambda>p. p\<lparr>p_sz := PGSIZE\<rparr>) s;
          tf = p_tf (procs s ! i);
          s = s\<lparr>mem := memset (mem s) tf 0 (of_nat TF_SIZE)\<rparr>;
          s = s\<lparr>mem := st16 (mem s) (tf + TF_CS) 0x1b\<rparr>;
          s = s\<lparr>mem := st16 (mem s) (tf + 44) 0x23\<rparr>;
          s = s\<lparr>mem := st16 (mem s) (tf + 40) (ld16 (mem s) (tf + 44))\<rparr>;
          s = s\<lparr>mem := st16 (mem s) (tf + TF_SS) (ld16 (mem s) (tf + 44))\<rparr>;
          s = s\<lparr>mem := st32 (mem s) (tf + TF_EFLAGS) 0x200\<rparr>;
          s = s\<lparr>mem := st32 (mem s) (tf + TF_ESP) PGSIZE\<rparr>;
          s = s\<lparr>mem := st32 (mem s) (tf + TF_EIP) 0\<rparr>;
          s = upd_proc i (\<lambda>p. p\<lparr>p_name := safestrcpy_bytes 16 [0x69, 0x6e, 0x69, 0x74, 0x63, 0x6f, 0x64, 0x65] (p_name p)\<rparr>) s
      in rbind (namei [SLASH] s) (\<lambda>cwd s.
         let s = upd_proc i (\<lambda>p. p\<lparr>p_cwd := cwd\<rparr>) s in
         rbind (acquire L_ptable s) (\<lambda>_ s.
         release L_ptable (upd_proc i (set_state RUNNABLE) s))))))"

definition fork :: "'z file_st_scheme \<Rightarrow> (uint, 'z file_st_scheme) res" where
  "fork s =
    rbind (cur s) (\<lambda>c s.
    rbind (allocproc s) (\<lambda>np s.
    case np of None \<Rightarrow> Ok (- 1) s | Some np \<Rightarrow>
    rbind (copyuvm (p_pgdir (procs s ! c)) (p_sz (procs s ! c)) s) (\<lambda>d s.
    let s = upd_proc np (\<lambda>p. p\<lparr>p_pgdir := d\<rparr>) s in
    if d = 0 then
      rbind (kfree (p_kstack (procs s ! np)) s) (\<lambda>_ s.
      Ok (- 1) (upd_proc np (\<lambda>p. p\<lparr>p_kstack := 0, p_state := UNUSED\<rparr>) s))
    else
      let s = upd_proc np (\<lambda>p. p\<lparr>p_sz := p_sz (procs s ! c), p_parent := Some c\<rparr>) s;
          s = copy_tf (p_tf (procs s ! np)) (p_tf (procs s ! c)) s;
          s = s\<lparr>mem := st32 (mem s) (p_tf (procs s ! np) + TF_EAX) 0\<rparr>
      in rbind (rfor [0..<NOFILE] (\<lambda>k s.
           case p_ofile (procs s ! c) ! k of None \<Rightarrow> Ok () s
           | Some f \<Rightarrow> rbind (filedup f s) (\<lambda>f s. Ok () (set_ofile np k (Some f) s))) s) (\<lambda>_ s.
         rbind (case p_cwd (procs s ! c) of None \<Rightarrow> Panic ''null dereference'' | Some d \<Rightarrow> idup d s) (\<lambda>d s.
         let s = upd_proc np (\<lambda>p. p\<lparr>p_cwd := Some d, p_name := safestrcpy_bytes 16 (p_name (procs s ! c)) (p_name p)\<rparr>) s;
             pid = p_pid (procs s ! np)
         in rbind (acquire L_ptable s) (\<lambda>_ s.
            rbind (release L_ptable (upd_proc np (set_state RUNNABLE) s)) (\<lambda>_ s.
            Ok pid s)))))))"

text \<open>\<open>exit\<close> never returns: it leaves the CPU as a zombie.\<close>

definition exit :: "'z file_st_scheme \<Rightarrow> ('a, 'z file_st_scheme) res" where
  "exit s =
    rbind (cur s) (\<lambda>c s.
    if initproc s = Some c then Panic ''init exiting''
    else
      rbind (rfor [0..<NOFILE] (\<lambda>fd s.
        case p_ofile (procs s ! c) ! fd of None \<Rightarrow> Ok () s
        | Some f \<Rightarrow> rbind (fileclose f s) (\<lambda>_ s. Ok () (set_ofile c fd None s))) s) (\<lambda>_ s.
      rbind (begin_op s) (\<lambda>_ s.
      rbind (case p_cwd (procs s ! c) of None \<Rightarrow> Panic ''null dereference'' | Some d \<Rightarrow> iput d s) (\<lambda>_ s.
      rbind (end_op s) (\<lambda>_ s.
      let s = upd_proc c (\<lambda>p. p\<lparr>p_cwd := None\<rparr>) s in
      exit_zombie c s)))))"

definition forkret :: "'z kernel_scheme \<Rightarrow> (unit, 'z kernel_scheme) res" where
  "forkret s =
    rbind (release L_ptable s) (\<lambda>_ s.
    if forkret_first s then
      rbind (iinit ROOTDEV (s\<lparr>forkret_first := False\<rparr>)) (\<lambda>_ s. initlog ROOTDEV s)
    else Ok () s)"

subsection \<open>The clock\<close>

record rtcdate =
  r_second :: uint
  r_minute :: uint
  r_hour :: uint
  r_day :: uint
  r_month :: uint
  r_year :: uint

definition fill_rtcdate :: "(uint \<Rightarrow> byte) \<Rightarrow> rtcdate" where
  "fill_rtcdate cmos = \<lparr>r_second = ucast (cmos 0), r_minute = ucast (cmos 2), r_hour = ucast (cmos 4),
     r_day = ucast (cmos 7), r_month = ucast (cmos 8), r_year = ucast (cmos 9)\<rparr>"

definition bcd_conv :: "uint \<Rightarrow> uint" where
  "bcd_conv x = drop_bit 4 x * 10 + (x AND 0xf)"

text \<open>
  \<open>cmos\<close> gives the clock registers at successive readings: an attempt reads the date, the
  update flag and, if no update is in progress, the date again, and is repeated until both
  readings agree.
\<close>

fun cmostime_loop :: "nat \<Rightarrow> (nat \<Rightarrow> uint \<Rightarrow> byte) \<Rightarrow> nat \<Rightarrow> rtcdate option" where
  "cmostime_loop 0 cmos t = None"
| "cmostime_loop (Suc k) cmos t =
    (let t1 = fill_rtcdate (cmos t) in
     if cmos (t + 1) 0x0a AND 0x80 \<noteq> 0 then cmostime_loop k cmos (t + 2)
     else if fill_rtcdate (cmos (t + 2)) = t1 then Some t1
     else cmostime_loop k cmos (t + 3))"

definition cmostime :: "nat \<Rightarrow> (nat \<Rightarrow> uint \<Rightarrow> byte) \<Rightarrow> rtcdate option" where
  "cmostime fuel cmos =
    (let bcd = (cmos 0 0x0b AND 0x04 = 0) in
     map_option (\<lambda>t1.
       let t1 = (if bcd then \<lparr>r_second = bcd_conv (r_second t1), r_minute = bcd_conv (r_minute t1),
                   r_hour = bcd_conv (r_hour t1), r_day = bcd_conv (r_day t1), r_month = bcd_conv (r_month t1),
                   r_year = bcd_conv (r_year t1)\<rparr> else t1)
       in t1\<lparr>r_year := r_year t1 + 2000\<rparr>) (cmostime_loop fuel cmos 1))"

definition rtc_bytes :: "rtcdate \<Rightarrow> byte list" where
  "rtc_bytes r = words_bytes [r_second r, r_minute r, r_hour r, r_day r, r_month r, r_year r]"

subsection \<open>System calls on processes\<close>

definition sys_fork :: "'z file_st_scheme \<Rightarrow> (uint, 'z file_st_scheme) res" where
  "sys_fork s = fork s"

definition sys_exit :: "'z file_st_scheme \<Rightarrow> (uint, 'z file_st_scheme) res" where
  "sys_exit s = exit s"

definition sys_wait :: "'z file_st_scheme \<Rightarrow> (uint, 'z file_st_scheme) res" where
  "sys_wait s = wait s"

definition sys_kill :: "'z file_st_scheme \<Rightarrow> (uint, 'z file_st_scheme) res" where
  "sys_kill s =
    rbind (argint 0 s) (\<lambda>pid s.
    case pid of None \<Rightarrow> Ok (- 1) s | Some pid \<Rightarrow> rbind (kill pid s) (\<lambda>r s. Ok (of_int r) s))"

definition sys_getpid :: "'z file_st_scheme \<Rightarrow> (uint, 'z file_st_scheme) res" where
  "sys_getpid s = rbind (cur s) (\<lambda>i s. Ok (p_pid (procs s ! i)) s)"

definition sys_sbrk :: "'z file_st_scheme \<Rightarrow> (uint, 'z file_st_scheme) res" where
  "sys_sbrk s =
    rbind (argint 0 s) (\<lambda>n s.
    case n of None \<Rightarrow> Ok (- 1) s | Some n \<Rightarrow>
    rbind (cur s) (\<lambda>i s.
    let a = p_sz (procs s ! i) in
    Ok a (upd_proc i (\<lambda>p. p\<lparr>p_sz := p_sz p + n\<rparr>) s)))"

text \<open>\<open>ticks0\<close> is the clock when the call started; one pass either returns or sleeps again.\<close>

definition sleep_ticks :: "uint \<Rightarrow> uint \<Rightarrow> 'z file_st_scheme \<Rightarrow> (uint, 'z file_st_scheme) res" where
  "sleep_ticks ticks0 n s =
    (if ticks s - ticks0 < n then
       rbind (cur s) (\<lambda>i s.
       if p_killed (procs s ! i) then rbind (release L_ticks s) (\<lambda>_ s. Ok (- 1) s)
       else sleep Ch_ticks L_ticks s)
     else rbind (release L_ticks s) (\<lambda>_ s. Ok 0 s))"

definition sys_sleep :: "'z file_st_scheme \<Rightarrow> (uint, 'z file_st_scheme) res" where
  "sys_sleep s =
    rbind (argint 0 s) (\<lambda>n s.
    case n of None \<Rightarrow> Ok (- 1) s | Some n \<Rightarrow>
    rbind (acquire L_ticks s) (\<lambda>_ s. sleep_ticks (ticks s) n s))"

definition sys_uptime :: "'z file_st_scheme \<Rightarrow> (uint, 'z file_st_scheme) res" where
  "sys_uptime s =
    rbind (acquire L_ticks s) (\<lambda>_ s.
    let x = ticks s in rbind (release L_ticks s) (\<lambda>_ s. Ok x s))"

text \<open>\<open>rtc\<close> is what \<open>cmostime\<close> reads.\<close>

definition sys_date :: "rtcdate \<Rightarrow> 'z file_st_scheme \<Rightarrow> (uint, 'z file_st_scheme) res" where
  "sys_date rtc s =
    rbind (argptr 0 4 s) (\<lambda>p s.
    case p of None \<Rightarrow> Ok (- 1) s
    | Some p \<Rightarrow> rbind (store_user p (rtc_bytes rtc) s) (\<lambda>_ s. Ok 0 s))"

definition sys_alarm :: "'z file_st_scheme \<Rightarrow> (uint, 'z file_st_scheme) res" where
  "sys_alarm s =
    rbind (argint 0 s) (\<lambda>t s.
    case t of None \<Rightarrow> Ok (- 1) s | Some t \<Rightarrow>
    rbind (argptr 1 1 s) (\<lambda>h s.
    case h of None \<Rightarrow> Ok (- 1) s | Some h \<Rightarrow>
    rbind (cur s) (\<lambda>i s.
    Ok 0 (upd_proc i (\<lambda>p. p\<lparr>p_alarmticks := t, p_alarmhandler := h\<rparr>) s))))"

subsection \<open>Dispatch\<close>

definition as_uint :: "(int, 's) res \<Rightarrow> (uint, 's) res" where
  "as_uint m = rbind m (\<lambda>r s. Ok (of_int r) s)"

text \<open>The table \<open>syscalls\<close>, with the numbers of syscall.h.\<close>

definition syscalls :: "rtcdate \<Rightarrow> int \<Rightarrow> ('z file_st_scheme \<Rightarrow> (uint, 'z file_st_scheme) res) option" where
  "syscalls rtc n =
    (if n = 1 then Some sys_fork
     else if n = 2 then Some sys_exit
     else if n = 3 then Some sys_wait
     else if n = 4 then Some (\<lambda>s. as_uint (sys_pipe s))
     else if n = 5 then Some (\<lambda>s. as_uint (sys_read s))
     else if n = 6 then Some sys_kill
     else if n = 7 then Some (\<lambda>s. as_uint (sys_exec s))
     else if n = 8 then Some (\<lambda>s. as_uint (sys_fstat s))
     else if n = 9 then Some (\<lambda>s. as_uint (sys_chdir s))
     else if n = 10 then Some (\<lambda>s. as_uint (sys_dup s))
     else if n = 11 then Some sys_getpid
     else if n = 12 then Some sys_sbrk
     else if n = 13 then Some sys_sleep
     else if n = 14 then Some sys_uptime
     else if n = 15 then Some (\<lambda>s. as_uint (sys_open s))
     else if n = 16 then Some (\<lambda>s. as_uint (sys_write s))
     else if n = 17 then Some (\<lambda>s. as_uint (sys_mknod s))
     else if n = 18 then Some (\<lambda>s. as_uint (sys_unlink s))
     else if n = 19 then Some (\<lambda>s. as_uint (sys_link s))
     else if n = 20 then Some (\<lambda>s. as_uint (sys_mkdir s))
     else if n = 21 then Some (\<lambda>s. as_uint (sys_close s))
     else if n = 22 then Some (sys_date rtc)
     else if n = 23 then Some sys_alarm
     else None)"

definition syscall :: "rtcdate \<Rightarrow> 'z file_st_scheme \<Rightarrow> (unit, 'z file_st_scheme) res" where
  "syscall rtc s =
    rbind (cur s) (\<lambda>i s.
    let num = ld32 (mem s) (p_tf (procs s ! i) + TF_EAX) in
    case syscalls rtc (sint num) of
      Some f \<Rightarrow> rbind (f s) (\<lambda>r s. Ok () (s\<lparr>mem := st32 (mem s) (p_tf (procs s ! i) + TF_EAX) r\<rparr>))
    | None \<Rightarrow>
        rbind (cprintf [0x25, 0x64, 0x20, 0x25, 0x73, 0x3a, 0x20, 0x75, 0x6e, 0x6b, 0x6e, 0x6f, 0x77, 0x6e, 0x20,
                        0x73, 0x79, 0x73, 0x20, 0x63, 0x61, 0x6c, 0x6c, 0x20, 0x25, 0x64, 0x0a]
                 [PInt (p_pid (procs s ! i)), PStr (Some (cname 16 (p_name (procs s ! i)))), PInt num] s) (\<lambda>_ s.
        Ok () (s\<lparr>mem := st32 (mem s) (p_tf (procs s ! i) + TF_EAX) (- 1)\<rparr>)))"

subsection \<open>Traps\<close>

abbreviation "T_SYSCALL \<equiv> 64 :: uint"
abbreviation "T_PGFLT \<equiv> 14 :: uint"
abbreviation "T_IRQ0 \<equiv> 32 :: uint"

definition SETGATE :: "bool \<Rightarrow> uint \<Rightarrow> uint \<Rightarrow> nat \<Rightarrow> gatedesc" where
  "SETGATE istrap sel off d = \<lparr>g_off_15_0 = ucast (off AND 0xffff), g_cs = ucast sel,
     g_type = (if istrap then 15 else 14), g_dpl = d, g_p = True, g_off_31_16 = ucast (drop_bit 16 off)\<rparr>"

definition tvinit :: "uint list \<Rightarrow> 'z kernel_scheme \<Rightarrow> 'z kernel_scheme" where
  "tvinit vectors s =
    (let s = s\<lparr>idt := map (\<lambda>i. SETGATE False 8 (vectors ! i) 0) [0..<256]\<rparr>;
         s = s\<lparr>idt := (idt s)[64 := SETGATE True 8 (vectors ! 64) 3]\<rparr>
     in initlock L_ticks s)"

text \<open>
  What the hardware supplies with a trap: the CPU number, register cr2, the real-time clock,
  and the characters waiting in the keyboard or the serial port.
\<close>

record trap_env =
  te_cpu :: nat
  te_cr2 :: addr
  te_rtc :: rtcdate
  te_chars :: "uint list"

definition killed_cur :: "'z file_st_scheme \<Rightarrow> bool" where
  "killed_cur s = (case curp s of None \<Rightarrow> False | Some i \<Rightarrow> p_killed (procs s ! i))"

text \<open>The alarm of the timer case: push the interrupted pc on the user stack and enter the handler.\<close>

definition alarm_tick :: "addr \<Rightarrow> 'z file_st_scheme \<Rightarrow> (unit, 'z file_st_scheme) res" where
  "alarm_tick tf s =
    (case curp s of None \<Rightarrow> Ok () s
     | Some i \<Rightarrow>
       if ld16 (mem s) (tf + TF_CS) AND 3 = 3 then
         let s = upd_proc i (\<lambda>p. p\<lparr>p_ticks := p_ticks p + 1\<rparr>) s in
         if p_ticks (procs s ! i) \<ge> p_alarmticks (procs s ! i) then
           let s = s\<lparr>mem := st32 (mem s) (tf + TF_ESP) (ld32 (mem s) (tf + TF_ESP) - 4)\<rparr> in
           rbind (store_user (ld32 (mem s) (tf + TF_ESP)) (word_bytes (ld32 (mem s) (tf + TF_EIP))) s) (\<lambda>_ s.
           let s = s\<lparr>mem := st32 (mem s) (tf + TF_EIP) (p_alarmhandler (procs s ! i))\<rparr> in
           Ok () (upd_proc i (\<lambda>p. p\<lparr>p_alarmticks := 0\<rparr>) s))
         else Ok () s
       else Ok () s)"

definition timer_tick :: "nat \<Rightarrow> 'z file_st_scheme \<Rightarrow> (unit, 'z file_st_scheme) res" where
  "timer_tick cpu s =
    (if cpu = 0 then
       rbind (acquire L_ticks s) (\<lambda>_ s.
       let s = s\<lparr>ticks := ticks s + 1\<rparr> in
       rbind (wakeup Ch_ticks s) (\<lambda>_ s. release L_ticks s))
     else Ok () s)"

text \<open>
  The cases of the switch.  The result says whether control reaches the code after it; the
  page-fault case returns early when no page could be added.
\<close>

definition trap_switch :: "trap_env \<Rightarrow> addr \<Rightarrow> 'z file_st_scheme \<Rightarrow> (bool, 'z file_st_scheme) res" where
  "trap_switch e tf s =
    (let no = ld32 (mem s) (tf + TF_TRAPNO) in
     if no = T_IRQ0 then
       rbind (timer_tick (te_cpu e) s) (\<lambda>_ s. rbind (alarm_tick tf s) (\<lambda>_ s. Ok True s))
     else if no = T_IRQ0 + 14 then rbind (ideintr s) (\<lambda>_ s. Ok True s)
     else if no = T_IRQ0 + 15 then Ok True s
     else if no = T_IRQ0 + 1 \<or> no = T_IRQ0 + 4 then rbind (consoleintr (te_chars e) s) (\<lambda>_ s. Ok True s)
     else if no = T_IRQ0 + 7 \<or> no = T_IRQ0 + 31 then Ok True s
     else if no = T_PGFLT then pgflt (te_cr2 e) s
     else case curp s of
       None \<Rightarrow> Panic ''trap''
     | Some i \<Rightarrow>
         if ld16 (mem s) (tf + TF_CS) AND 3 = 0 then Panic ''trap''
         else Ok True (upd_proc i (\<lambda>p. p\<lparr>p_killed := True\<rparr>) s))"

definition exit_if_killed :: "addr \<Rightarrow> 'z file_st_scheme \<Rightarrow> (unit, 'z file_st_scheme) res" where
  "exit_if_killed tf s =
    (if killed_cur s \<and> ld16 (mem s) (tf + TF_CS) AND 3 = 3 then exit s else Ok () s)"

definition trap :: "trap_env \<Rightarrow> addr \<Rightarrow> 'z file_st_scheme \<Rightarrow> (unit, 'z file_st_scheme) res" where
  "trap e tf s =
    (if ld32 (mem s) (tf + TF_TRAPNO) = T_SYSCALL then
       rbind (cur s) (\<lambda>i s.
       if p_killed (procs s ! i) then exit s
       else
         let s = upd_proc i (\<lambda>p. p\<lparr>p_tf := tf\<rparr>) s in
         rbind (syscall (te_rtc e) s) (\<lambda>_ s.
         if killed_cur s then exit s else Ok () s))
     else
       rbind (trap_switch e tf s) (\<lambda>go s.
       if \<not> go then Ok () s
       else
         rbind (exit_if_killed tf s) (\<lambda>_ s.
         rbind (case curp s of None \<Rightarrow> Ok () s
                | Some i \<Rightarrow>
                    if p_state (procs s ! i) = RUNNING \<and> ld32 (mem s) (tf + TF_TRAPNO) = T_IRQ0
                    then yield s else Ok () s) (\<lambda>_ s.
         exit_if_killed tf s))))"

end
