(* ===== verification/Xv6_Disk.thy ===== *)
theory Xv6_Disk
  imports Xv6_Bio
begin

text \<open>
  Correctness of sleep locks and of the disk driver, for a process that runs with no spin lock
  held: what each operation does, as equations on the state.
\<close>

named_theorems enter_simps \<open>critical sections commute with updates of the data they protect\<close>

subsection \<open>Locks and the process table\<close>

lemma procs_enter [enter_simps]: "procs (enter lk s) = procs s"
  and curp_enter [enter_simps]: "curp (enter lk s) = curp s"
  by (simp_all add: enter_def)

lemma upd_proc_enter [enter_simps]: "upd_proc i f (enter lk s) = enter lk (upd_proc i f s)"
  by (simp add: upd_proc_def enter_def)

lemma wakeup1_enter [enter_simps]: "wakeup1 ch (enter lk s) = enter lk (wakeup1 ch s)"
  by (simp add: wakeup1_def enter_def)

lemma calm_upd_proc [enter_simps]: "calm (upd_proc i f s) = calm s"
  and held_upd_proc [enter_simps]: "held (upd_proc i f s) = held s"
  and calm_wakeup1 [enter_simps]: "calm (wakeup1 ch s) = calm s"
  and held_wakeup1 [enter_simps]: "held (wakeup1 ch s) = held s"
  and curp_upd_proc [enter_simps]: "curp (upd_proc i f s) = curp s"
  and curp_wakeup1 [enter_simps]: "curp (wakeup1 ch s) = curp s"
  and procs_upd_proc [enter_simps]: "procs (upd_proc i f s) = (procs s)[i := f (procs s ! i)]"
  and procs_wakeup1 [enter_simps]: "procs (wakeup1 ch s) = map (wake ch) (procs s)"
  by (simp_all add: upd_proc_def wakeup1_def calm_def cli_wf_def)

lemma wakeup_calm: "calm s \<Longrightarrow> L_ptable \<notin> set (held s) \<Longrightarrow> wakeup ch s = Ok () (wakeup1 ch s)"
  by (simp add: wakeup_def acquire_calm enter_simps release_enter)

text \<open>A process that runs in the kernel, holding no spin lock.\<close>

definition run_ok :: "nat \<Rightarrow> 'z proc_st_scheme \<Rightarrow> bool" where
  "run_ok i s \<longleftrightarrow> curp s = Some i \<and> i < length (procs s) \<and> p_state (procs s ! i) = RUNNING \<and> held s = [] \<and> calm s"

text \<open>What a sleep that ends leaves in the table: the channel's sleepers are runnable, the process runs on.\<close>

definition slept :: "nat \<Rightarrow> chan \<Rightarrow> proc list \<Rightarrow> proc list" where
  "slept i ch ps = (map (wake ch) ps)[i := (ps ! i)\<lparr>p_chan := None\<rparr>]"

lemma run_ok_slept: "run_ok i s \<Longrightarrow> run_ok i (s\<lparr>procs := slept i ch (procs s)\<rparr>)"
  by (simp add: run_ok_def slept_def calm_def cli_wf_def)

lemma run_ok_wakeup1: "run_ok i s \<Longrightarrow> run_ok i (wakeup1 ch s)"
  by (simp add: run_ok_def enter_simps wake_def set_state_def)

lemma sched_sleeping:
  assumes "run_ok i s"
  shows "sleep ch lk (enter lk s) =
    Sleep ch (enter L_ptable (upd_proc i (\<lambda>p. p\<lparr>p_chan := Some ch, p_state := SLEEPING\<rparr>) s))"
proof -
  have h: "held s = []" "calm s" "curp s = Some i" "i < length (procs s)" "ncli s = 0"
    using assms by (auto simp: run_ok_def calm_def cli_wf_def)
  have u: "upd_proc i (set_state SLEEPING) (upd_proc i (\<lambda>p. p\<lparr>p_chan := Some ch\<rparr>) s)
      = upd_proc i (\<lambda>p. p\<lparr>p_chan := Some ch, p_state := SLEEPING\<rparr>) s"
    using h(4) by (simp add: upd_proc_def set_state_def)
  have s: "sched i (enter L_ptable (upd_proc i (\<lambda>p. p\<lparr>p_chan := Some ch, p_state := SLEEPING\<rparr>) s))
      = Ok () (enter L_ptable (upd_proc i (\<lambda>p. p\<lparr>p_chan := Some ch, p_state := SLEEPING\<rparr>) s))"
    using h by (simp add: sched_def holding_def enter_def upd_proc_def)
  show ?thesis
  proof (cases "lk = L_ptable")
    case True
    with h u s show ?thesis by (simp add: sleep_def enter_simps)
  next
    case False
    with h have "acquire L_ptable (enter lk s) = Ok () (enter L_ptable (enter lk s))"
      by (simp add: acquire_calm calm_enter held_enter)
    moreover have "release lk (enter L_ptable (enter lk s)) = Ok () (enter L_ptable s)"
      using False h by (simp add: release_under)
    ultimately show ?thesis using False h u s by (simp add: sleep_def enter_simps)
  qed
qed


subsection \<open>Buffers under the locks\<close>

lemma bufs_enter [enter_simps]: "bufs (enter lk s) = bufs s"
  and idequeue_enter [enter_simps]: "idequeue (enter lk s) = idequeue s"
  and havedisk1_enter [enter_simps]: "havedisk1 (enter lk s) = havedisk1 s"
  and disk_enter [enter_simps]: "disk (enter lk s) = disk s"
  and ide_sel_enter [enter_simps]: "ide_sel (enter lk s) = ide_sel s"
  and bad_sector_enter [enter_simps]: "bad_sector (enter lk s) = bad_sector s"
  by (simp_all add: enter_def)

lemma upd_buf_enter [enter_simps]: "upd_buf b f (enter lk s) = enter lk (upd_buf b f s)"
  and put_buflock_enter [enter_simps]: "put_buflock b l (enter lk s) = enter lk (put_buflock b l s)"
  and disk_write_enter [enter_simps]: "disk_write sel d (enter lk s) = enter lk (disk_write sel d s)"
  and idequeue_upd_enter [enter_simps]: "(enter lk s)\<lparr>idequeue := q\<rparr> = enter lk (s\<lparr>idequeue := q\<rparr>)"
  and ide_sel_upd_enter [enter_simps]: "(enter lk s)\<lparr>ide_sel := x\<rparr> = enter lk (s\<lparr>ide_sel := x\<rparr>)"
  and bufs_upd_enter [enter_simps]: "(enter lk s)\<lparr>bufs := bs\<rparr> = enter lk (s\<lparr>bufs := bs\<rparr>)"
  by (simp_all add: upd_buf_def put_buflock_def disk_write_def enter_def)

lemma calm_upd_buf [enter_simps]: "calm (upd_buf b f s) = calm s"
  and held_upd_buf [enter_simps]: "held (upd_buf b f s) = held s"
  and calm_put_buflock [enter_simps]: "calm (put_buflock b l s) = calm s"
  and held_put_buflock [enter_simps]: "held (put_buflock b l s) = held s"
  and calm_disk_write [enter_simps]: "calm (disk_write sel d s) = calm s"
  and held_disk_write [enter_simps]: "held (disk_write sel d s) = held s"
  and calm_idequeue_upd [enter_simps]: "calm (s\<lparr>idequeue := q\<rparr>) = calm s"
  and calm_ide_sel_upd [enter_simps]: "calm (s\<lparr>ide_sel := x\<rparr>) = calm s"
  and calm_bufs_upd [enter_simps]: "calm (s\<lparr>bufs := bs\<rparr>) = calm s"
  by (simp_all add: upd_buf_def put_buflock_def disk_write_def calm_def cli_wf_def)

lemma buf_holding_calm:
  "calm s \<Longrightarrow> L_buf b \<notin> set (held s) \<Longrightarrow> buf_holding b s = Ok (sl_locked (b_lock (bufs s ! b))) s"
  by (simp add: buf_holding_def holdingsleep_def acquire_calm release_enter enter_simps Let_def)

lemma buf_acquire_free:
  assumes "run_ok i s" and "\<not> sl_locked (b_lock (bufs s ! b))"
  shows "buf_acquire b s = Ok () (put_buflock b \<lparr>sl_locked = True, sl_pid = p_pid (procs s ! i)\<rparr> s)"
  using assms
  by (simp add: buf_acquire_def acquiresleep_def run_ok_def acquire_calm release_enter enter_simps)

lemma buf_release_calm:
  assumes "run_ok i s"
  shows "buf_release b s = Ok () (wakeup1 (Ch_buflock b) (put_buflock b \<lparr>sl_locked = False, sl_pid = 0\<rparr> s))"
proof -
  have h: "calm s" "held s = []" using assms by (auto simp: run_ok_def)
  have c: "calm (enter (L_buf b) (put_buflock b \<lparr>sl_locked = False, sl_pid = 0\<rparr> s))"
    using h by (simp add: calm_enter enter_simps)
  show ?thesis using h
    by (simp add: buf_release_def releasesleep_def acquire_calm enter_simps wakeup_calm [OF c] held_enter
        release_enter Let_def)
qed

subsection \<open>The disk driver\<close>

lemma uint_eqI:
  assumes "\<forall>n \<in> set [0..<32]. bit a n = bit b n"
  shows "a = (b :: uint)"
  using assms by (intro bit_word_eqI) simp

text \<open>The port writes select the block that was asked for.\<close>

lemma ide_select: "bno < FSSIZE \<Longrightarrow> ide_decode (ide_regs dev bno) = (dev AND 1, bno)"
proof -
  assume small: "bno < FSSIZE"
  have hi: "\<not> bit bno n" if "10 \<le> n" for n
  proof -
    have "unat bno < 1000" using small by (simp add: word_less_nat_alt)
    also have "(1000::nat) < 2 ^ 10" by simp
    also have "(2::nat) ^ 10 \<le> 2 ^ n" using that by (rule power_increasing) simp
    finally have "unat bno div 2 ^ n = 0" by simp
    then have "\<not> bit (unat bno) n" by (simp add: bit_iff_odd)
    then show ?thesis by (simp add: bit_unsigned_iff)
  qed
  have "snd (ide_decode (ide_regs dev bno)) = bno"
    unfolding ide_decode_def ide_regs_def ide_port_def Let_def
    by (rule uint_eqI) (simp add: upt_rec bit_simps hi, simp add: eval_nat_numeral)
  moreover have "fst (ide_decode (ide_regs dev bno)) = dev AND 1"
    unfolding ide_decode_def ide_regs_def ide_port_def Let_def
    by (rule uint_eqI) (simp add: upt_rec bit_simps hi)
  ultimately show ?thesis by (metis prod.collapse)
qed

text \<open>What a completed request leaves in its buffer.\<close>

definition io_done :: "byte list \<Rightarrow> buf \<Rightarrow> buf" where
  "io_done d x = x\<lparr>b_data := (if b_flags x AND B_DIRTY = 0 then d else b_data x),
     b_flags := (b_flags x OR B_VALID) AND NOT B_DIRTY\<rparr>"

lemma io_done_flags: "b_flags (io_done d x) AND (B_VALID OR B_DIRTY) = B_VALID"
  by (rule uint_eqI) (simp add: upt_rec io_done_def bit_simps)

lemma ideintr_single:
  assumes "calm s" "held s = []" "idequeue s = Some b" "b_qnext (bufs s ! b) = None" "b < length (bufs s)"
    and "\<not> bad_sector s (fst (ide_sel s)) (snd (ide_sel s))"
  shows "ideintr s = Ok () (wakeup1 (Ch_buf b) (upd_buf b
    (io_done (disk s (fst (ide_sel s)) (snd (ide_sel s)))) (s\<lparr>idequeue := None\<rparr>)))"
proof -
  let ?d = "disk s (fst (ide_sel s)) (snd (ide_sel s))"
  let ?t = "upd_buf b (io_done ?d) (s\<lparr>idequeue := None\<rparr>)"
  let ?s1 = "s\<lparr>idequeue := None\<rparr>"
  let ?s2 = "if b_flags (bufs ?s1 ! b) AND B_DIRTY = 0 \<and> idewait True ?s1 \<ge> 0
                 then upd_buf b (\<lambda>x. x\<lparr>b_data := ?d\<rparr>) ?s1 else ?s1"
  have q: "upd_buf b (\<lambda>x. x\<lparr>b_flags := b_flags x AND NOT B_DIRTY\<rparr>) (upd_buf b (\<lambda>x. x\<lparr>b_flags := b_flags x OR B_VALID\<rparr>) ?s2) = ?t"
    using assms(4-6) by (auto simp: upd_buf_def io_done_def idewait_def)
  have c: "calm (enter L_ide ?t)" using assms(1,2) by (simp add: calm_enter enter_simps)
  have w: "wakeup (Ch_buf b) (enter L_ide ?t) = Ok () (enter L_ide (wakeup1 (Ch_buf b) ?t))"
    using assms(2) by (simp add: wakeup_calm [OF c] held_enter enter_simps)
  have qt: "idequeue (wakeup1 (Ch_buf b) ?t) = None" by (simp add: wakeup1_def upd_buf_def)
  have r: "release L_ide (enter L_ide (wakeup1 (Ch_buf b) ?t)) = Ok () (wakeup1 (Ch_buf b) ?t)"
    using assms(1,2) by (simp add: release_enter enter_simps)
  show ?thesis
    using assms(1-4,6) q w qt r
    by (cases "b_flags (bufs s ! b) AND B_DIRTY = 0")
      (simp_all add: ideintr_def acquire_calm enter_simps idewait_def Let_def)
qed

text \<open>
  A request on an idle driver: the buffer is written to or read from its block, and the
  process that asked has slept once.
\<close>

definition iderw_result :: "nat \<Rightarrow> nat \<Rightarrow> 'z bio_st_scheme \<Rightarrow> 'z bio_st_scheme" where
  "iderw_result i b s =
    (let x = bufs s ! b; d = b_dev x AND 1; n = b_blockno x;
         s' = (if b_flags x AND B_DIRTY \<noteq> 0 then disk_write (d, n) (b_data x) s else s)
     in s'\<lparr>ide_sel := (d, n), bufs := (bufs s)[b := io_done (disk s d n) x], procs := slept i (Ch_buf b) (procs s)\<rparr>)"

lemma qnext_none: "b_qnext (bufs s ! b) = None \<Longrightarrow> upd_buf b (\<lambda>x. x\<lparr>b_qnext := None\<rparr>) s = s"
proof -
  assume "b_qnext (bufs s ! b) = None"
  then have "(bufs s ! b)\<lparr>b_qnext := None\<rparr> = bufs s ! b" by (cases "bufs s ! b") simp
  then show ?thesis by (simp add: upd_buf_def)
qed

lemma idestart_ok:
  assumes "b_blockno (bufs s ! b) < FSSIZE"
  shows "idestart (Some b) s =
    (let x = bufs s ! b; sel = (b_dev x AND 1, b_blockno x); s = s\<lparr>ide_sel := sel\<rparr>
     in Ok () (if b_flags x AND B_DIRTY \<noteq> 0 then disk_write sel (b_data x) s else s))"
  using assms by (simp add: idestart_def ide_select Let_def not_le)

lemma sleep_for_ok:
  assumes "run_ok i s" and "lk \<noteq> L_ptable"
    and ev: "ev (upd_proc i (\<lambda>p. p\<lparr>p_chan := Some ch, p_state := SLEEPING\<rparr>) s) = Ok () t"
    and t: "calm t" "held t = []" "p_state (procs t ! i) = RUNNABLE"
  shows "sleep_for ev ch lk (enter lk s) =
    Ok () (enter lk (upd_proc i (\<lambda>p. p\<lparr>p_chan := None\<rparr>) (upd_proc i (set_state RUNNING) t)))"
proof -
  have h: "held s = []" "calm s" "curp s = Some i" using assms(1) by (auto simp: run_ok_def)
  let ?s1 = "upd_proc i (\<lambda>p. p\<lparr>p_chan := Some ch, p_state := SLEEPING\<rparr>) s"
  have r: "release L_ptable (enter L_ptable ?s1) = Ok () ?s1"
    using h by (simp add: release_enter enter_simps)
  show ?thesis
    using h r ev t assms(2)
    by (simp add: sleep_for_def sched_sleeping [OF assms(1)] enter_simps acquire_calm sleep_resume_def
        release_enter Let_def)
qed

lemma slept_steps:
  assumes "i < length ps" and "p_state (ps ! i) = RUNNING"
  shows "((map (wake ch) (ps[i := (ps ! i)\<lparr>p_chan := Some ch, p_state := SLEEPING\<rparr>]))[i := q])[i := (ps ! i)\<lparr>p_chan := None\<rparr>]
    = slept i ch ps"
  using assms by (simp add: slept_def map_update)

lemma iderw_eq:
  assumes run: "run_ok i s" and b: "b < length (bufs s)" and q: "idequeue s = None" "b_qnext (bufs s ! b) = None"
    and l: "sl_locked (b_lock (bufs s ! b))" and f: "b_flags (bufs s ! b) AND (B_VALID OR B_DIRTY) \<noteq> B_VALID"
    and dev: "b_dev (bufs s ! b) = 0 \<or> havedisk1 s" and n: "b_blockno (bufs s ! b) < FSSIZE"
    and good: "\<not> bad_sector s (b_dev (bufs s ! b) AND 1) (b_blockno (bufs s ! b))"
  shows "iderw b s = Ok () (iderw_result i b s)"
proof -
  define x where "x = bufs s ! b"
  define sel where "sel = (b_dev x AND 1, b_blockno x)"
  define s1 where "s1 = s\<lparr>idequeue := Some b\<rparr>"
  define s2 where "s2 = (if b_flags x AND B_DIRTY \<noteq> 0 then disk_write sel (b_data x) (s1\<lparr>ide_sel := sel\<rparr>) else s1\<lparr>ide_sel := sel\<rparr>)"
  define u where "u = upd_proc i (\<lambda>p. p\<lparr>p_chan := Some (Ch_buf b), p_state := SLEEPING\<rparr>) s2"
  define d where "d = disk u (fst (ide_sel u)) (snd (ide_sel u))"
  define t where "t = wakeup1 (Ch_buf b) (upd_buf b (io_done d) (u\<lparr>idequeue := None\<rparr>))"
  define v where "v = upd_proc i (\<lambda>p. p\<lparr>p_chan := None\<rparr>) (upd_proc i (set_state RUNNING) t)"
  have h: "calm s" "held s = []" "curp s = Some i" "i < length (procs s)" "p_state (procs s ! i) = RUNNING"
    using run by (auto simp: run_ok_def)
  have start: "idestart (Some b) (enter L_ide s1) = Ok () (enter L_ide s2)"
    using n by (simp add: idestart_ok enter_simps Let_def s1_def s2_def sel_def x_def)
  have s2: "bufs s2 = bufs s" "procs s2 = procs s" "run_ok i s2"
    using run by (simp_all add: s2_def s1_def run_ok_def disk_write_def calm_def cli_wf_def)
  have u: "bufs u = bufs s" "idequeue u = Some b" "ide_sel u = sel" "bad_sector u = bad_sector s" "calm u" "held u = []"
    using h by (simp_all add: u_def s2_def s1_def upd_proc_def disk_write_def calm_def cli_wf_def)
  have intr: "ideintr u = Ok () t"
    unfolding t_def d_def
    by (rule ideintr_single) (use u b q(2) good in \<open>simp_all add: sel_def x_def\<close>)
  have pt: "procs t = map (wake (Ch_buf b)) ((procs s)[i := (procs s ! i)\<lparr>p_chan := Some (Ch_buf b), p_state := SLEEPING\<rparr>])"
    by (simp add: t_def u_def enter_simps upd_buf_def upd_proc_def s2(2))
  have t: "calm t" "held t = []"
    using u(5,6) by (simp_all add: t_def enter_simps)
  have p_state_t: "p_state (procs t ! i) = RUNNABLE" using h by (simp add: pt wake_def set_state_def)
  have wait1: "sleep_for ideintr (Ch_buf b) L_ide (enter L_ide s2) = Ok () (enter L_ide v)"
    unfolding v_def
    by (rule sleep_for_ok [where ev = ideintr and ch = "Ch_buf b", OF s2(3) _ intr [unfolded u_def] t p_state_t]) simp
  have pv: "procs v = slept i (Ch_buf b) (procs s)"
  proof -
    have "(set_state RUNNING (procs t ! i))\<lparr>p_chan := None\<rparr> = (procs s ! i)\<lparr>p_chan := None\<rparr>"
      using h by (cases "procs s ! i") (simp add: pt wake_def set_state_def)
    moreover have "length (procs t) = length (procs s)" by (simp add: pt)
    ultimately have "procs v = ((procs t)[i := set_state RUNNING (procs t ! i)])[i := (procs s ! i)\<lparr>p_chan := None\<rparr>]"
      using h(4) by (simp add: v_def enter_simps)
    also have "\<dots> = slept i (Ch_buf b) (procs s)"
      unfolding pt by (rule slept_steps [OF h(4,5)])
    finally show ?thesis .
  qed
  have v: "v = iderw_result i b s"
  proof -
    have "b_flags x AND B_DIRTY = 0 \<Longrightarrow> d = disk s (b_dev x AND 1) (b_blockno x)"
      by (simp add: d_def u(3) sel_def) (simp add: u_def upd_proc_def s2_def s1_def)
    then have io: "io_done d x = io_done (disk s (b_dev x AND 1) (b_blockno x)) x"
      by (simp add: io_done_def)
    have bv: "bufs v = (bufs s)[b := io_done d x]"
      by (simp add: v_def t_def upd_proc_def wakeup1_def upd_buf_def u(1) x_def)
    have "v = s2\<lparr>idequeue := None, bufs := bufs v, procs := procs v\<rparr>"
      by (simp add: v_def t_def u_def upd_proc_def wakeup1_def upd_buf_def)
    then show ?thesis
      using q(1) io [unfolded x_def] by (cases s) (simp add: pv bv iderw_result_def s2_def s1_def sel_def x_def disk_write_def Let_def)
  qed
  have "bufs v ! b = io_done (disk s (b_dev x AND 1) (b_blockno x)) x"
    using b by (simp add: v iderw_result_def x_def Let_def disk_write_def)
  then have wait2: "iderw_wait (Suc k) b (enter L_ide v) = Ok () (enter L_ide v)" for k
    using io_done_flags by (simp add: enter_simps)
  obtain k where k: "length (bufs s) = Suc k" using b by (cases "length (bufs s)") auto
  have wait: "iderw_wait (Suc (Suc k)) b (enter L_ide s2) = Ok () (enter L_ide v)"
    using f wait1 wait2 [of k] by (simp add: enter_simps s2(1) del: iderw_wait.simps) (subst iderw_wait.simps, simp add: enter_simps s2(1))
  have rel: "release L_ide (enter L_ide v) = Ok () v"
    using t h(1,2) by (simp add: release_enter v_def enter_simps)
  have "idequeue s1 = Some b" by (simp add: s1_def)
  then show ?thesis
    using h f l dev q k start wait rel
    by (simp add: iderw_def buf_holding_calm acquire_calm queue_append_def qnext_none enter_simps s2(1)
        s1_def [symmetric] v [symmetric] Let_def del: iderw_wait.simps)
qed

subsection \<open>An example state\<close>

text \<open>A machine on which one process runs.\<close>

definition proc_example :: proc_st where
  "proc_example = \<lparr>ncli = 0, intena = True, iflag = True, held = [], mem = (\<lambda>_. 0), freelist = 0, use_lock = True,
     kend = 0x80110000, kdata = 0x80108000, kpgdir = 0, cr3 = 0, gdt = [], gdt_loaded = [], ts_addr = 0, ts_ss0 = 0,
     ts_esp0 = 0, ts_iomb = 0, task_reg = 0, procs = [proc_zero\<lparr>p_state := RUNNING, p_pid := 1\<rparr>], curp = Some 0, nextpid = 2,
     initproc = Some 0, ticks = 0, sym_trapret = 0, sym_forkret = 0\<rparr>"

end
