(* ===== verification/Xv6_Bcache.thy ===== *)
theory Xv6_Bcache
  imports Xv6_Disk
begin

text \<open>
  Correctness of the buffer cache: the recency list as a doubly-linked list, which \<open>bget\<close>
  searches and \<open>brelse\<close> reorders, and the cache as a transparent view of the disk.
\<close>

subsection \<open>The recency list\<close>

text \<open>\<open>chain f bs a xs z\<close>: following \<open>f\<close> from \<open>a\<close> visits \<open>xs\<close> and arrives at \<open>z\<close>.\<close>

fun chain :: "(buf \<Rightarrow> nat) \<Rightarrow> buf list \<Rightarrow> nat \<Rightarrow> nat list \<Rightarrow> nat \<Rightarrow> bool" where
  "chain f bs a [] z \<longleftrightarrow> f (bs ! a) = z"
| "chain f bs a (x # xs) z \<longleftrightarrow> f (bs ! a) = x \<and> chain f bs x xs z"

definition dll :: "buf list \<Rightarrow> nat list \<Rightarrow> bool" where
  "dll bs xs \<longleftrightarrow> length bs = Suc NBUF \<and> distinct xs \<and> set xs \<subseteq> {..<NBUF} \<and>
     chain b_next bs NBUF xs NBUF \<and> chain b_prev bs NBUF (rev xs) NBUF"

definition lru_list :: "buf list \<Rightarrow> nat list \<Rightarrow> bool" where
  "lru_list bs xs \<longleftrightarrow> dll bs xs \<and> set xs = {..<NBUF}"

lemma chain_append: "chain f bs a (xs @ y # ys) z \<longleftrightarrow> chain f bs a xs y \<and> chain f bs y ys z"
  by (induction xs arbitrary: a) auto

lemma chain_restart:
  "chain f bs a xs z \<Longrightarrow> f (bs' ! b) = f (bs ! a) \<Longrightarrow> (\<And>c. c \<in> set xs \<Longrightarrow> f (bs' ! c) = f (bs ! c)) \<Longrightarrow> chain f bs' b xs z"
  by (induction xs arbitrary: a b) auto

lemma chain_unlink:
  assumes "chain f bs a (xs @ b # ys) z" and "distinct (a # xs @ b # ys)"
    and "f (bs' ! last (a # xs)) = f (bs ! b)"
    and "\<And>c. c \<in> set (a # xs @ ys) \<Longrightarrow> c \<noteq> last (a # xs) \<Longrightarrow> f (bs' ! c) = f (bs ! c)"
  shows "chain f bs' a (xs @ ys) z"
proof (cases xs rule: rev_cases)
  case Nil
  have "chain f bs b ys z" using assms(1) by (simp add: Nil)
  then have "chain f bs' a ys z"
    by (rule chain_restart) (use assms(2-4) in \<open>auto simp: Nil\<close>)
  then show ?thesis by (simp add: Nil)
next
  case (snoc xs' p)
  have c: "chain f bs a xs' p" "chain f bs b ys z" using assms(1) by (simp_all add: snoc chain_append)
  have "chain f bs' a xs' p"
    by (rule chain_restart [OF c(1)]) (use assms(2,4) in \<open>auto simp: snoc\<close>)
  moreover have "chain f bs' p ys z"
    by (rule chain_restart [OF c(2)]) (use assms(2-4) in \<open>auto simp: snoc\<close>)
  ultimately show ?thesis by (simp add: snoc chain_append)
qed

lemma chain_snoc:
  assumes "chain f bs a xs z" and "distinct (a # xs)" and "f (bs' ! last (a # xs)) = b" and "f (bs' ! b) = z"
    and "\<And>c. c \<in> set (a # xs) \<Longrightarrow> c \<noteq> last (a # xs) \<Longrightarrow> f (bs' ! c) = f (bs ! c)"
  shows "chain f bs' a (xs @ [b]) z"
proof (cases xs rule: rev_cases)
  case Nil
  with assms show ?thesis by simp
next
  case (snoc xs' p)
  have c: "chain f bs a xs' p" using assms(1) by (simp add: snoc chain_append)
  have "chain f bs' a xs' p"
    by (rule chain_restart [OF c]) (use assms(2,5) in \<open>auto simp: snoc\<close>)
  with assms(3,4) show ?thesis by (simp add: snoc chain_append)
qed

text \<open>The two loops of \<open>bget\<close> search the list in its order and backwards, and never run out of steps.\<close>

lemma walk_chain:
  "chain f bs a xs NBUF \<Longrightarrow> NBUF \<notin> set xs \<Longrightarrow> length xs \<le> k \<Longrightarrow>
   walk (Suc k) f P bs (f (bs ! a)) = Some (List.find (\<lambda>b. P (bs ! b)) xs)"
proof (induction xs arbitrary: a k)
  case (Cons x xs)
  then obtain k' where "k = Suc k'" by (cases k) auto
  with Cons show ?case by auto
qed simp

definition move_front :: "nat \<Rightarrow> buf list \<Rightarrow> buf list" where
  "move_front b bs = link_front b (unlink_buf b bs)"

lemma unlink_next:
  assumes "b < length bs" "b_next (bs ! b) \<noteq> b" "b_prev (bs ! b) \<noteq> b" "c < length bs"
  shows "b_next (unlink_buf b bs ! c) = (if c = b_prev (bs ! b) then b_next (bs ! b) else b_next (bs ! c))"
    and "b_prev (unlink_buf b bs ! c) = (if c = b_next (bs ! b) then b_prev (bs ! b) else b_prev (bs ! c))"
  using assms by (auto simp: unlink_buf_def Let_def nth_update)

lemma link_next:
  assumes "b < NBUF" "length bs = Suc NBUF" "b_next (bs ! NBUF) \<noteq> b" "b_next (bs ! NBUF) < length bs" "c < length bs"
  shows "b_next (link_front b bs ! c) = (if c = NBUF then b else if c = b then b_next (bs ! NBUF) else b_next (bs ! c))"
    and "b_prev (link_front b bs ! c) = (if c = b_next (bs ! NBUF) then b else if c = b then NBUF else b_prev (bs ! c))"
  using assms by (auto simp: link_front_def Let_def nth_update)

lemma length_unlink [simp]: "length (unlink_buf b bs) = length bs"
  and length_link [simp]: "length (link_front b bs) = length bs"
  and length_move_front [simp]: "length (move_front b bs) = length bs"
  by (simp_all add: unlink_buf_def link_front_def move_front_def Let_def)

lemma chain_first: "chain f bs a xs z \<Longrightarrow> f (bs ! a) = hd (xs @ [z])"
  by (cases xs) auto

lemma chain_last: "chain f bs a xs z \<Longrightarrow> f (bs ! last (a # xs)) = z"
  by (induction xs arbitrary: a) auto

lemma dll_unlink:
  assumes "dll bs (xs @ b # ys)"
  shows "dll (unlink_buf b bs) (xs @ ys)"
proof -
  have len: "length bs = Suc NBUF" and dist: "distinct (xs @ b # ys)" and st: "set (xs @ b # ys) \<subseteq> {..<NBUF}"
    and nx: "chain b_next bs NBUF (xs @ b # ys) NBUF" and pv: "chain b_prev bs NBUF (rev ys @ b # rev xs) NBUF"
    using assms by (auto simp: dll_def)
  have small: "c < NBUF" if "c \<in> set (xs @ b # ys)" for c using st that by blast
  have dn: "distinct (NBUF # xs @ b # ys)" using dist small by force
  have n: "b_next (bs ! b) = last (NBUF # rev ys)"
    using nx by (cases ys) (auto simp: chain_append)
  have p: "b_prev (bs ! b) = last (NBUF # xs)"
    using pv by (cases xs rule: rev_cases) (auto simp: chain_append)
  have "last (NBUF # xs) \<in> set (NBUF # xs)" and "last (NBUF # rev ys) \<in> set (NBUF # rev ys)"
    by (rule last_in_set, simp)+
  then have lasts: "last (NBUF # xs) < length bs" "last (NBUF # rev ys) < length bs"
    and nb: "b_next (bs ! b) \<noteq> b" and pb: "b_prev (bs ! b) \<noteq> b"
    unfolding n p using dn small len by fastforce+
  have blen: "b < length bs" using small [of b] len by simp
  note un = unlink_next [OF blen nb pb]
  have lt: "c < length bs" if "c \<in> set (NBUF # xs @ ys)" for c using that small len by fastforce
  have "chain b_next (unlink_buf b bs) NBUF (xs @ ys) NBUF"
    by (rule chain_unlink [OF nx dn]) (use un lt lasts p in auto)
  moreover have "distinct (NBUF # rev ys @ b # rev xs)" using dn by auto
  then have "chain b_prev (unlink_buf b bs) NBUF (rev ys @ rev xs) NBUF"
    by (rule chain_unlink [OF pv]) (use un lt lasts n in auto)
  ultimately show ?thesis using len dist st by (auto simp: dll_def)
qed

lemma dll_link:
  assumes "dll bs xs" and b: "b < NBUF" "b \<notin> set xs"
  shows "dll (link_front b bs) (b # xs)"
proof -
  have len: "length bs = Suc NBUF" and dist: "distinct xs" and st: "set xs \<subseteq> {..<NBUF}"
    and nx: "chain b_next bs NBUF xs NBUF" and pv: "chain b_prev bs NBUF (rev xs) NBUF"
    using assms by (auto simp: dll_def)
  define h where "h = b_next (bs ! NBUF)"
  have h: "h = hd (xs @ [NBUF])" unfolding h_def by (rule chain_first [OF nx])
  have hb: "h \<noteq> b" "h < length bs" unfolding h using b st len by (cases xs; force)+
  note ln = link_next [OF b(1) len, folded h_def, OF hb]
  have lt: "c < length bs" if "c \<in> set (NBUF # xs)" for c using that st len by fastforce
  have "chain b_next (link_front b bs) b xs NBUF"
    by (rule chain_restart [OF nx]) (use ln lt b len st in \<open>auto simp: h_def\<close>)
  then have "chain b_next (link_front b bs) NBUF (b # xs) NBUF" using ln(1) [of NBUF] len by simp
  moreover have "last (NBUF # rev xs) = h" unfolding h by (cases xs) auto
  then have "chain b_prev (link_front b bs) NBUF (rev xs @ [b]) NBUF"
    by (intro chain_snoc [OF pv]) (use ln hb lt b len st dist in auto)
  ultimately show ?thesis using len dist st b by (auto simp: dll_def)
qed

text \<open>\<open>brelse\<close> moves its buffer from wherever it is in the list to the front.\<close>

lemma lru_move_front:
  assumes "lru_list bs (xs @ b # ys)"
  shows "lru_list (move_front b bs) (b # xs @ ys)"
proof -
  have d: "dll bs (xs @ b # ys)" and st: "set (xs @ b # ys) = {..<NBUF}" using assms by (auto simp: lru_list_def)
  have "distinct (xs @ b # ys)" and "b < NBUF" using d st by (auto simp: dll_def)
  with dll_link [OF dll_unlink [OF d]] st show ?thesis by (auto simp: lru_list_def move_front_def)
qed

text \<open>Moving a buffer changes nothing but the links.\<close>

definition core :: "buf \<Rightarrow> buf" where
  "core x = x\<lparr>b_prev := 0, b_next := 0\<rparr>"

lemma core_upd_links:
  "c < length bs \<Longrightarrow> core (bs[i := (bs ! i)\<lparr>b_prev := v\<rparr>] ! c) = core (bs ! c)"
  "c < length bs \<Longrightarrow> core (bs[i := (bs ! i)\<lparr>b_next := v\<rparr>] ! c) = core (bs ! c)"
  by (simp_all add: nth_update core_def)

lemma core_move_front: "c < length bs \<Longrightarrow> core (move_front b bs ! c) = core (bs ! c)"
  by (simp only: move_front_def link_front_def unlink_buf_def Let_def core_upd_links length_list_update)

lemma core_eqD:
  assumes "core x = core y"
  shows "b_flags x = b_flags y" "b_dev x = b_dev y" "b_blockno x = b_blockno y" "b_lock x = b_lock y"
    "b_refcnt x = b_refcnt y" "b_qnext x = b_qnext y" "b_data x = b_data y"
  using assms by (cases x; cases y; simp add: core_def)+

lemma links_kept:
  assumes "lru_list bs xs" and "length bs' = length bs"
    and "\<And>c. c < length bs \<Longrightarrow> b_next (bs' ! c) = b_next (bs ! c) \<and> b_prev (bs' ! c) = b_prev (bs ! c)"
  shows "lru_list bs' xs"
proof -
  have len: "length bs = Suc NBUF" and st: "set xs = {..<NBUF}" using assms(1) by (auto simp: lru_list_def dll_def)
  have nx: "chain b_next bs NBUF xs NBUF" and pv: "chain b_prev bs NBUF (rev xs) NBUF"
    using assms(1) by (auto simp: lru_list_def dll_def)
  have "chain b_next bs' NBUF xs NBUF" by (rule chain_restart [OF nx]) (use assms(3) len st in simp_all)
  moreover have "chain b_prev bs' NBUF (rev xs) NBUF" by (rule chain_restart [OF pv]) (use assms(3) len st in simp_all)
  ultimately show ?thesis using assms(1,2) by (simp add: lru_list_def dll_def)
qed

subsection \<open>The cache as a view of the disk\<close>

definition valid :: "buf \<Rightarrow> bool" where "valid x \<longleftrightarrow> b_flags x AND B_VALID \<noteq> 0"
definition dirty :: "buf \<Rightarrow> bool" where "dirty x \<longleftrightarrow> b_flags x AND B_DIRTY \<noteq> 0"
definition is_blk :: "uint \<Rightarrow> buf \<Rightarrow> bool" where "is_blk n x \<longleftrightarrow> b_dev x = 1 \<and> b_blockno x = n"
definition locked :: "buf \<Rightarrow> bool" where "locked x \<longleftrightarrow> sl_locked (b_lock x)"

lemma valid_bit: "valid x \<longleftrightarrow> bit (b_flags x) 1"
  using and_exp_eq_0_iff_not_bit [of "b_flags x" 1] by (simp add: valid_def)

lemma dirty_bit: "dirty x \<longleftrightarrow> bit (b_flags x) 2"
  using and_exp_eq_0_iff_not_bit [of "b_flags x" 2] by (simp add: dirty_def)

lemma flags_busy:
  assumes "\<not> valid x \<or> dirty x"
  shows "b_flags x AND (B_VALID OR B_DIRTY) \<noteq> B_VALID"
proof
  assume e: "b_flags x AND (B_VALID OR B_DIRTY) = B_VALID"
  have "bit (b_flags x AND (B_VALID OR B_DIRTY)) 1 = bit (b_flags x) 1"
    and "bit (b_flags x AND (B_VALID OR B_DIRTY)) 2 = bit (b_flags x) 2"
    by (simp_all add: bit_simps)
  then show False using assms unfolding e valid_bit dirty_bit by (simp add: bit_simps)
qed

lemma io_done_valid: "valid (io_done d x)" "\<not> dirty (io_done d x)"
  by (simp_all add: valid_bit dirty_bit io_done_def bit_simps)

text \<open>
  The file system uses device 1 (\<open>ROOTDEV\<close>) only.  The invariant of a buffer: it has a block's
  length; it is referenced exactly while it is locked (no other process is using the cache);
  it belongs to device 1 or has never been used; a modified buffer is valid; and an unlocked
  buffer that is valid and not modified agrees with the disk.
\<close>

definition buf_ok :: "(uint \<Rightarrow> byte list) \<Rightarrow> buf \<Rightarrow> bool" where
  "buf_ok dk x \<longleftrightarrow> length (b_data x) = BSIZE \<and> b_qnext x = None \<and> b_refcnt x = (if locked x then 1 else 0) \<and>
     (b_dev x = 1 \<or> b_dev x = 0 \<and> \<not> valid x \<and> \<not> locked x) \<and> (dirty x \<longrightarrow> valid x) \<and>
     (valid x \<and> \<not> dirty x \<and> \<not> locked x \<longrightarrow> b_data x = dk (b_blockno x))"

definition blks_unique :: "buf list \<Rightarrow> bool" where
  "blks_unique bs \<longleftrightarrow> (\<forall>n. \<forall>b < NBUF. \<forall>c < NBUF. is_blk n (bs ! b) \<longrightarrow> is_blk n (bs ! c) \<longrightarrow> b = c)"

definition disk_ok :: "'z bio_st_scheme \<Rightarrow> bool" where
  "disk_ok s \<longleftrightarrow> idequeue s = None \<and> havedisk1 s \<and> (\<forall>d n. \<not> bad_sector s d n) \<and> (\<forall>n. length (disk s 1 n) = BSIZE)"

definition bio_inv :: "'z bio_st_scheme \<Rightarrow> bool" where
  "bio_inv s \<longleftrightarrow> (\<exists>xs. lru_list (bufs s) xs) \<and> disk_ok s \<and> (\<forall>b < NBUF. buf_ok (disk s 1) (bufs s ! b)) \<and> blks_unique (bufs s)"

text \<open>What a reader of block \<open>n\<close> sees: the cached copy if there is one, or the disk.\<close>

definition content :: "'z bio_st_scheme \<Rightarrow> uint \<Rightarrow> byte list" where
  "content s n =
    (case List.find (\<lambda>b. is_blk n (bufs s ! b) \<and> valid (bufs s ! b)) [0..<NBUF] of
       Some b \<Rightarrow> b_data (bufs s ! b) | None \<Rightarrow> disk s 1 n)"

lemma content_cached:
  assumes "blks_unique (bufs s)" "b < NBUF" "is_blk n (bufs s ! b)" "valid (bufs s ! b)"
  shows "content s n = b_data (bufs s ! b)"
proof -
  let ?P = "\<lambda>b. is_blk n (bufs s ! b) \<and> valid (bufs s ! b)"
  have only: "c = b" if "c < NBUF" "?P c" for c
    using assms that unfolding blks_unique_def by blast
  obtain c where c: "List.find ?P [0..<NBUF] = Some c"
    using assms(2-4) by (cases "List.find ?P [0..<NBUF]") (auto simp: find_None_iff)
  then have "c < NBUF" "?P c" by (auto simp: find_Some_iff)
  then have "c = b" by (rule only)
  with c show ?thesis by (simp add: content_def)
qed

lemma content_uncached:
  assumes "\<And>b. b < NBUF \<Longrightarrow> is_blk n (bufs s ! b) \<Longrightarrow> \<not> valid (bufs s ! b)"
  shows "content s n = disk s 1 n"
proof -
  have "List.find (\<lambda>b. is_blk n (bufs s ! b) \<and> valid (bufs s ! b)) [0..<NBUF] = None"
    using assms by (auto simp: find_None_iff)
  then show ?thesis by (simp add: content_def)
qed

lemma bio_invD:
  assumes "bio_inv s"
  shows "length (bufs s) = Suc NBUF" "disk_ok s" "blks_unique (bufs s)" "b < NBUF \<Longrightarrow> buf_ok (disk s 1) (bufs s ! b)"
    "idequeue s = None"
  using assms by (auto simp: bio_inv_def lru_list_def dll_def disk_ok_def)

subsection \<open>Operations\<close>

lemma find_SomeD: "List.find P xs = Some c \<Longrightarrow> c \<in> set xs \<and> P c"
  by (metis find_Some_iff nth_mem)

lemma find_only:
  assumes "b \<in> set xs" "P b" "\<And>c. c \<in> set xs \<Longrightarrow> P c \<Longrightarrow> c = b"
  shows "List.find P xs = Some b"
proof (cases "List.find P xs")
  case None
  with assms(1,2) show ?thesis by (simp add: find_None_iff)
next
  case (Some c)
  with assms(3) find_SomeD [OF Some] show ?thesis by simp
qed

definition grab :: "uint \<Rightarrow> buf \<Rightarrow> buf" where
  "grab pid x = x\<lparr>b_refcnt := 1, b_lock := \<lparr>sl_locked = True, sl_pid = pid\<rparr>\<rparr>"

lemma bget_hit:
  assumes run: "run_ok i s" and lru: "lru_list (bufs s) xs" and uq: "blks_unique (bufs s)"
    and b: "b < NBUF" "is_blk bno (bufs s ! b)" "\<not> locked (bufs s ! b)" "b_refcnt (bufs s ! b) = 0"
  shows "bget 1 bno s = Ok b (s\<lparr>bufs := (bufs s)[b := grab (p_pid (procs s ! i)) (bufs s ! b)]\<rparr>)"
proof -
  have h: "calm s" "held s = []" using run by (auto simp: run_ok_def)
  have len: "length (bufs s) = Suc NBUF" and st: "set xs = {..<NBUF}" "length xs = NBUF"
    and nx: "chain b_next (bufs s) NBUF xs NBUF"
    using lru by (auto simp: lru_list_def dll_def dest: distinct_card)
  let ?P = "\<lambda>x. b_dev x = 1 \<and> b_blockno x = bno"
  have "List.find (\<lambda>c. ?P (bufs s ! c)) xs = Some b"
    by (rule find_only) (use b st uq in \<open>auto simp: blks_unique_def is_blk_def\<close>)
  then have w: "walk (Suc NBUF) b_next ?P (bufs s) (b_next (bufs s ! NBUF)) = Some (Some b)"
    using walk_chain [OF nx, of NBUF ?P] st by simp
  let ?s1 = "upd_buf b (\<lambda>x. x\<lparr>b_refcnt := b_refcnt x + 1\<rparr>) s"
  have run1: "run_ok i ?s1" and lk: "\<not> sl_locked (b_lock (bufs ?s1 ! b))" and pr: "procs ?s1 = procs s"
    using run b(1,3) len by (simp_all add: run_ok_def enter_simps upd_buf_def locked_def)
  have "release L_bcache (enter L_bcache ?s1) = Ok () ?s1"
    using h by (simp add: release_enter enter_simps)
  moreover have "put_buflock b \<lparr>sl_locked = True, sl_pid = p_pid (procs s ! i)\<rparr> ?s1
      = s\<lparr>bufs := (bufs s)[b := grab (p_pid (procs s ! i)) (bufs s ! b)]\<rparr>"
    using b len by (simp add: put_buflock_def upd_buf_def grab_def)
  ultimately show ?thesis
    using h w buf_acquire_free [OF run1 lk]
    by (simp add: bget_def acquire_calm enter_simps pr Let_def del: walk.simps)
qed

text \<open>
  A miss recycles a buffer that is neither referenced nor modified: the one released longest
  ago among those, since the search runs from the far end of the list.
\<close>

definition evictable :: "buf \<Rightarrow> bool" where
  "evictable x \<longleftrightarrow> b_refcnt x = 0 \<and> \<not> dirty x"

lemma bget_miss:
  assumes run: "run_ok i s" and lru: "lru_list (bufs s) xs"
    and miss: "\<And>c. c < NBUF \<Longrightarrow> \<not> is_blk bno (bufs s ! c)"
    and b: "List.find (\<lambda>c. evictable (bufs s ! c)) (rev xs) = Some b" and lk: "\<not> locked (bufs s ! b)"
  shows "bget 1 bno s = Ok b (s\<lparr>bufs := (bufs s)[b :=
    grab (p_pid (procs s ! i)) ((bufs s ! b)\<lparr>b_dev := 1, b_blockno := bno, b_flags := 0\<rparr>)]\<rparr>)"
proof -
  have h: "calm s" "held s = []" using run by (auto simp: run_ok_def)
  have len: "length (bufs s) = Suc NBUF" and st: "set xs = {..<NBUF}" "length xs = NBUF"
    and nx: "chain b_next (bufs s) NBUF xs NBUF" and pv: "chain b_prev (bufs s) NBUF (rev xs) NBUF"
    using lru by (auto simp: lru_list_def dll_def dest: distinct_card)
  have "b \<in> set (rev xs)" using find_SomeD [OF b] by simp
  then have bN: "b < NBUF" using st by auto
  let ?P = "\<lambda>x. b_dev x = 1 \<and> b_blockno x = bno"
  let ?Q = "\<lambda>x. b_refcnt x = 0 \<and> b_flags x AND B_DIRTY = 0"
  have "List.find (\<lambda>c. ?P (bufs s ! c)) xs = None"
    using miss st by (auto simp: find_None_iff is_blk_def)
  then have w: "walk (Suc NBUF) b_next ?P (bufs s) (b_next (bufs s ! NBUF)) = Some None"
    using walk_chain [OF nx, of NBUF ?P] st by simp
  have "List.find (\<lambda>c. ?Q (bufs s ! c)) (rev xs) = Some b" using b by (simp add: evictable_def dirty_def)
  then have w2: "walk (Suc NBUF) b_prev ?Q (bufs s) (b_prev (bufs s ! NBUF)) = Some (Some b)"
    using walk_chain [OF pv, of NBUF ?Q] st by simp
  let ?s1 = "upd_buf b (\<lambda>x. x\<lparr>b_dev := 1, b_blockno := bno, b_flags := 0, b_refcnt := 1\<rparr>) s"
  have run1: "run_ok i ?s1" and lk: "\<not> sl_locked (b_lock (bufs ?s1 ! b))" and pr: "procs ?s1 = procs s"
    using run bN lk len by (simp_all add: run_ok_def enter_simps upd_buf_def locked_def)
  have "release L_bcache (enter L_bcache ?s1) = Ok () ?s1"
    using h by (simp add: release_enter enter_simps)
  moreover have "put_buflock b \<lparr>sl_locked = True, sl_pid = p_pid (procs s ! i)\<rparr> ?s1
      = s\<lparr>bufs := (bufs s)[b := grab (p_pid (procs s ! i)) ((bufs s ! b)\<lparr>b_dev := 1, b_blockno := bno, b_flags := 0\<rparr>)]\<rparr>"
    using bN len by (simp add: put_buflock_def upd_buf_def grab_def)
  ultimately show ?thesis
    using h w w2 buf_acquire_free [OF run1 lk]
    by (simp add: bget_def acquire_calm enter_simps pr Let_def del: walk.simps)
qed

text \<open>Putting \<open>x\<close> in place of buffer \<open>b\<close>, where \<open>x\<close> stands for the same block or one not cached.\<close>

lemma bio_inv_upd:
  assumes inv: "bio_inv s" and b: "b < NBUF" and ok: "buf_ok (disk s 1) x"
    and links: "b_next x = b_next (bufs s ! b)" "b_prev x = b_prev (bufs s ! b)"
    and blk: "\<And>n c. is_blk n x \<Longrightarrow> c < NBUF \<Longrightarrow> c \<noteq> b \<Longrightarrow> \<not> is_blk n (bufs s ! c)"
  shows "bio_inv (s\<lparr>bufs := (bufs s)[b := x], procs := P, ide_sel := sel\<rparr>)"
proof -
  note D = bio_invD [OF inv]
  obtain xs where "lru_list (bufs s) xs" using inv by (auto simp: bio_inv_def)
  then have lru: "lru_list ((bufs s)[b := x]) xs"
    by (rule links_kept) (use links in \<open>simp_all add: nth_update\<close>)
  have nth: "(bufs s)[b := x] ! c = (if c = b then x else bufs s ! c)" if "c < NBUF" for c
    using that D(1) by (simp add: nth_update)
  moreover have "blks_unique ((bufs s)[b := x])"
    unfolding blks_unique_def
  proof (intro allI impI)
    fix n c c'
    assume c: "c < NBUF" "c' < NBUF" "is_blk n ((bufs s)[b := x] ! c)" "is_blk n ((bufs s)[b := x] ! c')"
    show "c = c'"
    proof (cases "c = b \<or> c' = b")
      case True
      with c nth blk show ?thesis by metis
    next
      case False
      with c nth D(3) show ?thesis unfolding blks_unique_def by metis
    qed
  qed
  moreover have "buf_ok (disk s 1) ((bufs s)[b := x] ! c)" if "c < NBUF" for c
    using that nth D(4) ok by simp
  ultimately show ?thesis using D(2) lru by (auto simp: bio_inv_def disk_ok_def)
qed

lemma content_upd_other:
  assumes inv: "bio_inv s" and inv': "bio_inv (s\<lparr>bufs := (bufs s)[b := x], procs := P, ide_sel := sel\<rparr>)"
    and b: "b < NBUF" and n: "\<not> is_blk n x"
    and old: "is_blk n (bufs s ! b) \<Longrightarrow> valid (bufs s ! b) \<Longrightarrow> b_data (bufs s ! b) = disk s 1 n"
  shows "content (s\<lparr>bufs := (bufs s)[b := x], procs := P, ide_sel := sel\<rparr>) n = content s n"
proof -
  let ?s = "s\<lparr>bufs := (bufs s)[b := x], procs := P, ide_sel := sel\<rparr>"
  note D = bio_invD [OF inv] and D' = bio_invD [OF inv']
  have nth: "bufs ?s ! c = (if c = b then x else bufs s ! c)" if "c < NBUF" for c
    using that D(1) by (auto simp: nth_update)
  show ?thesis
  proof (cases "\<exists>c < NBUF. is_blk n (bufs s ! c) \<and> valid (bufs s ! c)")
    case True
    then obtain c where c: "c < NBUF" "is_blk n (bufs s ! c)" "valid (bufs s ! c)" by blast
    have cs: "content s n = b_data (bufs s ! c)" by (rule content_cached [OF D(3) c])
    show ?thesis
    proof (cases "c = b")
      case False
      then show ?thesis using cs content_cached [OF D'(3) c(1)] c nth [OF c(1)] by simp
    next
      case same: True
      have "content ?s n = disk ?s 1 n"
        by (rule content_uncached) (use nth n c D(3) same b in \<open>auto simp: blks_unique_def\<close>)
      then show ?thesis using cs c old same by simp
    qed
  next
    case False
    then have "content s n = disk s 1 n" by (intro content_uncached) blast
    moreover have "content ?s n = disk ?s 1 n"
      by (rule content_uncached) (use False nth n in \<open>auto split: if_splits\<close>)
    ultimately show ?thesis by simp
  qed
qed

lemma content_upd_same:
  assumes inv': "bio_inv (s\<lparr>bufs := (bufs s)[b := x], procs := P, ide_sel := sel\<rparr>)"
    and b: "b < NBUF" "is_blk n x" "valid x"
  shows "content (s\<lparr>bufs := (bufs s)[b := x], procs := P, ide_sel := sel\<rparr>) n = b_data x"
proof -
  note D' = bio_invD [OF inv']
  show ?thesis using content_cached [OF D'(3), of b n] b D'(1) by simp
qed

abbreviation with_buf ::
  "'z bio_st_scheme \<Rightarrow> nat \<Rightarrow> buf \<Rightarrow> proc list \<Rightarrow> uint \<times> uint \<Rightarrow> 'z bio_st_scheme" where
  "with_buf s b x P sel \<equiv> s\<lparr>bufs := (bufs s)[b := x], procs := P, ide_sel := sel\<rparr>"

lemma run_ok_with_buf: "run_ok i s \<Longrightarrow> P = procs s \<or> P = slept i ch (procs s) \<Longrightarrow> run_ok i (with_buf s b x P sel)"
  by (auto simp: run_ok_def slept_def calm_def cli_wf_def)

lemma bread_fill:
  assumes get: "bget 1 bno s = Ok b (s\<lparr>bufs := (bufs s)[b := y]\<rparr>)" and inv: "bio_inv s" and run: "run_ok i s"
    and b: "b < NBUF" "bno < FSSIZE"
    and y: "is_blk bno y" "\<not> valid y" "\<not> dirty y" "locked y" "b_qnext y = None"
  shows "bread 1 bno s = Ok b (with_buf s b (io_done (disk s 1 bno) y) (slept i (Ch_buf b) (procs s)) (1, bno))"
proof -
  let ?s = "s\<lparr>bufs := (bufs s)[b := y]\<rparr>"
  note D = bio_invD [OF inv]
  have nth: "bufs ?s ! b = y" using b(1) D(1) by simp
  have "run_ok i ?s" using run by (simp add: run_ok_def calm_def cli_wf_def)
  then have "iderw b ?s = Ok () (iderw_result i b ?s)"
    by (rule iderw_eq)
      (use D b y nth in \<open>simp_all add: is_blk_def disk_ok_def locked_def flags_busy [of y, simplified]\<close>)
  moreover have "iderw_result i b ?s = with_buf s b (io_done (disk s 1 bno) y) (slept i (Ch_buf b) (procs s)) (1, bno)"
    using b(1) D(1) y by (simp add: iderw_result_def nth dirty_def is_blk_def Let_def)
  ultimately show ?thesis using y(2) nth by (simp add: bread_def get valid_def)
qed

lemma bread_ok:
  assumes inv: "bio_inv s" and run: "run_ok i s" and n: "bno < FSSIZE"
    and unl: "\<And>c. c < NBUF \<Longrightarrow> is_blk bno (bufs s ! c) \<Longrightarrow> \<not> locked (bufs s ! c)"
    and room: "(\<exists>c < NBUF. is_blk bno (bufs s ! c)) \<or> (\<exists>c < NBUF. evictable (bufs s ! c))"
  obtains b x P sel where
    "bread 1 bno s = Ok b (with_buf s b x P sel)" "P = procs s \<or> P = slept i (Ch_buf b) (procs s)"
    "b < NBUF" "is_blk bno x" "valid x" "locked x" "b_data x = content s bno" "buf_ok (disk s 1) x"
    "b_next x = b_next (bufs s ! b)" "b_prev x = b_prev (bufs s ! b)"
    "\<not> locked (bufs s ! b)" "dirty x \<longleftrightarrow> is_blk bno (bufs s ! b) \<and> dirty (bufs s ! b)"
    "is_blk bno (bufs s ! b) \<or> \<not> dirty (bufs s ! b) \<and> (\<forall>c < NBUF. \<not> is_blk bno (bufs s ! c))"
proof -
  note D = bio_invD [OF inv]
  obtain xs where lru: "lru_list (bufs s) xs" using inv by (auto simp: bio_inv_def)
  let ?pid = "p_pid (procs s ! i)"
  show ?thesis
  proof (cases "\<exists>c < NBUF. is_blk bno (bufs s ! c)")
    case True
    then obtain b where b: "b < NBUF" "is_blk bno (bufs s ! b)" by blast
    have ok: "buf_ok (disk s 1) (bufs s ! b)" and lk: "\<not> locked (bufs s ! b)" using D(4) b unl by auto
    then have "b_refcnt (bufs s ! b) = 0" by (simp add: buf_ok_def)
    note get = bget_hit [OF run lru D(3) b lk this]
    let ?y = "grab ?pid (bufs s ! b)"
    show ?thesis
    proof (cases "valid (bufs s ! b)")
      case v: True
      have "bread 1 bno s = Ok b (with_buf s b ?y (procs s) (ide_sel s))"
        using v b(1) D(1) by (simp add: bread_def get valid_def grab_def)
      then show ?thesis
        by (rule that) (use b v ok lk content_cached [OF D(3) b v] in
            \<open>simp_all add: grab_def is_blk_def valid_def dirty_def locked_def buf_ok_def\<close>)
    next
      case iv: False
      then have nd: "\<not> dirty (bufs s ! b)" using ok by (auto simp: buf_ok_def)
      have c: "content s bno = disk s 1 bno"
        by (rule content_uncached) (use D(3) b iv in \<open>auto simp: blks_unique_def\<close>)
      have "bread 1 bno s = Ok b (with_buf s b (io_done (disk s 1 bno) ?y) (slept i (Ch_buf b) (procs s)) (1, bno))"
        by (rule bread_fill [OF get inv run b(1) n])
          (use b iv nd ok in \<open>simp_all add: grab_def is_blk_def valid_def dirty_def locked_def buf_ok_def\<close>)
      then show ?thesis
        by (rule that) (use b nd ok lk c D(2) io_done_valid in
            \<open>simp_all add: grab_def is_blk_def dirty_def locked_def buf_ok_def disk_ok_def io_done_def valid_def\<close>)
    qed
  next
    case False
    then have miss: "\<And>c. c < NBUF \<Longrightarrow> \<not> is_blk bno (bufs s ! c)" by blast
    from room False obtain c where c: "c < NBUF" "evictable (bufs s ! c)" by blast
    have "set xs = {..<NBUF}" using lru by (simp add: lru_list_def)
    with c obtain b where b: "List.find (\<lambda>c. evictable (bufs s ! c)) (rev xs) = Some b"
      by (cases "List.find (\<lambda>c. evictable (bufs s ! c)) (rev xs)") (auto simp: find_None_iff)
    then have bN: "b < NBUF" and ev: "evictable (bufs s ! b)"
      using find_SomeD [OF b] \<open>set xs = {..<NBUF}\<close> by auto
    have ok: "buf_ok (disk s 1) (bufs s ! b)" using D(4) bN by auto
    have lk: "\<not> locked (bufs s ! b)" using ev ok by (auto simp: evictable_def buf_ok_def)
    note get = bget_miss [OF run lru miss b lk]
    have cn: "content s bno = disk s 1 bno" by (rule content_uncached) (use miss in blast)
    let ?y = "grab ?pid ((bufs s ! b)\<lparr>b_dev := 1, b_blockno := bno, b_flags := 0\<rparr>)"
    have "bread 1 bno s = Ok b (with_buf s b (io_done (disk s 1 bno) ?y) (slept i (Ch_buf b) (procs s)) (1, bno))"
      by (rule bread_fill [OF get inv run bN n])
        (use ok in \<open>simp_all add: grab_def is_blk_def valid_def dirty_def locked_def buf_ok_def\<close>)
    then show ?thesis
      by (rule that) (use bN ev ok lk cn D(2) miss io_done_valid in
          \<open>simp_all add: grab_def is_blk_def dirty_def locked_def buf_ok_def disk_ok_def io_done_def valid_def evictable_def\<close>)
  qed
qed

text \<open>
  \<open>bread\<close> returns the block's buffer, locked and holding what a reader sees of the block; the
  view of every block stays the same.
\<close>

lemma bread_spec:
  assumes inv: "bio_inv s" and run: "run_ok i s" and n: "bno < FSSIZE"
    and unl: "\<And>c. c < NBUF \<Longrightarrow> is_blk bno (bufs s ! c) \<Longrightarrow> \<not> locked (bufs s ! c)"
    and room: "(\<exists>c < NBUF. is_blk bno (bufs s ! c)) \<or> (\<exists>c < NBUF. evictable (bufs s ! c))"
  obtains b x P sel where
    "bread 1 bno s = Ok b (with_buf s b x P sel)"
    "b < NBUF" "is_blk bno x" "valid x" "locked x" "b_data x = content s bno"
    "\<not> locked (bufs s ! b)" "dirty x \<longleftrightarrow> is_blk bno (bufs s ! b) \<and> dirty (bufs s ! b)"
    "is_blk bno (bufs s ! b) \<or> \<not> dirty (bufs s ! b) \<and> (\<forall>c < NBUF. \<not> is_blk bno (bufs s ! c))"
    "bio_inv (with_buf s b x P sel)" "run_ok i (with_buf s b x P sel)" "content (with_buf s b x P sel) = content s"
    "P = procs s \<or> P = slept i (Ch_buf b) (procs s)"
proof -
  obtain b x P sel where r: "bread 1 bno s = Ok b (with_buf s b x P sel)" "P = procs s \<or> P = slept i (Ch_buf b) (procs s)"
    "b < NBUF" "is_blk bno x" "valid x" "locked x" "b_data x = content s bno" "buf_ok (disk s 1) x"
    "b_next x = b_next (bufs s ! b)" "b_prev x = b_prev (bufs s ! b)"
    "\<not> locked (bufs s ! b)" "dirty x \<longleftrightarrow> is_blk bno (bufs s ! b) \<and> dirty (bufs s ! b)"
    and old: "is_blk bno (bufs s ! b) \<or> \<not> dirty (bufs s ! b) \<and> (\<forall>c < NBUF. \<not> is_blk bno (bufs s ! c))"
    by (rule bread_ok [OF inv run n unl room])
  note D = bio_invD [OF inv]
  have blk: "\<not> is_blk m (bufs s ! c)" if "is_blk m x" "c < NBUF" "c \<noteq> b" for m c
  proof -
    have "m = bno" using that(1) r(4) by (simp add: is_blk_def)
    with old that D(3) r(3) show ?thesis unfolding blks_unique_def by blast
  qed
  have inv': "bio_inv (with_buf s b x P sel)"
    by (rule bio_inv_upd [OF inv r(3) r(8) r(9) r(10) blk])
  have "content (with_buf s b x P sel) m = content s m" for m
  proof (cases "is_blk m x")
    case True
    then have "m = bno" using r(4) by (simp add: is_blk_def)
    then show ?thesis using content_upd_same [OF inv' r(3) True r(5)] r(7) by simp
  next
    case False
    then have "m \<noteq> bno" using r(4) by auto
    show ?thesis
    proof (rule content_upd_other [OF inv inv' r(3) False])
      assume "is_blk m (bufs s ! b)" "valid (bufs s ! b)"
      with \<open>m \<noteq> bno\<close> old r(11) D(4) [OF r(3)] show "b_data (bufs s ! b) = disk s 1 m"
        by (auto simp: buf_ok_def is_blk_def)
    qed
  qed
  then have "content (with_buf s b x P sel) = content s" by blast
  then show ?thesis
    by (rule that [OF r(1,3-7,11,12) old inv' run_ok_with_buf [OF run r(2)] _ r(2)])
qed

definition let_go :: "buf \<Rightarrow> buf" where
  "let_go x = x\<lparr>b_lock := \<lparr>sl_locked = False, sl_pid = 0\<rparr>, b_refcnt := 0\<rparr>"

lemma brelse_eq:
  assumes run: "run_ok i s" and len: "length (bufs s) = Suc NBUF" and b: "b < NBUF" "locked (bufs s ! b)" "b_refcnt (bufs s ! b) = 1"
  shows "brelse b s = Ok () (s\<lparr>bufs := move_front b ((bufs s)[b := let_go (bufs s ! b)]),
    procs := map (wake (Ch_buflock b)) (procs s)\<rparr>)"
proof -
  have h: "calm s" "held s = []" using run by (auto simp: run_ok_def)
  let ?s1 = "wakeup1 (Ch_buflock b) (put_buflock b \<lparr>sl_locked = False, sl_pid = 0\<rparr> s)"
  let ?s2 = "upd_buf b (\<lambda>x. x\<lparr>b_refcnt := b_refcnt x - 1\<rparr>) ?s1"
  have c1: "calm ?s1" "held ?s1 = []" using h by (simp_all add: enter_simps)
  have b2: "bufs ?s2 = (bufs s)[b := let_go (bufs s ! b)]"
    using b len by (simp add: upd_buf_def wakeup1_def put_buflock_def let_go_def)
  let ?s3 = "?s2\<lparr>bufs := move_front b (bufs ?s2)\<rparr>"
  have r0: "b_refcnt (bufs ?s2 ! b) = 0" using b len by (simp add: b2 let_go_def)
  have "release L_bcache (enter L_bcache ?s3) = Ok () ?s3"
    using c1 by (simp add: release_enter enter_simps)
  moreover have "?s3 = s\<lparr>bufs := move_front b ((bufs s)[b := let_go (bufs s ! b)]), procs := map (wake (Ch_buflock b)) (procs s)\<rparr>"
    unfolding b2 by (simp add: upd_buf_def wakeup1_def put_buflock_def)
  ultimately show ?thesis
    using h b c1 r0
    by (simp add: brelse_def buf_holding_calm locked_def buf_release_calm [OF run] acquire_calm enter_simps
        move_front_def Let_def)
qed

text \<open>
  The state of the cache by block number: which blocks are modified, which are locked, and
  which buffer holds a locked block.  \<open>rest\<close> is everything the cache does not touch; of the
  process table that is which processes run.
\<close>

definition dirty_blks :: "'z bio_st_scheme \<Rightarrow> uint set" where
  "dirty_blks s = {n. \<exists>b < NBUF. is_blk n (bufs s ! b) \<and> dirty (bufs s ! b)}"

definition locked_blks :: "'z bio_st_scheme \<Rightarrow> uint set" where
  "locked_blks s = {n. \<exists>b < NBUF. is_blk n (bufs s ! b) \<and> locked (bufs s ! b)}"

definition holds :: "'z bio_st_scheme \<Rightarrow> nat \<Rightarrow> uint \<Rightarrow> bool" where
  "holds s b n \<longleftrightarrow> b < NBUF \<and> is_blk n (bufs s ! b) \<and> valid (bufs s ! b) \<and> locked (bufs s ! b)"

definition run_view :: "proc \<Rightarrow> proc" where
  "run_view p = proc_zero\<lparr>p_state := (if p_state p = RUNNING then RUNNING else UNUSED)\<rparr>"

definition rest :: "'z bio_st_scheme \<Rightarrow> 'z bio_st_scheme" where
  "rest s = s\<lparr>bufs := [], procs := map run_view (procs s), ide_sel := (0, 0), disk := (\<lambda>_ _. []), disk_writes := []\<rparr>"

definition bgood :: "nat \<Rightarrow> 'z bio_st_scheme \<Rightarrow> bool" where
  "bgood i s \<longleftrightarrow> bio_inv s \<and> run_ok i s"

lemma run_view_wake [simp]: "map run_view (map (wake ch) ps) = map run_view ps"
  by (auto simp: run_view_def wake_def set_state_def)

lemma run_view_slept [simp]: "map run_view (slept i ch ps) = map run_view ps"
proof -
  have "run_view ((ps ! i)\<lparr>p_chan := None\<rparr>) = run_view (ps ! i)" by (simp add: run_view_def)
  then have "map run_view (slept i ch ps) = (map run_view ps)[i := run_view (ps ! i)]" by (simp only: slept_def map_update run_view_wake)
  also have "\<dots> = map run_view ps" by (cases "i < length ps") (simp_all add: list_update_same_conv list_update_beyond)
  finally show ?thesis .
qed

lemma rest_running: "rest t = rest s \<Longrightarrow> length (procs t) = length (procs s) \<and>
  (j < length (procs s) \<longrightarrow> (p_state (procs t ! j) = RUNNING \<longleftrightarrow> p_state (procs s ! j) = RUNNING))"
proof -
  assume "rest t = rest s"
  then have "procs (rest t) = procs (rest s)" by simp
  then have m: "map run_view (procs t) = map run_view (procs s)" by (simp add: rest_def)
  then have l: "length (procs t) = length (procs s)" by (metis length_map)
  have "run_view (procs t ! j) = run_view (procs s ! j)" if "j < length (procs s)" using that l m by (metis nth_map)
  then have "p_state (procs t ! j) = RUNNING \<longleftrightarrow> p_state (procs s ! j) = RUNNING" if "j < length (procs s)"
    using that by (auto simp: run_view_def dest!: arg_cong [of _ _ p_state] split: if_splits)
  with l show ?thesis by blast
qed

lemma blks_finite: "finite (dirty_blks s)" "finite (locked_blks s)"
proof -
  have "dirty_blks s \<subseteq> b_blockno ` (\<lambda>b. bufs s ! b) ` {..<NBUF}"
    and "locked_blks s \<subseteq> b_blockno ` (\<lambda>b. bufs s ! b) ` {..<NBUF}"
    by (auto simp: dirty_blks_def locked_blks_def is_blk_def)
  then show "finite (dirty_blks s)" "finite (locked_blks s)" by (auto intro: finite_subset)
qed

text \<open>With fewer blocks pinned or locked than there are buffers, some buffer can be recycled.\<close>

lemma room_for_one:
  assumes inv: "bio_inv s" and few: "card (dirty_blks s \<union> locked_blks s) < NBUF"
  shows "\<exists>c < NBUF. evictable (bufs s ! c)"
proof (rule ccontr)
  assume none: "\<not> ?thesis"
  note D = bio_invD [OF inv]
  have busy: "is_blk (b_blockno (bufs s ! b)) (bufs s ! b) \<and> b_blockno (bufs s ! b) \<in> dirty_blks s \<union> locked_blks s"
    if b: "b < NBUF" for b
  proof -
    have ok: "buf_ok (disk s 1) (bufs s ! b)" by (rule D(4) [OF b])
    then have "dirty (bufs s ! b) \<or> locked (bufs s ! b)"
      using none b by (auto simp: evictable_def buf_ok_def)
    moreover from this ok have "b_dev (bufs s ! b) = 1" by (auto simp: buf_ok_def)
    ultimately show ?thesis using b by (auto simp: dirty_blks_def locked_blks_def is_blk_def)
  qed
  have "inj_on (\<lambda>b. b_blockno (bufs s ! b)) {..<NBUF}"
  proof (rule inj_onI)
    fix b c assume bc: "b \<in> {..<NBUF}" "c \<in> {..<NBUF}" "b_blockno (bufs s ! b) = b_blockno (bufs s ! c)"
    with busy [of b] busy [of c] D(3) show "b = c" by (auto simp: blks_unique_def)
  qed
  moreover have "(\<lambda>b. b_blockno (bufs s ! b)) ` {..<NBUF} \<subseteq> dirty_blks s \<union> locked_blks s"
    using busy by auto
  ultimately have "card {..<NBUF} \<le> card (dirty_blks s \<union> locked_blks s)"
    by (metis card_image card_mono blks_finite finite_Un)
  with few show False by simp
qed

lemma dirty_blks_nth: "blks_unique (bufs s) \<Longrightarrow> b < NBUF \<Longrightarrow> is_blk n (bufs s ! b) \<Longrightarrow> n \<in> dirty_blks s \<longleftrightarrow> dirty (bufs s ! b)"
  and locked_blks_nth: "blks_unique (bufs s) \<Longrightarrow> b < NBUF \<Longrightarrow> is_blk n (bufs s ! b) \<Longrightarrow> n \<in> locked_blks s \<longleftrightarrow> locked (bufs s ! b)"
  unfolding dirty_blks_def locked_blks_def blks_unique_def by blast+

lemma clean_content:
  assumes inv: "bio_inv s" and n: "n \<notin> locked_blks s" "n \<notin> dirty_blks s"
  shows "content s n = disk s 1 n"
proof (cases "\<exists>b < NBUF. is_blk n (bufs s ! b) \<and> valid (bufs s ! b)")
  case True
  then obtain b where b: "b < NBUF" "is_blk n (bufs s ! b)" "valid (bufs s ! b)" by blast
  note D = bio_invD [OF inv]
  have "\<not> dirty (bufs s ! b)" "\<not> locked (bufs s ! b)"
    using n b by (auto simp: dirty_blks_def locked_blks_def)
  with D(4) [OF b(1)] b have "b_data (bufs s ! b) = disk s 1 n" by (auto simp: buf_ok_def is_blk_def)
  with content_cached [OF D(3) b] show ?thesis by simp
next
  case False
  then show ?thesis by (intro content_uncached) blast
qed

lemma holds_data: "bio_inv s \<Longrightarrow> holds s b n \<Longrightarrow> b_data (bufs s ! b) = content s n"
  by (auto simp: holds_def content_cached dest!: bio_invD(3))

lemma holds_locked: "holds s b n \<Longrightarrow> n \<in> locked_blks s"
  by (auto simp: holds_def locked_blks_def)

subsection \<open>The operations by block number\<close>

text \<open>The blocks with property \<open>P\<close>, split into buffer \<open>b\<close> and the others.\<close>

lemma blks_split:
  assumes "length bs = Suc NBUF" "b < NBUF"
  shows "{m. \<exists>c < NBUF. is_blk m (bs[b := x] ! c) \<and> P (bs[b := x] ! c)}
    = {m. \<exists>c < NBUF. c \<noteq> b \<and> is_blk m (bs ! c) \<and> P (bs ! c)} \<union> {m. is_blk m x \<and> P x}"
proof -
  have "bs[b := x] ! c = (if c = b then x else bs ! c)" if "c < NBUF" for c
    using assms that by (simp add: nth_update)
  then show ?thesis using assms(2) by (auto split: if_splits)
qed

lemma blks_split_self:
  assumes "length bs = Suc NBUF" "b < NBUF"
  shows "{m. \<exists>c < NBUF. is_blk m (bs ! c) \<and> P (bs ! c)}
    = {m. \<exists>c < NBUF. c \<noteq> b \<and> is_blk m (bs ! c) \<and> P (bs ! c)} \<union> {m. is_blk m (bs ! b) \<and> P (bs ! b)}"
  using blks_split [OF assms, of "bs ! b" P] by simp

lemma bread_law:
  assumes good: "bgood i s" and n: "n < FSSIZE" "n \<notin> locked_blks s"
    and room: "n \<in> dirty_blks s \<or> card (dirty_blks s \<union> locked_blks s) < NBUF"
  shows "\<exists>b s'. bread 1 n s = Ok b s' \<and> bgood i s' \<and> holds s' b n \<and> content s' = content s \<and> disk s' 1 = disk s 1 \<and>
    dirty_blks s' = dirty_blks s \<and> locked_blks s' = insert n (locked_blks s) \<and> disk_writes s' = disk_writes s \<and>
    rest s' = rest s \<and> (\<forall>c m. holds s c m \<longrightarrow> holds s' c m)"
proof -
  have inv: "bio_inv s" and run: "run_ok i s" using good by (auto simp: bgood_def)
  have unl: "\<not> locked (bufs s ! c)" if "c < NBUF" "is_blk n (bufs s ! c)" for c
    using n(2) that by (auto simp: locked_blks_def)
  have rm: "(\<exists>c < NBUF. is_blk n (bufs s ! c)) \<or> (\<exists>c < NBUF. evictable (bufs s ! c))"
    using room room_for_one [OF inv] by (auto simp: dirty_blks_def)
  obtain b x P sel where r: "bread 1 n s = Ok b (with_buf s b x P sel)"
    "b < NBUF" "is_blk n x" "valid x" "locked x" "b_data x = content s n"
    "\<not> locked (bufs s ! b)" "dirty x \<longleftrightarrow> is_blk n (bufs s ! b) \<and> dirty (bufs s ! b)"
    "is_blk n (bufs s ! b) \<or> \<not> dirty (bufs s ! b) \<and> (\<forall>c < NBUF. \<not> is_blk n (bufs s ! c))"
    "bio_inv (with_buf s b x P sel)" "run_ok i (with_buf s b x P sel)" "content (with_buf s b x P sel) = content s"
    "P = procs s \<or> P = slept i (Ch_buf b) (procs s)"
    by (rule bread_spec [OF inv run n(1) unl rm])
  let ?s = "with_buf s b x P sel"
  have len: "length (bufs s) = Suc NBUF" by (rule bio_invD(1) [OF inv])
  have only: "is_blk m x \<longleftrightarrow> m = n" for m using r(3) by (auto simp: is_blk_def)
  have db: "dirty_blks ?s = dirty_blks s"
    using r(8,9) blks_split [OF len r(2), of x dirty] blks_split_self [OF len r(2), of dirty] r(3)
    by (auto simp: dirty_blks_def only is_blk_def)
  have lb: "locked_blks ?s = insert n (locked_blks s)"
    using r(5,7) blks_split [OF len r(2), of x locked] blks_split_self [OF len r(2), of locked] only
    by (auto simp: locked_blks_def)
  have "holds ?s c m" if "holds s c m" for c m
    using that r(7) len by (auto simp: holds_def nth_update)
  moreover have "holds ?s b n" using r(2-5) len by (simp add: holds_def)
  moreover have "rest ?s = rest s" using r(13) by (auto simp: rest_def)
  ultimately show ?thesis
    using r(1,10-12) db lb by (intro exI [of _ b] exI [of _ ?s]) (simp add: bgood_def)
qed

text \<open>Changing a locked buffer changes the view of its block and nothing else.\<close>

lemma held_upd:
  assumes good: "bgood i s" and h: "holds s b n"
    and x: "is_blk n x" "valid x" "locked x" "b_refcnt x = 1" "b_qnext x = None" "length (b_data x) = BSIZE"
      "b_next x = b_next (bufs s ! b)" "b_prev x = b_prev (bufs s ! b)"
  defines "s' \<equiv> s\<lparr>bufs := (bufs s)[b := x]\<rparr>"
  shows "bgood i s'" "content s' = (content s)(n := b_data x)" "locked_blks s' = locked_blks s"
    "dirty_blks s' = (if dirty x then insert n (dirty_blks s) else dirty_blks s - {n})"
    "holds s' c m = holds s c m" "rest s' = rest s"
proof -
  have inv: "bio_inv s" and run: "run_ok i s" using good by (auto simp: bgood_def)
  note D = bio_invD [OF inv]
  have b: "b < NBUF" "is_blk n (bufs s ! b)" "valid (bufs s ! b)" "locked (bufs s ! b)" using h by (auto simp: holds_def)
  have eq: "s' = with_buf s b x (procs s) (ide_sel s)" unfolding s'_def by (cases s) simp
  have only: "is_blk m x \<longleftrightarrow> m = n" for m using x(1) by (auto simp: is_blk_def)
  have ok: "buf_ok (disk s 1) x" using x by (simp add: buf_ok_def is_blk_def)
  have blk: "\<not> is_blk m (bufs s ! c)" if "is_blk m x" "c < NBUF" "c \<noteq> b" for m c
    using that b(1,2) D(3) only [of m] unfolding blks_unique_def by blast
  have inv': "bio_inv s'" unfolding eq by (rule bio_inv_upd [OF inv b(1) ok x(7,8) blk])
  moreover have "run_ok i s'" using run by (simp add: s'_def run_ok_def calm_def cli_wf_def)
  ultimately show "bgood i s'" by (simp add: bgood_def)
  show "content s' = (content s)(n := b_data x)"
  proof
    fix m show "content s' m = ((content s)(n := b_data x)) m"
    proof (cases "m = n")
      case True
      then show ?thesis unfolding eq using content_upd_same [OF inv' [unfolded eq] b(1) x(1,2)] by simp
    next
      case False
      then have m: "\<not> is_blk m x" "\<not> is_blk m (bufs s ! b)" using only b(2) by (auto simp: is_blk_def)
      have "content s' m = content s m"
        unfolding eq by (rule content_upd_other [OF inv inv' [unfolded eq] b(1) m(1)]) (use m(2) in blast)
      then show ?thesis using False by simp
    qed
  qed
  have self: "is_blk m (bufs s ! b) \<longleftrightarrow> m = n" for m using b(2) by (auto simp: is_blk_def)
  show "locked_blks s' = locked_blks s"
    using blks_split [OF D(1) b(1), of x locked] blks_split_self [OF D(1) b(1), of locked] only x(3) b(4) self
    by (auto simp: locked_blks_def s'_def)
  have "{m. \<exists>c<NBUF. c \<noteq> b \<and> is_blk m (bufs s ! c) \<and> dirty (bufs s ! c)} \<inter> {n} = {}"
    using blk only by auto
  then show "dirty_blks s' = (if dirty x then insert n (dirty_blks s) else dirty_blks s - {n})"
    using blks_split [OF D(1) b(1), of x dirty] blks_split_self [OF D(1) b(1), of dirty] only self
    by (auto simp: dirty_blks_def s'_def)
  show "holds s' c m = holds s c m"
    using D(1) b(1,3,4) x(2,3) only self by (cases "c = b") (simp_all add: holds_def s'_def)
  show "rest s' = rest s" by (simp add: rest_def s'_def)
qed

lemma held_buf:
  assumes "bgood i s" "holds s b n"
  shows "is_blk n (bufs s ! b)" "valid (bufs s ! b)" "locked (bufs s ! b)" "b_refcnt (bufs s ! b) = 1"
    "b_qnext (bufs s ! b) = None" "length (b_data (bufs s ! b)) = BSIZE" "b < NBUF" "length (bufs s) = Suc NBUF"
proof -
  have "buf_ok (disk s 1) (bufs s ! b)" using assms bio_invD(4) [of s b] by (auto simp: bgood_def holds_def)
  with assms show "is_blk n (bufs s ! b)" "valid (bufs s ! b)" "locked (bufs s ! b)" "b_refcnt (bufs s ! b) = 1"
    "b_qnext (bufs s ! b) = None" "length (b_data (bufs s ! b)) = BSIZE" "b < NBUF" "length (bufs s) = Suc NBUF"
    using bio_invD(1) [of s] by (auto simp: holds_def buf_ok_def bgood_def)
qed

lemma set_data_law:
  assumes good: "bgood i s" and h: "holds s b n" and d: "length d = BSIZE"
  shows "bgood i (set_data b d s)" "content (set_data b d s) = (content s)(n := d)"
    "disk (set_data b d s) = disk s" "disk_writes (set_data b d s) = disk_writes s" "rest (set_data b d s) = rest s"
    "locked_blks (set_data b d s) = locked_blks s" "dirty_blks (set_data b d s) = dirty_blks s"
    "holds (set_data b d s) c m = holds s c m"
proof -
  let ?x = "(bufs s ! b)\<lparr>b_data := d\<rparr>"
  note H = held_buf [OF good h]
  have x: "is_blk n ?x" "valid ?x" "locked ?x" "b_refcnt ?x = 1" "b_qnext ?x = None" "length (b_data ?x) = BSIZE"
    "b_next ?x = b_next (bufs s ! b)" "b_prev ?x = b_prev (bufs s ! b)"
    using H d by (simp_all add: is_blk_def valid_def locked_def)
  note U = held_upd [OF good h x]
  have dd: "dirty ?x = dirty (bufs s ! b)" by (simp add: dirty_def)
  have uq: "blks_unique (bufs s)" using good by (auto simp: bgood_def dest: bio_invD(3))
  show "bgood i (set_data b d s)" "content (set_data b d s) = (content s)(n := d)"
    "rest (set_data b d s) = rest s" "locked_blks (set_data b d s) = locked_blks s" "holds (set_data b d s) c m = holds s c m"
    using U by (simp_all add: set_data_def upd_buf_def)
  show "dirty_blks (set_data b d s) = dirty_blks s"
    using U(4) dirty_blks_nth [OF uq H(7,1)] by (auto simp: set_data_def upd_buf_def dd)
  show "disk (set_data b d s) = disk s" "disk_writes (set_data b d s) = disk_writes s"
    by (simp_all add: set_data_def upd_buf_def)
qed

lemma pin_law:
  assumes good: "bgood i s" and h: "holds s b n"
  defines "s' \<equiv> upd_buf b (\<lambda>x. x\<lparr>b_flags := b_flags x OR B_DIRTY\<rparr>) s"
  shows "bgood i s'" "content s' = content s" "locked_blks s' = locked_blks s"
    "dirty_blks s' = insert n (dirty_blks s)" "holds s' c m = holds s c m"
proof -
  let ?x = "(bufs s ! b)\<lparr>b_flags := b_flags (bufs s ! b) OR B_DIRTY\<rparr>"
  note H = held_buf [OF good h]
  have x: "is_blk n ?x" "valid ?x" "locked ?x" "b_refcnt ?x = 1" "b_qnext ?x = None" "length (b_data ?x) = BSIZE"
    "b_next ?x = b_next (bufs s ! b)" "b_prev ?x = b_prev (bufs s ! b)"
    using H by (simp_all add: is_blk_def valid_bit locked_def bit_simps)
  have dx: "dirty ?x" by (simp add: dirty_bit bit_simps)
  note U = held_upd [OF good h x]
  have "b_data (bufs s ! b) = content s n" using good h by (auto simp: bgood_def holds_data)
  then show "content s' = content s" using U(2) by (auto simp: s'_def upd_buf_def)
  show "bgood i s'" "locked_blks s' = locked_blks s" "dirty_blks s' = insert n (dirty_blks s)" "holds s' c m = holds s c m"
    using U dx by (simp_all add: s'_def upd_buf_def)
qed

text \<open>Writing the disk behind a locked buffer, and the bookkeeping of a request, do not change the view.\<close>

lemma disk_upd_law:
  fixes w :: "(uint \<times> uint \<times> byte list) list"
  assumes good: "bgood i s" and h: "holds s b n" and v: "length v = BSIZE"
  defines "s' \<equiv> s\<lparr>disk := (disk s)(1 := (disk s 1)(n := v)), disk_writes := w\<rparr>"
  shows "bgood i s'" "content s' = content s" "locked_blks s' = locked_blks s" "dirty_blks s' = dirty_blks s" "holds s' = holds s"
proof -
  have inv: "bio_inv s" and run: "run_ok i s" using good by (auto simp: bgood_def)
  note D = bio_invD [OF inv] and H = held_buf [OF good h]
  have "buf_ok (disk s' 1) (bufs s' ! c)" if "c < NBUF" for c
  proof (cases "c = b")
    case True
    with D(4) [OF that] H(3) show ?thesis by (simp add: s'_def buf_ok_def)
  next
    case False
    then have "\<not> is_blk n (bufs s ! c)" using D(3) H(1,7) that by (auto simp: blks_unique_def)
    with D(4) [OF that] show ?thesis by (auto simp: s'_def buf_ok_def is_blk_def)
  qed
  then show "bgood i s'" using inv run v by (auto simp: bgood_def bio_inv_def disk_ok_def s'_def run_ok_def calm_def cli_wf_def)
  show "content s' = content s"
  proof
    fix m show "content s' m = content s m"
    proof (cases "m = n")
      case True
      then show ?thesis
        using content_cached [OF D(3) H(7,1,2)] content_cached [of s', OF _ H(7)] D(3) H(1,2) by (simp add: s'_def)
    qed (simp add: s'_def content_def split: option.split)
  qed
qed (auto simp: s'_def locked_blks_def dirty_blks_def holds_def fun_eq_iff)

lemma request_upd:
  shows "bio_inv (s\<lparr>procs := P, ide_sel := X\<rparr>) = bio_inv s" "content (s\<lparr>procs := P, ide_sel := X\<rparr>) = content s"
    "locked_blks (s\<lparr>procs := P, ide_sel := X\<rparr>) = locked_blks s" "dirty_blks (s\<lparr>procs := P, ide_sel := X\<rparr>) = dirty_blks s"
    "holds (s\<lparr>procs := P, ide_sel := X\<rparr>) = holds s" "map run_view P = map run_view (procs s) \<Longrightarrow> rest (s\<lparr>procs := P, ide_sel := X\<rparr>) = rest s"
  by (simp_all add: bio_inv_def disk_ok_def content_def locked_blks_def dirty_blks_def holds_def rest_def fun_eq_iff
      split: option.split)

lemma bwrite_law:
  assumes good: "bgood i s" and h: "holds s b n" and n: "n < FSSIZE"
  shows "\<exists>s'. bwrite b s = Ok () s' \<and> bgood i s' \<and> content s' = content s \<and>
    disk s' 1 = (disk s 1)(n := content s n) \<and> dirty_blks s' = dirty_blks s - {n} \<and> locked_blks s' = locked_blks s \<and>
    disk_writes s' = (1, n, content s n) # disk_writes s \<and> rest s' = rest s \<and> (\<forall>c m. holds s c m \<longrightarrow> holds s' c m)"
proof -
  let ?s1 = "upd_buf b (\<lambda>x. x\<lparr>b_flags := b_flags x OR B_DIRTY\<rparr>) s"
  have inv: "bio_inv s" and run: "run_ok i s" using good by (auto simp: bgood_def)
  note H = held_buf [OF good h] and D = bio_invD [OF inv]
  let ?x = "(bufs s ! b)\<lparr>b_flags := b_flags (bufs s ! b) OR B_DIRTY\<rparr>"
  have nth: "bufs ?s1 ! b = ?x" using H(7,8) by (simp add: upd_buf_def)
  have dx: "dirty ?x" by (simp add: dirty_bit bit_simps)
  have run1: "run_ok i ?s1" using run by (simp add: run_ok_def enter_simps upd_buf_def calm_def cli_wf_def)
  have rw: "iderw b ?s1 = Ok () (iderw_result i b ?s1)"
    by (rule iderw_eq [OF run1])
      (use H D(2) n nth flags_busy [of ?x] dx in \<open>auto simp: upd_buf_def disk_ok_def is_blk_def locked_def\<close>)
  define y where "y = io_done (disk s 1 n) ?x"
  have y: "is_blk n y" "valid y" "locked y" "b_refcnt y = 1" "b_qnext y = None" "length (b_data y) = BSIZE"
    "b_next y = b_next (bufs s ! b)" "b_prev y = b_prev (bufs s ! b)" "\<not> dirty y" "b_data y = b_data (bufs s ! b)"
    using H dx io_done_valid [of "disk s 1 n" ?x] by (simp_all add: y_def is_blk_def locked_def) (simp_all add: io_done_def dirty_def)
  have dat: "b_data (bufs s ! b) = content s n" by (rule holds_data [OF inv h])
  define s2 where "s2 = s\<lparr>bufs := (bufs s)[b := y]\<rparr>"
  note U = held_upd [OF good h y(1-8), folded s2_def]
  have c2: "content s2 = content s" using U(2) dat y(10) by auto
  have h2: "holds s2 b n" using U(5) h by simp
  have len: "length (content s n) = BSIZE" using H(6) dat by simp
  define s3 where "s3 = s2\<lparr>disk := (disk s2)(1 := (disk s2 1)(n := content s n)), disk_writes := (1, n, content s n) # disk_writes s2\<rparr>"
  note W = disk_upd_law [OF U(1) h2 len, of "(1, n, content s n) # disk_writes s2", folded s3_def]
  define s4 where "s4 = s3\<lparr>procs := slept i (Ch_buf b) (procs s), ide_sel := (1, n)\<rparr>"
  have p3: "procs s3 = procs s" by (simp add: s3_def s2_def)
  have "run_ok i s4" using run_ok_slept [of i s3 "Ch_buf b"] W(1)
    by (simp add: s4_def bgood_def p3 run_ok_def calm_def cli_wf_def)
  moreover have "bio_inv s4" using W(1) by (simp add: s4_def request_upd bgood_def)
  ultimately have good4: "bgood i s4" by (simp add: bgood_def)
  have "iderw_result i b ?s1 = s4"
    using H(1,7,8) dx dat nth
    by (simp add: iderw_result_def Let_def s4_def s3_def s2_def y_def is_blk_def dirty_def disk_write_def)
      (simp add: upd_buf_def)
  moreover have "buf_holding b s = Ok True s"
    using run H(3) by (simp add: buf_holding_calm run_ok_def locked_def)
  ultimately have "bwrite b s = Ok () s4" using rw by (simp add: bwrite_def)
  moreover have "content s4 = content s" "locked_blks s4 = locked_blks s" "dirty_blks s4 = dirty_blks s - {n}"
    "\<forall>c m. holds s c m \<longrightarrow> holds s4 c m" "rest s4 = rest s"
    using U W c2 y(9) p3 by (simp_all add: s4_def request_upd) (simp add: s3_def rest_def)
  moreover have "disk s4 1 = (disk s 1)(n := content s n)" "disk_writes s4 = (1, n, content s n) # disk_writes s"
    by (simp_all add: s4_def s3_def s2_def)
  ultimately show ?thesis using good4 by (intro exI [of _ s4]) simp
qed

lemma core_views:
  fixes P :: "proc list"
  assumes inv: "bio_inv s" and lru: "lru_list B ys" and core: "\<And>c. c < NBUF \<Longrightarrow> core (B ! c) = core (bufs s ! c)"
  defines "s' \<equiv> s\<lparr>bufs := B, procs := P\<rparr>"
  shows "bio_inv s'" "content s' = content s" "locked_blks s' = locked_blks s" "dirty_blks s' = dirty_blks s" "holds s' = holds s"
proof -
  note E = core_eqD [OF core]
  have same: "is_blk m (B ! c) = is_blk m (bufs s ! c)" "valid (B ! c) = valid (bufs s ! c)"
    "dirty (B ! c) = dirty (bufs s ! c)" "locked (B ! c) = locked (bufs s ! c)" "b_data (B ! c) = b_data (bufs s ! c)"
    "buf_ok dk (B ! c) = buf_ok dk (bufs s ! c)" if "c < NBUF" for c m dk
    using E [OF that] by (simp_all add: is_blk_def valid_def dirty_def locked_def buf_ok_def)
  show "bio_inv s'"
    using inv lru same by (auto simp: bio_inv_def disk_ok_def blks_unique_def s'_def)
  show "locked_blks s' = locked_blks s" "dirty_blks s' = dirty_blks s" "holds s' = holds s"
    using same by (auto simp: locked_blks_def dirty_blks_def holds_def s'_def fun_eq_iff)
  have "List.find (\<lambda>b. is_blk n (B ! b) \<and> valid (B ! b)) [0..<NBUF]
      = List.find (\<lambda>b. is_blk n (bufs s ! b) \<and> valid (bufs s ! b)) [0..<NBUF]" for n
    by (rule find_cong) (use same in auto)
  then show "content s' = content s"
    using same(5) by (auto simp: content_def s'_def fun_eq_iff split: option.split dest: find_SomeD)
qed

lemma brelse_law:
  assumes good: "bgood i s" and h: "holds s b n" and clean: "n \<in> dirty_blks s \<or> content s n = disk s 1 n"
  shows "\<exists>s'. brelse b s = Ok () s' \<and> bgood i s' \<and> content s' = content s \<and> disk s' 1 = disk s 1 \<and> dirty_blks s' = dirty_blks s \<and>
    locked_blks s' = locked_blks s - {n} \<and> disk_writes s' = disk_writes s \<and> rest s' = rest s \<and>
    (\<forall>c m. holds s c m \<longrightarrow> m \<noteq> n \<longrightarrow> holds s' c m)"
proof -
  have inv: "bio_inv s" and run: "run_ok i s" using good by (auto simp: bgood_def)
  note H = held_buf [OF good h] and D = bio_invD [OF inv]
  have eq: "brelse b s = Ok () (s\<lparr>bufs := move_front b ((bufs s)[b := let_go (bufs s ! b)]),
    procs := map (wake (Ch_buflock b)) (procs s)\<rparr>)"
    by (rule brelse_eq [OF run H(8,7,3,4)])
  define y where "y = let_go (bufs s ! b)"
  define s1 where "s1 = with_buf s b y (procs s) (ide_sel s)"
  have dat: "b_data (bufs s ! b) = content s n" by (rule holds_data [OF inv h])
  have y: "\<And>m. is_blk m y = is_blk m (bufs s ! b)" "valid y" "\<not> locked y" "dirty y = dirty (bufs s ! b)" "b_data y = content s n"
    using H dat by (auto simp: y_def let_go_def is_blk_def valid_def dirty_def locked_def)
  have self: "is_blk m (bufs s ! b) \<longleftrightarrow> m = n" for m using H(1) by (auto simp: is_blk_def)
  have "n \<in> dirty_blks s \<longleftrightarrow> dirty y" using dirty_blks_nth [OF D(3) H(7,1)] y(4) by simp
  then have ok: "buf_ok (disk s 1) y"
    using clean H D(4) [OF H(7)] dat y(2,3) by (auto simp: buf_ok_def y_def let_go_def is_blk_def)
  have inv1: "bio_inv s1" unfolding s1_def
    by (rule bio_inv_upd [OF inv H(7) ok]) (use D(3) H(1,7) y(1) in \<open>auto simp: y_def let_go_def blks_unique_def\<close>)
  have c1: "content s1 = content s"
  proof
    fix m show "content s1 m = content s m"
    proof (cases "m = n")
      case True
      have "content s1 n = b_data y"
        unfolding s1_def by (rule content_upd_same [OF inv1 [unfolded s1_def] H(7)]) (use y H(1) in auto)
      with True y(5) show ?thesis by simp
    next
      case False
      show ?thesis unfolding s1_def
        by (rule content_upd_other [OF inv inv1 [unfolded s1_def] H(7)]) (use False self y(1) in auto)
    qed
  qed
  have "{m. \<exists>c<NBUF. c \<noteq> b \<and> is_blk m (bufs s ! c) \<and> locked (bufs s ! c)} \<inter> {n} = {}"
    using D(3) H(1,7) by (auto simp: blks_unique_def)
  then have l1: "locked_blks s1 = locked_blks s - {n}"
    using blks_split [OF D(1) H(7), of y locked] blks_split_self [OF D(1) H(7), of locked] self y
    by (auto simp: locked_blks_def s1_def)
  have d1: "dirty_blks s1 = dirty_blks s"
    using blks_split [OF D(1) H(7), of y dirty] blks_split_self [OF D(1) H(7), of dirty] self y
    by (auto simp: dirty_blks_def s1_def)
  have h1: "holds s1 c m" if "holds s c m" "m \<noteq> n" for c m
    using that self D(1) by (cases "c = b") (auto simp: holds_def s1_def)
  obtain xs where lru: "lru_list (bufs s1) xs" using inv1 by (auto simp: bio_inv_def)
  then have "b \<in> set xs" using H(7) by (simp add: lru_list_def)
  then obtain us vs where "xs = us @ b # vs" by (auto simp: in_set_conv_decomp)
  with lru have lru': "lru_list (move_front b (bufs s1)) (b # us @ vs)" by (auto intro: lru_move_front)
  have core: "core (move_front b (bufs s1) ! c) = core (bufs s1 ! c)" if "c < NBUF" for c
    using that D(1) by (intro core_move_front) (simp add: s1_def)
  define s2 where "s2 = s1\<lparr>bufs := move_front b (bufs s1), procs := map (wake (Ch_buflock b)) (procs s)\<rparr>"
  note V = core_views [OF inv1 lru' core, of "map (wake (Ch_buflock b)) (procs s)", folded s2_def]
  have "brelse b s = Ok () s2" by (simp add: eq s2_def s1_def y_def)
  moreover have "run_ok i s2" using run
    by (simp add: s2_def s1_def run_ok_def calm_def cli_wf_def wake_def set_state_def)
  ultimately show ?thesis
    using V c1 l1 d1 h1 by (intro exI [of _ s2]) (auto simp: bgood_def s2_def s1_def rest_def simp del: map_map)
qed

subsection \<open>Interface: a cached block store\<close>

text \<open>
  What the log and the file system rely on.  \<open>content\<close> is the view of the blocks, \<open>dsk\<close> the
  blocks on the disk, \<open>dirt\<close> the pinned and \<open>lckd\<close> the locked blocks, \<open>writes\<close> the history of
  disk writes, and \<open>frame\<close> the rest of the state.
\<close>

locale block_store =
  fixes rd :: "uint \<Rightarrow> uint \<Rightarrow> 's \<Rightarrow> (nat, 's) res"
    and wrt :: "nat \<Rightarrow> 's \<Rightarrow> (unit, 's) res"
    and rel :: "nat \<Rightarrow> 's \<Rightarrow> (unit, 's) res"
    and put :: "nat \<Rightarrow> byte list \<Rightarrow> 's \<Rightarrow> 's"
    and get :: "'s \<Rightarrow> nat \<Rightarrow> byte list"
    and content :: "'s \<Rightarrow> uint \<Rightarrow> byte list"
    and dsk :: "'s \<Rightarrow> uint \<Rightarrow> byte list"
    and dirt :: "'s \<Rightarrow> uint set"
    and lckd :: "'s \<Rightarrow> uint set"
    and writes :: "'s \<Rightarrow> (uint \<times> uint \<times> byte list) list"
    and holding :: "'s \<Rightarrow> nat \<Rightarrow> uint \<Rightarrow> bool"
    and frame :: "'s \<Rightarrow> 'r"
    and good :: "'s \<Rightarrow> bool"
    and cap :: nat
    and size_fs :: uint
  assumes rd_law: "good s \<Longrightarrow> n < size_fs \<Longrightarrow> n \<notin> lckd s \<Longrightarrow> n \<in> dirt s \<or> card (dirt s \<union> lckd s) < cap \<Longrightarrow>
      \<exists>b s'. rd 1 n s = Ok b s' \<and> good s' \<and> holding s' b n \<and> content s' = content s \<and> dsk s' = dsk s \<and>
        dirt s' = dirt s \<and> lckd s' = insert n (lckd s) \<and> writes s' = writes s \<and> frame s' = frame s \<and>
        (\<forall>c m. holding s c m \<longrightarrow> holding s' c m)"
    and get_law: "good s \<Longrightarrow> holding s b n \<Longrightarrow> get s b = content s n \<and> length (content s n) = BSIZE \<and> n \<in> lckd s"
    and put_law: "good s \<Longrightarrow> holding s b n \<Longrightarrow> length d = BSIZE \<Longrightarrow>
      good (put b d s) \<and> content (put b d s) = (content s)(n := d) \<and> dsk (put b d s) = dsk s \<and>
        dirt (put b d s) = dirt s \<and> lckd (put b d s) = lckd s \<and> writes (put b d s) = writes s \<and>
        frame (put b d s) = frame s \<and> holding (put b d s) = holding s"
    and wrt_law: "good s \<Longrightarrow> holding s b n \<Longrightarrow> n < size_fs \<Longrightarrow>
      \<exists>s'. wrt b s = Ok () s' \<and> good s' \<and> content s' = content s \<and> dsk s' = (dsk s)(n := content s n) \<and>
        dirt s' = dirt s - {n} \<and> lckd s' = lckd s \<and> writes s' = (1, n, content s n) # writes s \<and> frame s' = frame s \<and>
        (\<forall>c m. holding s c m \<longrightarrow> holding s' c m)"
    and rel_law: "good s \<Longrightarrow> holding s b n \<Longrightarrow> n \<in> dirt s \<or> content s n = dsk s n \<Longrightarrow>
      \<exists>s'. rel b s = Ok () s' \<and> good s' \<and> content s' = content s \<and> dsk s' = dsk s \<and> dirt s' = dirt s \<and>
        lckd s' = lckd s - {n} \<and> writes s' = writes s \<and> frame s' = frame s \<and>
        (\<forall>c m. holding s c m \<longrightarrow> m \<noteq> n \<longrightarrow> holding s' c m)"
    and clean_law: "good s \<Longrightarrow> n \<notin> lckd s \<Longrightarrow> n \<notin> dirt s \<Longrightarrow> content s n = dsk s n"
    and dirt_finite: "finite (dirt s)"
begin

lemma consistent: "good s \<Longrightarrow> lckd s = {} \<Longrightarrow> n \<in> dirt s \<or> content s n = dsk s n"
  using clean_law by blast

text \<open>Reading one block and letting it go, whatever other blocks are locked.\<close>

lemma read_unlocked:
  assumes "good s" "n < size_fs" "n \<notin> lckd s" "n \<in> dirt s \<or> card (dirt s \<union> lckd s) < cap"
  shows "\<exists>b s1 s2. rd 1 n s = Ok b s1 \<and> holding s1 b n \<and> get s1 b = content s n \<and> rel b s1 = Ok () s2 \<and> frame s1 = frame s \<and>
    good s2 \<and> content s2 = content s \<and> dsk s2 = dsk s \<and> dirt s2 = dirt s \<and> lckd s2 = lckd s \<and> writes s2 = writes s \<and> frame s2 = frame s \<and>
    (\<forall>c m. holding s c m \<longrightarrow> holding s2 c m)"
proof -
  from rd_law [OF assms] obtain b s1 where 1: "rd 1 n s = Ok b s1" "good s1" "holding s1 b n" "content s1 = content s"
    "dsk s1 = dsk s" "dirt s1 = dirt s" "lckd s1 = insert n (lckd s)" "writes s1 = writes s" "frame s1 = frame s"
    "\<forall>c m. holding s c m \<longrightarrow> holding s1 c m" by blast
  have "n \<in> dirt s1 \<or> content s1 n = dsk s1 n" using clean_law [OF assms(1,3)] 1 by auto
  then obtain s2 where 2: "rel b s1 = Ok () s2" "good s2" "content s2 = content s1" "dsk s2 = dsk s1" "dirt s2 = dirt s1"
    "lckd s2 = lckd s1 - {n}" "writes s2 = writes s1" "frame s2 = frame s1" "\<forall>c m. holding s1 c m \<longrightarrow> m \<noteq> n \<longrightarrow> holding s2 c m"
    using rel_law [OF 1(2,3)] by blast
  have "holding s2 c m" if "holding s c m" for c m using that get_law [OF assms(1) that] assms(3) 1(10) 2(9) by auto
  moreover have "lckd s2 = lckd s" using 1(7) 2(6) assms(3) by auto
  ultimately show ?thesis using 1 2 get_law [OF 1(2,3)] by auto
qed

lemma read_block:
  assumes "good s" "n < size_fs" "lckd s = {}" "n \<in> dirt s \<or> card (dirt s) < cap"
  shows "\<exists>b s1 s2. rd 1 n s = Ok b s1 \<and> get s1 b = content s n \<and> rel b s1 = Ok () s2 \<and> frame s1 = frame s \<and>
    good s2 \<and> content s2 = content s \<and> dsk s2 = dsk s \<and> dirt s2 = dirt s \<and> lckd s2 = {} \<and> writes s2 = writes s \<and> frame s2 = frame s"
  using read_unlocked [OF assms(1,2)] assms(3,4) by auto

text \<open>Overwriting one block with \<open>f\<close> of what it held, on the disk as well.\<close>

lemma rewrite_block:
  assumes "good s" "n < size_fs" "lckd s = {}" "n \<in> dirt s \<or> card (dirt s) < cap"
    and f: "\<And>d. length d = BSIZE \<Longrightarrow> length (f d) = BSIZE"
  shows "\<exists>b s1 s2 s3. rd 1 n s = Ok b s1 \<and> frame s1 = frame s \<and> get s1 b = content s n \<and>
    wrt b (put b (f (content s n)) s1) = Ok () s2 \<and> rel b s2 = Ok () s3 \<and> good s3 \<and>
    content s3 = (content s)(n := f (content s n)) \<and> dsk s3 = (dsk s)(n := f (content s n)) \<and> dirt s3 = dirt s - {n} \<and>
    lckd s3 = {} \<and> writes s3 = (1, n, f (content s n)) # writes s \<and> frame s3 = frame s"
proof -
  from rd_law [of s n] assms obtain b s1 where 1: "rd 1 n s = Ok b s1" "good s1" "holding s1 b n" "content s1 = content s"
    "dsk s1 = dsk s" "dirt s1 = dirt s" "lckd s1 = {n}" "writes s1 = writes s" "frame s1 = frame s" by auto
  have g: "get s1 b = content s n" "length (content s n) = BSIZE" using get_law [OF 1(2,3)] 1 by auto
  let ?d = "f (content s n)"
  note 2 = put_law [OF 1(2,3) f [OF g(2)]]
  have h2: "holding (put b ?d s1) b n" using 2 1(3) by simp
  obtain s2 where 3: "wrt b (put b ?d s1) = Ok () s2" "good s2" "content s2 = (content s)(n := ?d)" "dsk s2 = (dsk s)(n := ?d)"
    "dirt s2 = dirt s - {n}" "lckd s2 = {n}" "writes s2 = (1, n, ?d) # writes s" "frame s2 = frame s" "holding s2 b n"
    using wrt_law [of "put b ?d s1" b n] 2 h2 1 assms(2) by auto
  show ?thesis
    using rel_law [OF 3(2,9)] 3 1 g by auto
qed

text \<open>
  Copying one block over another, on the disk as well, in the two orders the log uses; the
  block numbers are computed from the part of the state that the store does not touch.
\<close>

lemma copy_block:
  assumes good: "good s" and r: "src < size_fs" "dst < size_fs" "src \<noteq> dst" and l: "lckd s = {}"
    and room: "dst \<in> dirt s \<and> card (dirt s) < cap \<or> card (dirt s) + 1 < cap"
    and args: "\<And>t. frame t = frame s \<Longrightarrow> dev t = 1 \<and> src' t = src \<and> dst' t = dst"
  shows "\<exists>s'. rbind (rd (dev s) (src' s) s) (\<lambda>l s. rbind (rd (dev s) (dst' s) s) (\<lambda>d s. rbind (wrt d (put d (get s l) s)) (\<lambda>_ s. rbind (rel l s) (\<lambda>_ s. rel d s))))
      = Ok () s' \<and> good s' \<and> content s' = (content s)(dst := content s src) \<and> dsk s' = (dsk s)(dst := content s src) \<and>
      dirt s' = dirt s - {dst} \<and> lckd s' = {} \<and> writes s' = (1, dst, content s src) # writes s \<and> frame s' = frame s"
proof -
  from rd_law [OF good r(1)] l room obtain b s1 where 1: "rd 1 src s = Ok b s1" "good s1" "holding s1 b src" "content s1 = content s"
    "dsk s1 = dsk s" "dirt s1 = dirt s" "lckd s1 = {src}" "writes s1 = writes s" "frame s1 = frame s" by auto
  have "card (dirt s1 \<union> lckd s1) \<le> card (dirt s) + 1"
    using 1 card_Un_le [of "dirt s" "{src}"] by simp
  with room 1 have "dst \<in> dirt s1 \<or> card (dirt s1 \<union> lckd s1) < cap" by auto
  with rd_law [OF 1(2) r(2)] 1 r(3) obtain d s2 where 2: "rd 1 dst s1 = Ok d s2" "good s2" "holding s2 d dst" "content s2 = content s"
    "dsk s2 = dsk s" "dirt s2 = dirt s" "lckd s2 = {dst, src}" "writes s2 = writes s" "frame s2 = frame s" "holding s2 b src" by auto
  have g: "get s2 b = content s src" "length (content s src) = BSIZE" using get_law [OF 2(2,10)] 2 by auto
  note 3 = put_law [OF 2(2,3) g(2)]
  let ?s3 = "put d (content s src) s2"
  have h3: "holding ?s3 d dst" "holding ?s3 b src" using 3 2 by auto
  obtain s4 where 4: "wrt d ?s3 = Ok () s4" "good s4" "content s4 = (content s)(dst := content s src)"
    "dsk s4 = (dsk s)(dst := content s src)" "dirt s4 = dirt s - {dst}" "lckd s4 = {dst, src}"
    "writes s4 = (1, dst, content s src) # writes s" "frame s4 = frame s" "holding s4 d dst" "holding s4 b src"
    using wrt_law [of ?s3 d dst] 3 h3 2 r(2) by auto
  have "src \<in> dirt s4 \<or> content s4 src = dsk s4 src"
    using consistent [OF good l, of src] 4 r(3) by auto
  moreover have "{dst, src} - {src} = {dst}" using r(3) by auto
  ultimately obtain s5 where 5: "rel b s4 = Ok () s5" "good s5" "content s5 = content s4" "dsk s5 = dsk s4"
    "dirt s5 = dirt s4" "lckd s5 = {dst}" "writes s5 = writes s4" "frame s5 = frame s" "holding s5 d dst"
    using rel_law [OF 4(2,10)] 4 r(3) by auto
  have "dst \<in> dirt s5 \<or> content s5 dst = dsk s5 dst" using 5 4 by simp
  with rel_law [OF 5(2,9)] 5 4 obtain s6 where 6: "rel d s5 = Ok () s6" "good s6" "content s6 = content s4" "dsk s6 = dsk s4"
    "dirt s6 = dirt s4" "lckd s6 = {}" "writes s6 = writes s4" "frame s6 = frame s" by auto
  with 1 2 g 4 5 args [OF refl] args [OF 1(9)] show ?thesis by auto
qed

lemma copy_block_back:
  assumes good: "good s" and r: "src < size_fs" "dst < size_fs" "src \<noteq> dst" and l: "lckd s = {}"
    and room: "src \<in> dirt s" "dst \<notin> dirt s" "card (dirt s) < cap"
    and args: "\<And>t. frame t = frame s \<Longrightarrow> dev t = 1 \<and> src' t = src \<and> dst' t = dst"
  shows "\<exists>s'. rbind (rd (dev s) (dst' s) s) (\<lambda>d s. rbind (rd (dev s) (src' s) s) (\<lambda>l s. rbind (wrt d (put d (get s l) s)) (\<lambda>_ s. rbind (rel l s) (\<lambda>_ s. rel d s))))
      = Ok () s' \<and> good s' \<and> content s' = (content s)(dst := content s src) \<and> dsk s' = (dsk s)(dst := content s src) \<and>
      dirt s' = dirt s \<and> lckd s' = {} \<and> writes s' = (1, dst, content s src) # writes s \<and> frame s' = frame s"
proof -
  from rd_law [OF good r(2)] l room obtain d s1 where 1: "rd 1 dst s = Ok d s1" "good s1" "holding s1 d dst" "content s1 = content s"
    "dsk s1 = dsk s" "dirt s1 = dirt s" "lckd s1 = {dst}" "writes s1 = writes s" "frame s1 = frame s" by auto
  from rd_law [OF 1(2) r(1)] 1 r(3) room(1) obtain b s2 where 2: "rd 1 src s1 = Ok b s2" "good s2" "holding s2 b src" "content s2 = content s"
    "dsk s2 = dsk s" "dirt s2 = dirt s" "lckd s2 = {src, dst}" "writes s2 = writes s" "frame s2 = frame s" "holding s2 d dst" by auto
  have g: "get s2 b = content s src" "length (content s src) = BSIZE" using get_law [OF 2(2,3)] 2 by auto
  note 3 = put_law [OF 2(2,10) g(2)]
  let ?s3 = "put d (content s src) s2"
  have h3: "holding ?s3 d dst" "holding ?s3 b src" using 3 2 by auto
  have nd: "dirt s - {dst} = dirt s" using room(2) by simp
  obtain s4 where 4: "wrt d ?s3 = Ok () s4" "good s4" "content s4 = (content s)(dst := content s src)"
    "dsk s4 = (dsk s)(dst := content s src)" "dirt s4 = dirt s" "lckd s4 = {src, dst}"
    "writes s4 = (1, dst, content s src) # writes s" "frame s4 = frame s" "holding s4 d dst" "holding s4 b src"
    using wrt_law [of ?s3 d dst] 3 h3 2 r(2) nd by auto
  have diff: "{src, dst} - {src} = {dst}" using r(3) by auto
  obtain s5 where 5: "rel b s4 = Ok () s5" "good s5" "content s5 = content s4" "dsk s5 = dsk s4"
    "dirt s5 = dirt s4" "lckd s5 = {dst}" "writes s5 = writes s4" "frame s5 = frame s" "holding s5 d dst"
    using rel_law [OF 4(2,10)] 4 r(3) room(1) diff by auto
  have "dst \<in> dirt s5 \<or> content s5 dst = dsk s5 dst" using 5 4 by simp
  with rel_law [OF 5(2,9)] 5 4 obtain s6 where 6: "rel d s5 = Ok () s6" "good s6" "content s6 = content s4" "dsk s6 = dsk s4"
    "dirt s6 = dirt s4" "lckd s6 = {}" "writes s6 = writes s4" "frame s6 = frame s" by auto
  with 1 2 g 4 5 args [OF refl] args [OF 1(9)] show ?thesis by auto
qed

end

interpretation bc: block_store bread bwrite brelse set_data "\<lambda>s b. b_data (bufs s ! b)" content "\<lambda>s. disk s 1"
  dirty_blks locked_blks disk_writes holds rest "bgood i" NBUF FSSIZE for i
proof unfold_locales
  fix s :: "'a bio_st_scheme" and n b d
  show "bgood i s \<Longrightarrow> n < FSSIZE \<Longrightarrow> n \<notin> locked_blks s \<Longrightarrow> n \<in> dirty_blks s \<or> card (dirty_blks s \<union> locked_blks s) < NBUF \<Longrightarrow>
    \<exists>b s'. bread 1 n s = Ok b s' \<and> bgood i s' \<and> holds s' b n \<and> content s' = content s \<and> disk s' 1 = disk s 1 \<and>
      dirty_blks s' = dirty_blks s \<and> locked_blks s' = insert n (locked_blks s) \<and> disk_writes s' = disk_writes s \<and>
      rest s' = rest s \<and> (\<forall>c m. holds s c m \<longrightarrow> holds s' c m)"
    by (rule bread_law)
  show "bgood i s \<Longrightarrow> holds s b n \<Longrightarrow> b_data (bufs s ! b) = content s n \<and> length (content s n) = BSIZE \<and> n \<in> locked_blks s"
    using held_buf(6) [of i s b n] holds_data [of s b n] holds_locked [of s b n] by (simp add: bgood_def)
  show "bgood i s \<Longrightarrow> holds s b n \<Longrightarrow> length d = BSIZE \<Longrightarrow>
    bgood i (set_data b d s) \<and> content (set_data b d s) = (content s)(n := d) \<and> disk (set_data b d s) 1 = disk s 1 \<and>
      dirty_blks (set_data b d s) = dirty_blks s \<and> locked_blks (set_data b d s) = locked_blks s \<and>
      disk_writes (set_data b d s) = disk_writes s \<and> rest (set_data b d s) = rest s \<and> holds (set_data b d s) = holds s"
    using set_data_law [of i s b n d] by (auto simp: fun_eq_iff)
  show "bgood i s \<Longrightarrow> holds s b n \<Longrightarrow> n < FSSIZE \<Longrightarrow>
    \<exists>s'. bwrite b s = Ok () s' \<and> bgood i s' \<and> content s' = content s \<and> disk s' 1 = (disk s 1)(n := content s n) \<and>
      dirty_blks s' = dirty_blks s - {n} \<and> locked_blks s' = locked_blks s \<and>
      disk_writes s' = (1, n, content s n) # disk_writes s \<and> rest s' = rest s \<and> (\<forall>c m. holds s c m \<longrightarrow> holds s' c m)"
    by (rule bwrite_law)
  show "bgood i s \<Longrightarrow> holds s b n \<Longrightarrow> n \<in> dirty_blks s \<or> content s n = disk s 1 n \<Longrightarrow>
    \<exists>s'. brelse b s = Ok () s' \<and> bgood i s' \<and> content s' = content s \<and> disk s' 1 = disk s 1 \<and> dirty_blks s' = dirty_blks s \<and>
      locked_blks s' = locked_blks s - {n} \<and> disk_writes s' = disk_writes s \<and> rest s' = rest s \<and>
      (\<forall>c m. holds s c m \<longrightarrow> m \<noteq> n \<longrightarrow> holds s' c m)"
    by (rule brelse_law)
  show "bgood i s \<Longrightarrow> n \<notin> locked_blks s \<Longrightarrow> n \<notin> dirty_blks s \<Longrightarrow> content s n = disk s 1 n"
    by (simp add: bgood_def clean_content)
  show "finite (dirty_blks s)" by (rule blks_finite)
qed

end
