(* ===== verification/Xv6_Cache.thy ===== *)
theory Xv6_Cache
  imports Xv6_Bcache
begin

text \<open>
  What the buffer cache promises as a whole: \<open>binit\<close> sets up the invariant, a read returns the
  block's current contents, a write reaches the disk and nothing else, and replacement follows
  the recency list.
\<close>

subsection \<open>Initialisation\<close>

text \<open>\<open>binit\<close> links every buffer into the list, the last one in front, and changes nothing else.\<close>

definition binit_bufs :: "nat \<Rightarrow> buf list \<Rightarrow> buf list" where
  "binit_bufs k bs = fold (\<lambda>b bs. link_front b (bs[b := (bs ! b)\<lparr>b_lock := \<lparr>sl_locked = False, sl_pid = 0\<rparr>\<rparr>]))
     [0..<k] (bs[NBUF := (bs ! NBUF)\<lparr>b_prev := NBUF, b_next := NBUF\<rparr>])"

lemma initlock_fold: "fold initlock ls s = s\<lparr>held := filter (\<lambda>l. l \<notin> set ls) (held s)\<rparr>"
proof (induction ls arbitrary: s)
  case (Cons l ls)
  have "filter (\<lambda>k. k \<notin> set ls) (removeAll l (held s)) = filter (\<lambda>k. k \<notin> set (l # ls)) (held s)"
    unfolding removeAll_filter_not_eq filter_filter by (rule filter_cong) auto
  then show ?case using Cons.IH by (simp add: initlock_def)
qed simp

lemma binit_eq: "binit s = s\<lparr>held := filter (\<lambda>l. l \<notin> set (L_bcache # map L_buf [0..<NBUF])) (held s), bufs := binit_bufs NBUF (bufs s)\<rparr>"
proof -
  have "fold (\<lambda>b s. let s = initsleeplock (L_buf b) (put_buflock b) s in s\<lparr>bufs := link_front b (bufs s)\<rparr>) bl (t\<lparr>bufs := bs\<rparr>)
      = (fold initlock (map L_buf bl) t)\<lparr>bufs := fold (\<lambda>b bs. link_front b (bs[b := (bs ! b)\<lparr>b_lock := \<lparr>sl_locked = False, sl_pid = 0\<rparr>\<rparr>])) bl bs\<rparr>"
    for bl bs and t :: "'z bio_st_scheme"
  proof (induction bl arbitrary: bs t)
    case (Cons b bl)
    have "(let s = initsleeplock (L_buf b) (put_buflock b) (t\<lparr>bufs := bs\<rparr>) in s\<lparr>bufs := link_front b (bufs s)\<rparr>)
        = (initlock (L_buf b) t)\<lparr>bufs := link_front b (bs[b := (bs ! b)\<lparr>b_lock := \<lparr>sl_locked = False, sl_pid = 0\<rparr>\<rparr>])\<rparr>"
      by (simp add: initsleeplock_def put_buflock_def upd_buf_def initlock_def)
    then show ?case using Cons.IH by (simp add: Let_def)
  qed simp
  from this [of "[0..<NBUF]" _ "initlock L_bcache s"] show ?thesis
    unfolding initlock_fold [symmetric] by (simp add: binit_def upd_buf_def binit_bufs_def initlock_def)
qed

lemma core_link: "c < length bs \<Longrightarrow> core (link_front b bs ! c) = core (bs ! c)"
  by (simp only: link_front_def Let_def core_upd_links length_list_update)

lemma binit_list:
  assumes "length bs = Suc NBUF" "k \<le> NBUF"
  shows "dll (binit_bufs k bs) (rev [0..<k]) \<and>
    (\<forall>c < NBUF. core (binit_bufs k bs ! c) =
       core (if c < k then (bs ! c)\<lparr>b_lock := \<lparr>sl_locked = False, sl_pid = 0\<rparr>\<rparr> else bs ! c))"
  using assms(2)
proof (induction k)
  case 0
  then show ?case using assms(1) by (simp add: binit_bufs_def dll_def nth_update)
next
  case (Suc k)
  let ?B = "binit_bufs k bs" and ?l = "\<lparr>sl_locked = False, sl_pid = 0\<rparr>"
  let ?C = "?B[k := (?B ! k)\<lparr>b_lock := ?l\<rparr>]"
  from Suc have d: "dll ?B (rev [0..<k])" and k: "k < NBUF" by simp_all
  have len: "length ?B = Suc NBUF" using d by (simp add: dll_def)
  have links: "b_next (?C ! c) = b_next (?B ! c)" "b_prev (?C ! c) = b_prev (?B ! c)" if "c < Suc NBUF" for c
    using that len by (simp_all add: nth_update)
  have "chain b_next ?C NBUF (rev [0..<k]) NBUF" "chain b_prev ?C NBUF (rev (rev [0..<k])) NBUF"
    using d k links by (auto simp: dll_def intro: chain_restart)
  then have "dll ?C (rev [0..<k])" using d by (simp add: dll_def)
  then have "dll (link_front k ?C) (k # rev [0..<k])" using k by (intro dll_link) auto
  moreover have "core (link_front k ?C ! c) = core (if c < Suc k then (bs ! c)\<lparr>b_lock := ?l\<rparr> else bs ! c)" if "c < NBUF" for c
  proof -
    have IH: "core (?B ! c) = core (if c < k then (bs ! c)\<lparr>b_lock := ?l\<rparr> else bs ! c)" using Suc that by simp
    have "core (link_front k ?C ! c) = core (?C ! c)" using that len by (intro core_link) simp
    also have "\<dots> = core (if c = k then (?B ! c)\<lparr>b_lock := ?l\<rparr> else ?B ! c)" using that len by (simp add: nth_update)
    also have "\<dots> = core (if c < Suc k then (bs ! c)\<lparr>b_lock := ?l\<rparr> else bs ! c)"
      using IH by (cases "?B ! c"; cases "bs ! c") (auto simp: core_def split: if_splits)
    finally show ?thesis .
  qed
  ultimately show ?case by (simp add: binit_bufs_def)
qed

lemma binit_fresh:
  assumes z: "bufs s = replicate (Suc NBUF) buf_zero" and d: "disk_ok s"
  shows "bio_inv (binit s)" "lru_list (bufs (binit s)) (rev [0..<NBUF])"
    "c < NBUF \<Longrightarrow> core (bufs (binit s) ! c) = core buf_zero"
proof -
  have len: "length (bufs s) = Suc NBUF" by (simp add: z)
  let ?B = "binit_bufs NBUF (bufs s)"
  have bB: "bufs (binit s) = ?B" "disk (binit s) = disk s" by (simp_all add: binit_eq initlock_def)
  from binit_list [OF len order_refl] have l: "dll ?B (rev [0..<NBUF])"
    and k: "\<forall>c < NBUF. core (?B ! c) = core (if c < NBUF then (bufs s ! c)\<lparr>b_lock := \<lparr>sl_locked = False, sl_pid = 0\<rparr>\<rparr> else bufs s ! c)"
    by blast+
  have c: "core (?B ! c) = core buf_zero" if "c < NBUF" for c
    using k [rule_format, OF that] that by (simp add: z buf_zero_def)
  show lru: "lru_list (bufs (binit s)) (rev [0..<NBUF])" using l by (auto simp: bB lru_list_def)
  show "c < NBUF \<Longrightarrow> core (bufs (binit s) ! c) = core buf_zero" using c bB by simp
  have "buf_ok (disk s 1) (?B ! c) \<and> b_dev (?B ! c) = 0" if "c < NBUF" for c
    using core_eqD [OF c [OF that]] by (simp add: buf_ok_def buf_zero_def valid_def dirty_def locked_def)
  then have "\<forall>c < NBUF. buf_ok (disk s 1) (?B ! c)" "blks_unique ?B" by (auto simp: blks_unique_def is_blk_def)
  moreover have "disk_ok (binit s)" using d by (simp add: disk_ok_def binit_eq initlock_def)
  ultimately show "bio_inv (binit s)" using lru unfolding bio_inv_def bB by blast
qed

text \<open>
  C8: from zeroed buffers \<open>binit\<close> reaches a state that satisfies the cache invariant, with every
  buffer on the recency list (the last one in front), nothing cached, modified or locked, and
  the contents those of the disk.
\<close>

theorem binit_establishes_invariant:
  assumes "bufs s = replicate (Suc NBUF) buf_zero" and "disk_ok s"
  shows "bio_inv (binit s) \<and> lru_list (bufs (binit s)) (rev [0..<NBUF]) \<and> content (binit s) = disk s 1 \<and>
    dirty_blks (binit s) = {} \<and> locked_blks (binit s) = {}"
proof -
  have f: "\<not> is_blk n (bufs (binit s) ! c)" if "c < NBUF" for c n
    using core_eqD(2) [OF binit_fresh(3) [OF assms that]] by (simp add: is_blk_def buf_zero_def)
  have "content (binit s) n = disk s 1 n" for n
    using content_uncached [of n "binit s"] f by (auto simp: binit_eq initlock_def)
  then have "content (binit s) = disk s 1" by blast
  moreover have "dirty_blks (binit s) = {}" "locked_blks (binit s) = {}"
    using f by (auto simp: dirty_blks_def locked_blks_def)
  ultimately show ?thesis using binit_fresh(1,2) [OF assms] by blast
qed

text \<open>A machine at boot: one process runs, the disk holds \<open>d\<close>.\<close>

definition bio_boot :: "buf list \<Rightarrow> (uint \<Rightarrow> byte list) \<Rightarrow> bio_st" where
  "bio_boot bs d = proc_st.extend proc_example \<lparr>bufs = bs, idequeue = None, havedisk1 = True, disk = (\<lambda>_. d),
     bad_sector = (\<lambda>_ _. False), ide_sel = (0, 0), disk_writes = []\<rparr>"

text \<open>The same machine after block \<open>n\<close> was brought into buffer 0, changed to \<open>v\<close> and pinned.\<close>

definition pinned :: "uint \<Rightarrow> byte list \<Rightarrow> 'z bio_st_scheme \<Rightarrow> 'z bio_st_scheme" where
  "pinned n v s = upd_buf 0 (\<lambda>x. x\<lparr>b_flags := B_VALID OR B_DIRTY, b_dev := 1, b_blockno := n, b_data := v\<rparr>) (binit s)"

lemma pinned_facts:
  assumes z: "bufs s = replicate (Suc NBUF) buf_zero" and d: "disk_ok s" and run: "run_ok i s" and v: "length v = BSIZE"
  shows "bgood i (pinned n v s)" "locked_blks (pinned n v s) = {}" "dirty_blks (pinned n v s) = {n}"
    "content (pinned n v s) = (disk s 1)(n := v)" "disk (pinned n v s) = disk s"
proof -
  let ?B = "bufs (binit s)" and ?t = "pinned n v s"
  note F = binit_fresh [OF z d]
  have len: "length ?B = Suc NBUF" using F(2) by (simp add: lru_list_def dll_def)
  have same: "bufs ?t ! c = ?B ! c" if "c < NBUF" "c \<noteq> 0" for c
    using that len by (simp add: pinned_def upd_buf_def)
  have x: "is_blk n (bufs ?t ! 0)" "valid (bufs ?t ! 0)" "dirty (bufs ?t ! 0)" "\<not> locked (bufs ?t ! 0)" "b_data (bufs ?t ! 0) = v"
    "buf_ok dk (bufs ?t ! 0)" for dk
    using core_eqD [OF F(3) [of 0]] len v
    by (simp_all add: pinned_def upd_buf_def is_blk_def valid_def dirty_def locked_def buf_ok_def buf_zero_def)
  have only: "is_blk m (bufs ?t ! c) \<longleftrightarrow> c = 0 \<and> m = n" if "c < NBUF" for c m
    using x(1) same [OF that] core_eqD(2) [OF F(3) [OF that]] by (cases "c = 0") (auto simp: is_blk_def buf_zero_def)
  show dk: "disk ?t = disk s" by (simp add: pinned_def upd_buf_def binit_eq initlock_def)
  have bok: "buf_ok (disk ?t 1) (bufs ?t ! c)" if "c < NBUF" for c
    using bio_invD(4) [OF F(1) that] same [OF that] x(6) by (cases "c = 0") (auto simp: dk binit_eq initlock_def)
  have uq: "blks_unique (bufs ?t)" using only by (auto simp: blks_unique_def)
  have "lru_list (bufs ?t) (rev [0..<NBUF])"
    by (rule links_kept [OF F(2)]) (use len in \<open>simp_all add: pinned_def upd_buf_def nth_update\<close>)
  then have "bio_inv ?t" using bio_invD(2) [OF F(1)] bok uq
    by (auto simp: bio_inv_def disk_ok_def pinned_def upd_buf_def)
  moreover have "run_ok i ?t"
    using run by (simp add: run_ok_def pinned_def upd_buf_def binit_eq initlock_def calm_def cli_wf_def)
  ultimately show "bgood i ?t" by (simp add: bgood_def)
  show "locked_blks ?t = {}" using only x(4) by (auto simp: locked_blks_def)
  show "dirty_blks ?t = {n}" using only x(1,3) by (auto simp: dirty_blks_def intro!: exI [of _ 0])
  have "content ?t m = ((disk s 1)(n := v)) m" for m
  proof (cases "m = n")
    case True
    then show ?thesis using content_cached [OF uq, of 0 n] x by simp
  next
    case False
    then show ?thesis using content_uncached [of m ?t] only dk by auto
  qed
  then show "content ?t = (disk s 1)(n := v)" by blast
qed

abbreviation bio_zero :: bio_st where
  "bio_zero \<equiv> bio_boot (replicate (Suc NBUF) buf_zero) (\<lambda>_. replicate BSIZE 0)"

lemma bio_zero_facts: "bufs bio_zero = replicate (Suc NBUF) buf_zero" "disk_ok bio_zero" "run_ok 0 bio_zero"
  by (simp_all add: bio_boot_def proc_st.defs proc_example_def disk_ok_def run_ok_def calm_def cli_wf_def)

theorem binit_establishes_invariant_witness:
  "bio_inv (binit bio_zero) \<and> dirty_blks (binit bio_zero) = {}"
  using binit_establishes_invariant [OF bio_zero_facts(1,2)] by simp

text \<open>
  C6: reading a block that nobody has locked returns its current contents, whether it was cached,
  modified or neither and whatever other blocks are locked, if it is cached as modified or some buffer can be
  recycled.  After the release the contents of every block, the disk, the locked blocks with their holders and
  the invariant are as before.
\<close>

theorem bread_returns_contents:
  assumes "bgood i s" and "n < FSSIZE" and "n \<notin> locked_blks s" and "n \<in> dirty_blks s \<or> card (dirty_blks s \<union> locked_blks s) < NBUF"
  shows "\<exists>b s1 s2. bread 1 n s = Ok b s1 \<and> holds s1 b n \<and> b_data (bufs s1 ! b) = content s n \<and> brelse b s1 = Ok () s2 \<and>
    bgood i s2 \<and> content s2 = content s \<and> disk s2 1 = disk s 1 \<and> dirty_blks s2 = dirty_blks s \<and> locked_blks s2 = locked_blks s \<and>
    (\<forall>c m. holds s c m \<longrightarrow> holds s2 c m)"
  using bc.read_unlocked [OF assms] by blast

text \<open>Block 100 is modified and block 9 is locked when block 100 is read.\<close>

theorem bread_returns_contents_witness:
  "\<exists>c s b s1. bread 1 9 (pinned 100 (replicate BSIZE 7) bio_zero) = Ok c s \<and> locked_blks s = {9} \<and>
    bread 1 100 s = Ok b s1 \<and> b_data (bufs s1 ! b) = replicate BSIZE 7"
proof -
  have v: "length (replicate BSIZE (7 :: byte)) = BSIZE" by simp
  note P = pinned_facts [OF bio_zero_facts v, of 100]
  let ?s = "pinned 100 (replicate BSIZE 7) bio_zero"
  obtain c s where s: "bread 1 9 ?s = Ok c s" "bgood 0 s" "content s = content ?s" "dirty_blks s = dirty_blks ?s" "locked_blks s = {9}"
    using bc.rd_law [of 0 ?s 9] P by auto
  have "content s 100 = replicate BSIZE 7" "100 \<in> dirty_blks s" using s(3,4) P by auto
  with bread_returns_contents [OF s(2), of 100] s(1,5) show ?thesis by fastforce
qed

text \<open>
  C7: changing a block through the cache (\<open>bread\<close>, a change of its data, \<open>bwrite\<close>, \<open>brelse\<close>) puts
  the new data into the block's contents and on the disk, by one disk write, and changes no
  other block; the block is then no longer marked modified.
\<close>

theorem bwrite_writes_through:
  assumes "bgood i s" and "n < FSSIZE" and "locked_blks s = {}" and "n \<in> dirty_blks s \<or> card (dirty_blks s) < NBUF"
    and "length v = BSIZE"
  shows "\<exists>b s1 s2 s3. bread 1 n s = Ok b s1 \<and> bwrite b (set_data b v s1) = Ok () s2 \<and> brelse b s2 = Ok () s3 \<and> bgood i s3 \<and>
    content s3 = (content s)(n := v) \<and> disk s3 1 = (disk s 1)(n := v) \<and> dirty_blks s3 = dirty_blks s - {n} \<and>
    disk_writes s3 = (1, n, v) # disk_writes s"
  using bc.rewrite_block [OF assms(1-4), of "\<lambda>_. v"] assms(5) by blast

theorem bwrite_writes_through_witness:
  "\<exists>b s1 s2 s3. bread 1 9 (pinned 100 (replicate BSIZE 7) bio_zero) = Ok b s1 \<and>
     bwrite b (set_data b (replicate BSIZE 5) s1) = Ok () s2 \<and> brelse b s2 = Ok () s3 \<and>
     disk s3 1 9 = replicate BSIZE 5 \<and> disk s3 1 100 = replicate BSIZE 0"
proof -
  have v: "length (replicate BSIZE (7 :: byte)) = BSIZE" "length (replicate BSIZE (5 :: byte)) = BSIZE" by simp_all
  note P = pinned_facts [OF bio_zero_facts v(1), of 100]
  let ?s = "pinned 100 (replicate BSIZE 7) bio_zero"
  have "9 \<in> dirty_blks ?s \<or> card (dirty_blks ?s) < NBUF" using P by simp
  from bwrite_writes_through [OF P(1) _ P(2) this v(2)] P(5) show ?thesis
    by (fastforce simp: bio_boot_def proc_st.defs proc_example_def)
qed

text \<open>
  C5: replacement is least recently used.  A block that is not cached gets the last buffer of the
  recency list that is neither referenced nor modified; no other buffer changes and the list
  keeps its order.  Releasing the buffer moves it to the front of the list.
\<close>

theorem bcache_least_recently_used:
  assumes run: "run_ok i s" and lru: "lru_list (bufs s) xs" and miss: "\<And>c. c < NBUF \<Longrightarrow> \<not> is_blk n (bufs s ! c)"
    and b: "List.find (\<lambda>c. evictable (bufs s ! c)) (rev xs) = Some b" and lk: "\<not> locked (bufs s ! b)"
  shows "\<exists>s1 s2. bget 1 n s = Ok b s1 \<and> is_blk n (bufs s1 ! b) \<and> lru_list (bufs s1) xs \<and>
    (\<forall>c < NBUF. c \<noteq> b \<longrightarrow> bufs s1 ! c = bufs s ! c) \<and> brelse b s1 = Ok () s2 \<and> lru_list (bufs s2) (b # remove1 b xs)"
proof -
  let ?x = "grab (p_pid (procs s ! i)) ((bufs s ! b)\<lparr>b_dev := 1, b_blockno := n, b_flags := 0\<rparr>)"
  let ?s1 = "s\<lparr>bufs := (bufs s)[b := ?x]\<rparr>"
  let ?s2 = "?s1\<lparr>bufs := move_front b ((bufs ?s1)[b := let_go (bufs ?s1 ! b)]), procs := map (wake (Ch_buflock b)) (procs ?s1)\<rparr>"
  have len: "length (bufs s) = Suc NBUF" and st: "set xs = {..<NBUF}" and dist: "distinct xs"
    using lru by (auto simp: lru_list_def dll_def)
  have bx: "b \<in> set xs" using find_SomeD [OF b] by simp
  then have bn: "b < NBUF" using st by blast
  have get: "bget 1 n s = Ok b ?s1" by (rule bget_miss [OF run lru miss b lk])
  have l1: "lru_list (bufs ?s1) xs" by (rule links_kept [OF lru]) (use len in \<open>simp_all add: nth_update grab_def\<close>)
  have x1: "bufs ?s1 ! b = ?x" using bn len by simp
  have "run_ok i ?s1" using run by (simp add: run_ok_def calm_def cli_wf_def)
  then have rel: "brelse b ?s1 = Ok () ?s2"
    by (rule brelse_eq) (use bn len x1 in \<open>simp_all add: grab_def locked_def\<close>)
  have "lru_list ((bufs ?s1)[b := let_go (bufs ?s1 ! b)]) xs"
    by (rule links_kept [OF l1]) (use len in \<open>simp_all add: nth_update let_go_def\<close>)
  moreover obtain ys zs where xs: "xs = ys @ b # zs" "b \<notin> set ys" using split_list_first [OF bx] by blast
  ultimately have "lru_list (bufs ?s2) (b # ys @ zs)" using lru_move_front by simp
  moreover have "remove1 b xs = ys @ zs" using xs by (simp add: remove1_append)
  ultimately have l2: "lru_list (bufs ?s2) (b # remove1 b xs)" by (simp only:)
  have "is_blk n (bufs ?s1 ! b)" unfolding x1 by (simp add: is_blk_def grab_def)
  moreover have "\<forall>c < NBUF. c \<noteq> b \<longrightarrow> bufs ?s1 ! c = bufs s ! c" using len by (simp add: nth_update)
  ultimately show ?thesis using get l1 rel l2 by blast
qed

theorem bcache_least_recently_used_witness:
  "\<exists>s1 s2. bget 1 5 (binit bio_zero) = Ok 0 s1 \<and> brelse 0 s1 = Ok () s2 \<and> lru_list (bufs s2) (0 # rev [1..<NBUF])"
proof -
  let ?s = "binit bio_zero"
  note F = binit_fresh [OF bio_zero_facts(1,2)]
  have c: "\<not> is_blk 5 (bufs ?s ! c)" "evictable (bufs ?s ! c)" "\<not> locked (bufs ?s ! c)" if "c < NBUF" for c
    using core_eqD [OF F(3) [OF that]] by (simp_all add: is_blk_def buf_zero_def evictable_def dirty_def locked_def)
  have run: "run_ok 0 ?s" using bio_zero_facts(3) by (simp add: run_ok_def binit_eq initlock_def calm_def cli_wf_def)
  have up: "[0..<NBUF] = 0 # [1..<NBUF]" by (simp add: upt_conv_Cons)
  have "List.find (\<lambda>c. evictable (bufs ?s ! c)) (rev (rev [0..<NBUF])) = Some 0"
    using c(2) [of 0] unfolding up by simp
  from bcache_least_recently_used [OF run F(2) c(1) this c(3)]
  obtain s1 s2 where "bget 1 5 ?s = Ok 0 s1" "brelse 0 s1 = Ok () s2" "lru_list (bufs s2) (0 # remove1 0 (rev [0..<NBUF]))" by auto
  moreover have "remove1 0 (rev [0..<NBUF]) = rev [1..<NBUF]" unfolding up by (simp add: remove1_append)
  ultimately show ?thesis by auto
qed

end
