(* ===== verification/Xv6_Recovery.thy ===== *)
theory Xv6_Recovery
  imports Xv6_Log Xv6_Cache
begin

text \<open>
  Crash safety of the log: the disk writes of a commit, in order; recovery as a function on
  disk contents; and that a crash between any two writes of a commit leaves, after recovery,
  either all of the transaction or none of it.
\<close>

subsection \<open>Sequences of disk writes\<close>

definition apply_writes :: "(uint \<times> byte list) list \<Rightarrow> (uint \<Rightarrow> byte list) \<Rightarrow> uint \<Rightarrow> byte list" where
  "apply_writes ws d = fold (\<lambda>(n, v) d. d(n := v)) ws d"

lemma apply_writes_Nil [simp]: "apply_writes [] d = d"
  and apply_writes_Cons [simp]: "apply_writes ((n, v) # ws) d = apply_writes ws (d(n := v))"
  and apply_writes_append: "apply_writes (ws @ ws') d = apply_writes ws' (apply_writes ws d)"
  by (simp_all add: apply_writes_def)

lemma apply_writes_snoc [simp]: "apply_writes (ws @ [(n, v)]) d = (apply_writes ws d)(n := v)"
  by (simp add: apply_writes_append)

lemma apply_writes_other: "m \<notin> fst ` set ws \<Longrightarrow> apply_writes ws d m = d m"
  by (induction ws arbitrary: d) auto

lemma apply_writes_const:
  assumes "m \<in> fst ` set ws" and "\<And>v. (m, v) \<in> set ws \<Longrightarrow> v = w"
  shows "apply_writes ws d m = w"
  using assms
proof (induction ws rule: rev_induct)
  case (snoc x ws)
  obtain n v where x: "x = (n, v)" by (cases x)
  show ?case
  proof (cases "m = n")
    case True
    then show ?thesis using snoc.prems(2) [of v] by (simp add: x)
  next
    case False
    with snoc show ?thesis by (auto simp: x)
  qed
qed simp

subsection \<open>The header block\<close>

lemma get32_fold_put32:
  assumes "4 + 4 * n \<le> length d"
  shows "get32 (fold (\<lambda>i d. put32 (4 + 4 * i) (bl ! i) d) [0..<n] d) (4 + 4 * j) = (if j < n then bl ! j else get32 d (4 + 4 * j))"
    and "get32 (fold (\<lambda>i d. put32 (4 + 4 * i) (bl ! i) d) [0..<n] d) 0 = get32 d 0"
    and "length (fold (\<lambda>i d. put32 (4 + 4 * i) (bl ! i) d) [0..<n] d) = length d"
  using assms
proof (induction n)
  case (Suc n)
  let ?d = "fold (\<lambda>i d. put32 (4 + 4 * i) (bl ! i) d) [0..<n] d"
  case 1
  then have n: "4 + 4 * Suc n \<le> length d" .
  then have len: "length ?d = length d" using Suc(3) by simp
  show ?case
  proof (cases "j = n")
    case True
    then show ?thesis using n len by (simp add: layout_simps)
  next
    case False
    then have "get32 (put32 (4 + 4 * n) (bl ! n) ?d) (4 + 4 * j) = get32 ?d (4 + 4 * j)"
      by (intro get32_put32_other) linarith
    with False n Suc(1) show ?thesis by auto
  qed
  case 2
  then show ?case using Suc by (simp add: layout_simps)
  case 3
  then show ?case using Suc by simp
qed simp_all

lemma sint_small: "0 \<le> n \<Longrightarrow> n \<le> LOGSIZE \<Longrightarrow> sint (of_int n :: uint) = n"
  by (simp add: signed_of_int signed_take_bit_int_eq_self)

lemma head_bytes_read:
  assumes "0 \<le> n" "n \<le> LOGSIZE" "length d = BSIZE"
  shows "sint (get32 (head_bytes n bl d) 0) = n"
    and "i < nat n \<Longrightarrow> get32 (head_bytes n bl d) (4 + 4 * i) = bl ! i"
    and "length (head_bytes n bl d) = BSIZE"
proof -
  have k: "4 + 4 * nat n \<le> length (put32 0 (of_int n) d)" using assms by simp
  note F = get32_fold_put32 [OF k, of bl]
  show "sint (get32 (head_bytes n bl d) 0) = n"
    using F(2) assms by (simp add: head_bytes_def layout_simps sint_small)
  show "i < nat n \<Longrightarrow> get32 (head_bytes n bl d) (4 + 4 * i) = bl ! i"
    using F(1) [of i] by (simp add: head_bytes_def)
  show "length (head_bytes n bl d) = BSIZE" using F(3) assms by (simp add: head_bytes_def)
qed

text \<open>Doing a sequence of writes again after a crash in the middle of it changes nothing.\<close>

lemma apply_writes_start:
  "m \<in> fst ` set ws \<Longrightarrow> apply_writes ws d m = apply_writes ws d' m"
proof (induction ws arbitrary: d d')
  case (Cons x ws)
  obtain n v where x: "x = (n, v)" by (cases x)
  show ?case
  proof (cases "m \<in> fst ` set ws")
    case True
    then show ?thesis unfolding x by (simp add: Cons.IH [OF True])
  next
    case False
    with Cons.prems show ?thesis by (simp add: x apply_writes_other)
  qed
qed simp

lemma apply_writes_again: "apply_writes ws (apply_writes (take j ws) d) = apply_writes ws d"
proof
  fix m
  show "apply_writes ws (apply_writes (take j ws) d) m = apply_writes ws d m"
  proof (cases "m \<in> fst ` set ws")
    case True
    then show ?thesis by (rule apply_writes_start)
  next
    case False
    then have "m \<notin> fst ` set (take j ws)" by (auto dest: in_set_takeD)
    with False show ?thesis by (simp add: apply_writes_other)
  qed
qed

subsection \<open>Recovery as a function on disk contents\<close>

text \<open>
  The log lives in \<open>len\<close> blocks from \<open>start\<close>: the header and then the slots.  The header on the
  disk is well formed when its count fits the log and its block numbers are blocks of the disk
  outside the log.
\<close>

definition slot :: "uint \<Rightarrow> nat \<Rightarrow> uint" where
  "slot start k = start + of_nat k + 1"

definition in_log :: "uint \<Rightarrow> nat \<Rightarrow> uint \<Rightarrow> bool" where
  "in_log start len n \<longleftrightarrow> unat start \<le> unat n \<and> unat n < unat start + len"

definition hdr_n :: "byte list \<Rightarrow> int" where
  "hdr_n h = sint (get32 h 0)"

definition hdr_home :: "byte list \<Rightarrow> nat \<Rightarrow> uint" where
  "hdr_home h k = get32 h (4 + 4 * k)"

definition log_fits :: "uint \<Rightarrow> nat \<Rightarrow> int \<Rightarrow> bool" where
  "log_fits start len n \<longleftrightarrow> 0 \<le> n \<and> n \<le> LOGSIZE \<and> n < int len \<and> unat start + len \<le> unat FSSIZE"

definition header_ok :: "uint \<Rightarrow> nat \<Rightarrow> byte list \<Rightarrow> bool" where
  "header_ok start len h \<longleftrightarrow> log_fits start len (hdr_n h) \<and> length h = BSIZE \<and>
     (\<forall>k < nat (hdr_n h). hdr_home h k < FSSIZE \<and> \<not> in_log start len (hdr_home h k))"

definition recover_writes :: "uint \<Rightarrow> (uint \<Rightarrow> byte list) \<Rightarrow> (uint \<times> byte list) list" where
  "recover_writes start d =
    map (\<lambda>k. (hdr_home (d start) k, d (slot start k))) [0..<nat (hdr_n (d start))] @ [(start, put32 0 0 (d start))]"

definition recovered :: "uint \<Rightarrow> (uint \<Rightarrow> byte list) \<Rightarrow> uint \<Rightarrow> byte list" where
  "recovered start d = apply_writes (recover_writes start d) d"

lemma slot_facts:
  assumes "log_fits start len n" "k < nat n"
  shows "unat (slot start k) = unat start + k + 1" "in_log start len (slot start k)" "slot start k < FSSIZE"
    "slot start k \<noteq> start"
proof -
  have b: "unat start + k + 1 < 1000" "k + 1 < len" using assms by (auto simp: log_fits_def)
  have k: "unat (of_nat (k + 1) :: uint) = k + 1" using b by (intro unat_of_nat_32) linarith
  have "unat (start + of_nat (k + 1)) = unat start + (k + 1)"
    using b k by (subst unat_add_no_wrap) auto
  then show 1: "unat (slot start k) = unat start + k + 1" by (simp add: slot_def ac_simps)
  show "in_log start len (slot start k)" "slot start k < FSSIZE"
    using b by (simp_all add: in_log_def 1 word_less_nat_alt)
  show "slot start k \<noteq> start" using 1 by auto
qed

lemma start_facts:
  assumes "log_fits start len n"
  shows "in_log start len start" "start < FSSIZE"
  using assms by (auto simp: log_fits_def in_log_def word_less_nat_alt)

lemma hdr_empty: "length h = BSIZE \<Longrightarrow> hdr_n (put32 0 0 h) = 0"
  by (simp add: hdr_n_def layout_simps)

text \<open>
  A crash during recovery is harmless: recovery from the disk it leaves gives the same
  contents outside the log.
\<close>

lemma recovered_again:
  assumes h: "header_ok start len (d start)" and n: "\<not> in_log start len n"
  shows "recovered start (apply_writes (take j (recover_writes start d)) d) n = recovered start d n"
    and "header_ok start len (apply_writes (take j (recover_writes start d)) d start)"
proof -
  let ?N = "nat (hdr_n (d start))" and ?ws = "recover_writes start d"
  let ?d = "apply_writes (take j ?ws) d"
  from h have fits: "log_fits start len (hdr_n (d start))" and len: "length (d start) = BSIZE" by (simp_all add: header_ok_def)
  have ns: "n \<noteq> start" using n start_facts(1) [OF fits] by blast
  have "recovered start ?d n = recovered start d n \<and> header_ok start len (?d start)"
  proof (cases "j \<le> ?N")
    case True
    then have t: "take j ?ws = map (\<lambda>k. (hdr_home (d start) k, d (slot start k))) [0..<j]"
      by (simp add: recover_writes_def take_map)
    have out: "?d m = d m" if "in_log start len m" for m
    proof (rule apply_writes_other)
      show "m \<notin> fst ` set (take j ?ws)" using that h True unfolding t header_ok_def by auto
    qed
    have "?d start = d start" using start_facts(1) [OF fits] by (rule out)
    moreover have "?d (slot start k) = d (slot start k)" if "k < ?N" for k
      using slot_facts(2) [OF fits that] by (rule out)
    ultimately have "recover_writes start ?d = ?ws" by (simp add: recover_writes_def)
    then show ?thesis using h \<open>?d start = d start\<close> by (simp add: recovered_def apply_writes_again)
  next
    case False
    then have t: "?d = recovered start d" by (simp add: recovered_def recover_writes_def)
    have s: "?d start = put32 0 0 (d start)"
      unfolding t by (simp add: recovered_def recover_writes_def)
    then have z: "hdr_n (?d start) = 0" using len by (simp add: hdr_empty)
    then have "recovered start ?d n = ?d n"
      using ns by (simp add: recovered_def recover_writes_def)
    moreover have "header_ok start len (?d start)"
      using fits len z s by (simp add: header_ok_def log_fits_def)
    ultimately show ?thesis using t by simp
  qed
  then show "recovered start ?d n = recovered start d n" "header_ok start len (?d start)" by auto
qed

subsection \<open>The writes of a commit\<close>

text \<open>
  A transaction on disk contents: \<open>old\<close> is the disk, \<open>new\<close> the contents of the modified blocks
  \<open>homes\<close>.  The commit copies the new contents to the slots, writes the header, copies to the
  home blocks and clears the header.
\<close>

definition log_writes :: "uint \<Rightarrow> uint list \<Rightarrow> (uint \<Rightarrow> byte list) \<Rightarrow> (uint \<times> byte list) list" where
  "log_writes start homes new = map (\<lambda>k. (slot start k, new (homes ! k))) [0..<length homes]"

definition home_writes :: "uint list \<Rightarrow> (uint \<Rightarrow> byte list) \<Rightarrow> (uint \<times> byte list) list" where
  "home_writes homes new = map (\<lambda>k. (homes ! k, new (homes ! k))) [0..<length homes]"

definition commit_writes :: "uint \<Rightarrow> uint list \<Rightarrow> (uint \<Rightarrow> byte list) \<Rightarrow> byte list \<Rightarrow> (uint \<times> byte list) list" where
  "commit_writes start homes new h =
    log_writes start homes new @ [(start, h)] @ home_writes homes new @ [(start, put32 0 0 h)]"

definition trans_ok :: "uint \<Rightarrow> nat \<Rightarrow> uint list \<Rightarrow> bool" where
  "trans_ok start len homes \<longleftrightarrow> log_fits start len (int (length homes)) \<and>
     (\<forall>n \<in> set homes. n < FSSIZE \<and> \<not> in_log start len n)"

definition names :: "byte list \<Rightarrow> uint list \<Rightarrow> bool" where
  "names h homes \<longleftrightarrow> length h = BSIZE \<and> hdr_n h = int (length homes) \<and> (\<forall>k < length homes. hdr_home h k = homes ! k)"

lemma names_header_ok: "trans_ok start len homes \<Longrightarrow> names h homes \<Longrightarrow> header_ok start len h"
  by (auto simp: trans_ok_def names_def header_ok_def)

lemma log_writes_keep:
  assumes "trans_ok start len homes" "\<not> in_log start len m \<or> m = start"
  shows "apply_writes (take k (log_writes start homes new)) d m = d m"
proof (rule apply_writes_other)
  from assms(1) have f: "log_fits start len (int (length homes))" by (simp add: trans_ok_def)
  have "fst x \<noteq> m" if "x \<in> set (take k (log_writes start homes new))" for x
  proof -
    from that obtain j where "j < length homes" "fst x = slot start j"
      by (auto simp: log_writes_def dest!: in_set_takeD)
    then show ?thesis using slot_facts [OF f, of j] assms(2) by auto
  qed
  then show "m \<notin> fst ` set (take k (log_writes start homes new))" by blast
qed

lemma home_writes_keep:
  assumes "trans_ok start len homes" "in_log start len m \<or> m \<notin> set homes"
  shows "apply_writes (take k (home_writes homes new)) d m = d m"
proof (rule apply_writes_other)
  have "fst x \<noteq> m" if "x \<in> set (take k (home_writes homes new))" for x
  proof -
    from that have "fst x \<in> set homes" by (auto simp: home_writes_def dest!: in_set_takeD)
    then show ?thesis using assms by (auto simp: trans_ok_def)
  qed
  then show "m \<notin> fst ` set (take k (home_writes homes new))" by blast
qed

lemma home_writes_done: "m \<in> set homes \<Longrightarrow> apply_writes (home_writes homes new) d m = new m"
  by (rule apply_writes_const) (auto simp: home_writes_def in_set_conv_nth image_iff)

lemma take_all_writes:
  "take (length homes) (log_writes start homes new) = log_writes start homes new"
  "take (length homes) (home_writes homes new) = home_writes homes new"
  by (simp_all add: log_writes_def home_writes_def)

lemmas log_writes_keep_all = log_writes_keep [where k = "length homes" and homes = homes for homes, unfolded take_all_writes]
lemmas home_writes_keep_all = home_writes_keep [where k = "length homes" and homes = homes for homes, unfolded take_all_writes]

lemma log_slots_filled:
  assumes "trans_ok start len homes" "k < length homes"
  shows "apply_writes (log_writes start homes new) d (slot start k) = new (homes ! k)"
proof (rule apply_writes_const)
  from assms(1) have f: "log_fits start len (int (length homes))" by (simp add: trans_ok_def)
  show "slot start k \<in> fst ` set (log_writes start homes new)" using assms(2) by (force simp: log_writes_def)
  fix v assume "(slot start k, v) \<in> set (log_writes start homes new)"
  then obtain j where j: "j < length homes" "slot start k = slot start j" "v = new (homes ! j)" by (auto simp: log_writes_def)
  have kj: "k < nat (int (length homes))" "j < nat (int (length homes))" using assms(2) j(1) by simp_all
  have "j = k" using slot_facts(1) [OF f kj(1)] slot_facts(1) [OF f kj(2)] unfolding j(2) by linarith
  with j(3) show "v = new (homes ! k)" by simp
qed

text \<open>
  The commit point is the first header write: recovery from a crash before it gives the old
  contents, recovery from a crash after it the new ones.
\<close>

lemma commit_prefix:
  fixes k :: nat
  assumes ok: "trans_ok start len homes" and h: "names h homes" and empty: "hdr_n (old start) = 0" "length (old start) = BSIZE"
    and same: "\<And>n. n \<notin> set homes \<Longrightarrow> new n = old n" and n: "\<not> in_log start len n"
  defines "d \<equiv> apply_writes (take k (commit_writes start homes new h)) old"
  shows "header_ok start len (d start) \<and> recovered start d n = (if k \<le> length homes then old n else new n)"
proof -
  let ?N = "length homes"
  let ?L = "log_writes start homes new" and ?H = "home_writes homes new"
  have lens: "length ?L = ?N" "length ?H = ?N" by (simp_all add: log_writes_def home_writes_def)
  from ok have fits: "log_fits start len (int ?N)" by (simp add: trans_ok_def)
  have ns: "n \<noteq> start" using n start_facts(1) [OF fits] by blast
  have fits0: "log_fits start len 0" using fits by (auto simp: log_fits_def)
  have unlogged: "header_ok start len (d start) \<and> recovered start d n = d n" if "hdr_n (d start) = 0" "length (d start) = BSIZE"
    using that fits0 ns by (simp add: recovered_def recover_writes_def header_ok_def)
  let ?d1 = "(apply_writes ?L old)(start := h)"
  have d1: "?d1 n = old n" using log_writes_keep_all [OF ok, of n] n ns by simp
  consider "k \<le> ?N" | "?N < k" "k \<le> 2 * ?N + 1" | "2 * ?N + 1 < k" by linarith
  then show ?thesis
  proof cases
    case 1
    then have "take k (commit_writes start homes new h) = take k ?L" by (simp add: commit_writes_def lens)
    then have d: "d = apply_writes (take k ?L) old" by (simp add: d_def)
    have "d start = old start" "d n = old n"
      unfolding d using log_writes_keep [OF ok] n by simp_all
    with unlogged empty 1 show ?thesis by simp
  next
    case 2
    define j where "j = k - ?N - 1"
    have "take k (commit_writes start homes new h) = ?L @ [(start, h)] @ take j ?H"
      using 2 by (simp add: commit_writes_def lens j_def take_Cons')
    then have d: "d = apply_writes (take j ?H) ?d1" by (simp add: d_def apply_writes_append)
    have keep: "d m = ?d1 m" if "in_log start len m" for m
      unfolding d using home_writes_keep [OF ok] that by blast
    have s: "d start = h" using keep start_facts(1) [OF fits] by simp
    have "d (slot start i) = new (homes ! i)" if "i < ?N" for i
      using keep [OF slot_facts(2) [OF fits, of i]] slot_facts(4) [OF fits, of i] that log_slots_filled [OF ok that] by simp
    then have "recover_writes start d = ?H @ [(start, put32 0 0 h)]"
      using h s by (simp add: recover_writes_def home_writes_def names_def)
    then have "recovered start d n = apply_writes ?H d n" using ns by (simp add: recovered_def)
    also have "\<dots> = new n"
    proof (cases "n \<in> set homes")
      case True
      then show ?thesis by (rule home_writes_done)
    next
      case False
      have "apply_writes ?H d n = d n" using home_writes_keep_all [OF ok] False by blast
      also have "d n = ?d1 n"
        unfolding d using home_writes_keep [OF ok] False by blast
      finally show ?thesis using d1 same False by simp
    qed
    finally show ?thesis using 2 names_header_ok [OF ok h] s by simp
  next
    case 3
    then have "take k (commit_writes start homes new h) = ?L @ [(start, h)] @ ?H @ [(start, put32 0 0 h)]"
      by (simp add: commit_writes_def lens)
    then have d: "d = (apply_writes ?H ?d1)(start := put32 0 0 h)" by (simp add: d_def apply_writes_append)
    have "d n = new n"
    proof (cases "n \<in> set homes")
      case True
      then have "apply_writes ?H ?d1 n = new n" by (rule home_writes_done)
      then show ?thesis using ns d by simp
    next
      case False
      then have "apply_writes ?H ?d1 n = ?d1 n" using home_writes_keep_all [OF ok] by blast
      then show ?thesis using ns d d1 same False by simp
    qed
    moreover have "hdr_n (d start) = 0" "length (d start) = BSIZE" unfolding d using h by (simp_all add: names_def hdr_empty)
    note unlogged [OF this]
    ultimately show ?thesis using 3 by simp
  qed
qed

subsection \<open>The operations of the log on the disk\<close>

text \<open>The block cache leaves the log's own state alone.\<close>

lemma rest_log:
  fixes s t :: "'z log_st_scheme"
  assumes "rest t = rest s"
  shows "lh_n t = lh_n s" "lh_block t = lh_block s" "log_start t = log_start s" "log_dev t = log_dev s" "log_size t = log_size s"
proof -
  have k: "lh_n (rest s) = lh_n s" "lh_block (rest s) = lh_block s" "log_start (rest s) = log_start s"
    "log_dev (rest s) = log_dev s" "log_size (rest s) = log_size s" for s :: "'z log_st_scheme"
    by (simp_all add: rest_def)
  show "lh_n t = lh_n s" "lh_block t = lh_block s" "log_start t = log_start s" "log_dev t = log_dev s" "log_size t = log_size s"
    using assms k [of s] k [of t] by simp_all
qed

text \<open>Quiet: the cache invariant holds, no buffer is in use, and the log is on device 1.\<close>

definition quiet :: "nat \<Rightarrow> 'z log_st_scheme \<Rightarrow> bool" where
  "quiet i s \<longleftrightarrow> bgood i s \<and> locked_blks s = {} \<and> log_dev s = 1"

text \<open>
  What an operation of the log did: the writes \<open>ws\<close> on the disk and in the contents, in order,
  with the blocks \<open>clean\<close> no longer modified.
\<close>

definition did :: "(uint \<times> byte list) list \<Rightarrow> uint set \<Rightarrow> 'z log_st_scheme \<Rightarrow> 'z log_st_scheme \<Rightarrow> bool" where
  "did ws clean s s' \<longleftrightarrow> disk s' 1 = apply_writes ws (disk s 1) \<and> content s' = apply_writes ws (content s) \<and>
     disk_writes s' = map (Pair 1) (rev ws) @ disk_writes s \<and> dirty_blks s' = dirty_blks s - clean"

lemma did_trans:
  "did ws c s t \<Longrightarrow> did ws' c' t u \<Longrightarrow> did (ws @ ws') (c \<union> c') s u"
  by (auto simp: did_def apply_writes_append)

lemma did_Nil: "did [] {} s s"
  by (simp add: did_def)

text \<open>
  The positions of a transaction: its blocks are named in the log, fit it, and are exactly the
  modified ones if any are.
\<close>

definition pending :: "nat \<Rightarrow> nat \<Rightarrow> uint list \<Rightarrow> 'z log_st_scheme \<Rightarrow> bool" where
  "pending i len homes s \<longleftrightarrow> quiet i s \<and> lh_n s = int (length homes) \<and> take (length homes) (lh_block s) = homes \<and>
     trans_ok (log_start s) len homes"

lemma pending_step:
  assumes "pending i len homes s" "k < length homes"
  shows "homes ! k < FSSIZE" "slot (log_start s) k < FSSIZE" "homes ! k \<noteq> slot (log_start s) k" "slot (log_start s) k \<notin> set homes"
    "rest t = rest s \<Longrightarrow> log_dev t = 1 \<and> log_home k t = homes ! k \<and> log_slot k t = slot (log_start s) k"
    "\<not> in_log (log_start s) len (homes ! k)" "in_log (log_start s) len (slot (log_start s) k)"
proof -
  from assms have ok: "trans_ok (log_start s) len homes" and hk: "homes ! k \<in> set homes" by (simp_all add: pending_def)
  have hb: "lh_block s ! k = homes ! k" using assms by (metis nth_take pending_def)
  from ok hk show home: "homes ! k < FSSIZE" "\<not> in_log (log_start s) len (homes ! k)" by (auto simp: trans_ok_def)
  have sf: "slot (log_start s) k < FSSIZE" "in_log (log_start s) len (slot (log_start s) k)"
    using slot_facts [of "log_start s" len "int (length homes)" k] ok assms(2) by (simp_all add: trans_ok_def)
  then show "slot (log_start s) k < FSSIZE" "homes ! k \<noteq> slot (log_start s) k" "slot (log_start s) k \<notin> set homes"
    "in_log (log_start s) len (slot (log_start s) k)"
    using home(2) ok by (auto simp: trans_ok_def)
  show "rest t = rest s \<Longrightarrow> log_dev t = 1 \<and> log_home k t = homes ! k \<and> log_slot k t = slot (log_start s) k"
    using rest_log [of t s] assms by (simp add: pending_def quiet_def log_home_def log_slot_def slot_def hb)
qed

lemma write_log_did:
  fixes s :: "'z log_st_scheme"
  assumes p: "pending i len homes s" and dirt: "dirty_blks s = set homes" "card (set homes) < NBUF"
  shows "\<exists>s'. write_log s = Ok () s' \<and> quiet i s' \<and> rest s' = rest s \<and> did (log_writes (log_start s) homes (content s)) {} s s'"
proof -
  let ?W = "log_writes (log_start s) homes (content s)"
  define I where "I k t \<longleftrightarrow> quiet i t \<and> rest t = rest s \<and> did (take k ?W) {} s t" for k and t :: "'z log_st_scheme"
  have lW: "length ?W = length homes" by (simp add: log_writes_def)
  have "\<exists>s'. rfor [0..<nat (lh_n s)] write_log_one s = Ok () s' \<and> I (nat (lh_n s)) s'"
  proof (rule rfor_upt)
    show "I 0 s" using p by (simp add: I_def did_Nil pending_def)
    fix k t assume "k < nat (lh_n s)" and t: "I k t"
    with p have k: "k < length homes" by (simp add: pending_def)
    let ?src = "homes ! k" and ?dst = "slot (log_start s) k"
    note f = pending_step [OF p k]
    from t have tq: "bgood i t" "locked_blks t = {}" "rest t = rest s" "did (take k ?W) {} s t" by (auto simp: I_def quiet_def)
    have td: "dirty_blks t = set homes" using tq(4) dirt by (simp add: did_def)
    have tc: "content t ?src = content s ?src"
      using tq(4) log_writes_keep [of "log_start s" len homes ?src k] f(6) p by (simp add: did_def pending_def)
    have args: "rest u = rest t \<Longrightarrow> log_dev u = 1 \<and> log_home k u = ?src \<and> log_slot k u = ?dst" for u :: "'z log_st_scheme"
      using f(5) [of u] tq(3) by simp
    have "?src \<in> dirty_blks t" "?dst \<notin> dirty_blks t" "card (dirty_blks t) < NBUF" using td k f(4) dirt(2) by simp_all
    from bc.copy_block_back [OF tq(1) f(1,2,3) tq(2) this, of log_dev "log_home k" "log_slot k"] args
    obtain u where u: "write_log_one k t = Ok () u" "bgood i u" "content u = (content t)(?dst := content t ?src)"
      "disk u 1 = (disk t 1)(?dst := content t ?src)" "dirty_blks u = dirty_blks t" "locked_blks u = {}"
      "disk_writes u = (1, ?dst, content t ?src) # disk_writes t" "rest u = rest t" unfolding write_log_one_def by blast
    have "take (Suc k) ?W = take k ?W @ [(?dst, content s ?src)]"
      using k lW by (simp add: take_Suc_conv_app_nth log_writes_def)
    then have "did (take (Suc k) ?W) {} s u" using u tq(4) tc by (simp add: did_def)
    moreover have "quiet i u" using u args [of u] by (simp add: quiet_def)
    ultimately show "\<exists>u. write_log_one k t = Ok () u \<and> I (Suc k) u" using u tq by (auto simp: I_def)
  qed
  then show ?thesis using p lW by (simp add: write_log_def I_def pending_def)
qed

lemma install_trans_did:
  fixes s :: "'z log_st_scheme"
  assumes p: "pending i len homes s" and d: "dirty_blks s = {} \<or> dirty_blks s = set homes \<and> distinct homes \<and> length homes < NBUF"
  shows "\<exists>s'. install_trans s = Ok () s' \<and> quiet i s' \<and> rest s' = rest s \<and>
    did (map (\<lambda>k. (homes ! k, content s (slot (log_start s) k))) [0..<length homes]) (set homes) s s'"
proof -
  define W where "W j = map (\<lambda>k. (homes ! k, content s (slot (log_start s) k))) [0..<j]" for j
  define I where "I k t \<longleftrightarrow> quiet i t \<and> rest t = rest s \<and> did (W k) (set (take k homes)) s t" for k and t :: "'z log_st_scheme"
  have "\<exists>s'. rfor [0..<nat (lh_n s)] install_one s = Ok () s' \<and> I (nat (lh_n s)) s'"
  proof (rule rfor_upt)
    show "I 0 s" using p by (simp add: I_def did_Nil pending_def W_def)
    fix k t assume "k < nat (lh_n s)" and t: "I k t"
    with p have k: "k < length homes" by (simp add: pending_def)
    let ?dst = "homes ! k" and ?src = "slot (log_start s) k"
    note f = pending_step [OF p k]
    from t have tq: "bgood i t" "locked_blks t = {}" "rest t = rest s" "did (W k) (set (take k homes)) s t" by (auto simp: I_def quiet_def)
    have "?src \<notin> fst ` set (W k)" using f(4) k by (auto simp: W_def)
    then have tc: "content t ?src = content s ?src" using tq(4) by (simp add: did_def apply_writes_other)
    have args: "rest u = rest t \<Longrightarrow> log_dev u = 1 \<and> log_slot k u = ?src \<and> log_home k u = ?dst" for u :: "'z log_st_scheme"
      using f(5) [of u] tq(3) by simp
    have room: "?dst \<in> dirty_blks t \<and> card (dirty_blks t) < NBUF \<or> card (dirty_blks t) + 1 < NBUF"
    proof (cases "dirty_blks s = {}")
      case True
      then show ?thesis using tq(4) by (simp add: did_def)
    next
      case False
      with d tq(4) have td: "dirty_blks t = set homes - set (take k homes)" "distinct homes" "length homes < NBUF" by (auto simp: did_def)
      have "card (dirty_blks t) \<le> card (set homes)" unfolding td(1) by (rule card_mono) auto
      moreover have "?dst \<notin> set (take k homes)" using td(2) k by (auto simp: in_set_conv_nth nth_eq_iff_index_eq)
      ultimately show ?thesis using td k card_length [of homes] by auto
    qed
    from bc.copy_block [OF tq(1) f(2,1) f(3) [symmetric] tq(2) room, of log_dev "log_slot k" "log_home k"] args
    obtain u where u: "install_one k t = Ok () u" "bgood i u" "content u = (content t)(?dst := content t ?src)"
      "disk u 1 = (disk t 1)(?dst := content t ?src)" "dirty_blks u = dirty_blks t - {?dst}" "locked_blks u = {}"
      "disk_writes u = (1, ?dst, content t ?src) # disk_writes t" "rest u = rest t" unfolding install_one_def by blast
    have "did (W (Suc k)) (set (take (Suc k) homes)) s u"
      using u tq(4) tc k by (auto simp: did_def W_def take_Suc_conv_app_nth)
    moreover have "quiet i u" using u args [of u] by (simp add: quiet_def)
    ultimately show "\<exists>u. install_one k t = Ok () u \<and> I (Suc k) u" using u tq by (auto simp: I_def)
  qed
  then show ?thesis using p by (simp add: install_trans_def I_def pending_def W_def)
qed

lemma write_head_did:
  fixes s :: "'z log_st_scheme"
  assumes q: "quiet i s" and f: "log_fits (log_start s) len (lh_n s)"
    and d: "log_start s \<notin> dirty_blks s" "card (dirty_blks s) < NBUF"
  shows "\<exists>s'. write_head s = Ok () s' \<and> quiet i s' \<and> rest s' = rest s \<and>
    did [(log_start s, head_bytes (lh_n s) (lh_block s) (content s (log_start s)))] {} s s'"
proof -
  let ?f = "head_bytes (lh_n s) (lh_block s)" and ?n = "log_start s"
  from f have n: "0 \<le> lh_n s" "lh_n s \<le> LOGSIZE" by (auto simp: log_fits_def)
  from q have good: "bgood i s" "locked_blks s = {}" "log_dev s = 1" by (auto simp: quiet_def)
  have "?n \<in> dirty_blks s \<or> card (dirty_blks s) < NBUF" using d by simp
  from bc.rewrite_block [OF good(1) start_facts(2) [OF f] good(2) this, of ?f] head_bytes_read(3) [OF n]
  obtain b s1 s2 s3 where 1: "bread 1 ?n s = Ok b s1" "rest s1 = rest s" "b_data (bufs s1 ! b) = content s ?n"
    "bwrite b (set_data b (?f (content s ?n)) s1) = Ok () s2" "brelse b s2 = Ok () s3" "bgood i s3"
    "content s3 = (content s)(?n := ?f (content s ?n))" "disk s3 1 = (disk s 1)(?n := ?f (content s ?n))"
    "dirty_blks s3 = dirty_blks s - {?n}" "locked_blks s3 = {}" "disk_writes s3 = (1, ?n, ?f (content s ?n)) # disk_writes s"
    "rest s3 = rest s" by blast
  have "write_head s = Ok () s3" using 1 good(3) rest_log [OF 1(2)] by (simp add: write_head_def)
  with 1 d good(3) rest_log [OF 1(12)] show ?thesis by (auto simp: quiet_def did_def)
qed

text \<open>Setting the in-memory count is invisible to the cache.\<close>

lemma lh_upd [simp]:
  "content (s\<lparr>lh_n := n, lh_block := bl\<rparr>) = content s" "content (s\<lparr>lh_n := n\<rparr>) = content s"
  "dirty_blks (s\<lparr>lh_n := n, lh_block := bl\<rparr>) = dirty_blks s" "dirty_blks (s\<lparr>lh_n := n\<rparr>) = dirty_blks s"
  "quiet i (s\<lparr>lh_n := n, lh_block := bl\<rparr>) = quiet i s" "quiet i (s\<lparr>lh_n := n\<rparr>) = quiet i s"
  "bgood i (s\<lparr>lh_n := n, lh_block := bl\<rparr>) = bgood i s" "locked_blks (s\<lparr>lh_n := n, lh_block := bl\<rparr>) = locked_blks s"
  "holds (s\<lparr>lh_n := n, lh_block := bl\<rparr>) = holds s"
  by (auto simp: fun_eq_iff holds_def content_def dirty_blks_def quiet_def locked_blks_def bgood_def bio_inv_def disk_ok_def run_ok_def
      calm_def cli_wf_def split: option.split)

lemma did_lh_upd [simp]: "did ws c (s\<lparr>lh_n := n\<rparr>) t = did ws c s t" "did ws c t (s\<lparr>lh_n := n\<rparr>) = did ws c t s"
  by (simp_all add: did_def)

lemma rest_lh_n: "rest (s\<lparr>lh_n := n\<rparr>) = (rest s)\<lparr>lh_n := n\<rparr>" for s :: "'z log_st_scheme"
  by (simp add: rest_def)

lemma head_bytes_0: "head_bytes 0 bl d = put32 0 0 d"
  by (simp add: head_bytes_def)

lemma commit_did:
  fixes s :: "'z log_st_scheme"
  assumes p: "pending i len homes s" and ne: "homes \<noteq> []" and d: "dirty_blks s = set homes" "distinct homes" "length homes < NBUF"
  shows "\<exists>s'. commit s = Ok () s' \<and> quiet i s' \<and> rest s' = rest (s\<lparr>lh_n := 0\<rparr>) \<and> dirty_blks s' = {} \<and>
    did (commit_writes (log_start s) homes (content s) (head_bytes (lh_n s) (lh_block s) (content s (log_start s)))) (set homes) s s'"
proof -
  let ?S = "log_start s" and ?W = "log_writes (log_start s) homes (content s)"
  let ?h = "head_bytes (lh_n s) (lh_block s) (content s ?S)"
  from p have ok: "trans_ok ?S len homes" and n: "lh_n s = int (length homes)" by (simp_all add: pending_def)
  then have fits: "log_fits ?S len (lh_n s)" by (simp add: trans_ok_def)
  then have fits0: "log_fits ?S len 0" by (simp add: log_fits_def)
  have S: "?S \<notin> set homes" using ok start_facts(1) [OF fits] by (auto simp: trans_ok_def)
  have c: "card (set homes) < NBUF" using d(3) card_length [of homes] by linarith
  from write_log_did [OF p d(1) c] obtain s1 where
    1: "write_log s = Ok () s1" "quiet i s1" "rest s1 = rest s" "did ?W {} s s1" by blast
  note r1 = rest_log [OF 1(3)]
  have d1: "dirty_blks s1 = set homes" using 1(4) d(1) by (simp add: did_def)
  have c1: "content s1 ?S = content s ?S" using 1(4) log_writes_keep_all [OF ok] by (simp add: did_def)
  from write_head_did [OF 1(2), of len] obtain s2 where
    2: "write_head s1 = Ok () s2" "quiet i s2" "rest s2 = rest s1" "did [(?S, ?h)] {} s1 s2"
    using fits S d1 c by (auto simp: r1 c1)
  have r2: "rest s2 = rest s" using 2(3) 1(3) by simp
  note q2 = rest_log [OF r2]
  have d2: "dirty_blks s2 = set homes" using 2(4) d1 by (simp add: did_def)
  have p2: "pending i len homes s2" using p 2(2) q2 by (simp add: pending_def)
  have c2: "content s2 (slot ?S k) = content s (homes ! k)" if "k < length homes" for k
    using 1(4) 2(4) log_slots_filled [OF ok that] slot_facts(4) [OF fits, of k] that by (simp add: did_def n)
  from install_trans_did [OF p2] d2 d(2,3) obtain s3 where
    3: "install_trans s2 = Ok () s3" "quiet i s3" "rest s3 = rest s2"
      "did (map (\<lambda>k. (homes ! k, content s2 (slot ?S k))) [0..<length homes]) (set homes) s2 s3"
    by (auto simp: q2)
  have H: "map (\<lambda>k. (homes ! k, content s2 (slot ?S k))) [0..<length homes] = home_writes homes (content s)"
    by (simp add: home_writes_def c2)
  note d3 = 3(4) [unfolded H]
  have r3: "rest s3 = rest s" using 3(3) r2 by simp
  note q3 = rest_log [OF r3]
  have e3: "dirty_blks s3 = {}" using d3 d2 by (simp add: did_def)
  have c3: "content s3 ?S = ?h"
    using d3 2(4) home_writes_keep_all [OF ok, of ?S] S by (simp add: did_def)
  from write_head_did [of i "s3\<lparr>lh_n := 0\<rparr>" len] obtain s4 where
    4: "write_head (s3\<lparr>lh_n := 0\<rparr>) = Ok () s4" "quiet i s4" "rest s4 = rest (s3\<lparr>lh_n := 0\<rparr>)" "did [(?S, put32 0 0 ?h)] {} s3 s4"
    using fits0 3(2) e3 by (auto simp: q3 head_bytes_0 c3)
  have "commit s = Ok () s4" using ne 1(1) 2(1) 3(1) 4(1) n by (simp add: commit_def)
  moreover have "rest s4 = rest (s\<lparr>lh_n := 0\<rparr>)" using 4(3) r3 by (simp add: rest_lh_n)
  moreover have "dirty_blks s4 = {}" using 4(4) e3 by (simp add: did_def)
  moreover have "did (commit_writes ?S homes (content s) ?h) (set homes) s s4"
    using did_trans [OF 1(4) did_trans [OF 2(4) did_trans [OF d3 4(4)]]] by (simp add: commit_writes_def)
  ultimately show ?thesis using 4(2) by blast
qed

text \<open>A state the machine boots into: nothing cached is modified.\<close>

definition booted :: "nat \<Rightarrow> uint \<Rightarrow> (uint \<Rightarrow> byte list) \<Rightarrow> 'z log_st_scheme \<Rightarrow> bool" where
  "booted j start d t \<longleftrightarrow> quiet j t \<and> dirty_blks t = {} \<and> log_start t = start \<and> length (lh_block t) = nat LOGSIZE \<and> disk t 1 = d"

lemma booted_content: "booted j start d t \<Longrightarrow> content t = d"
  using bc.clean_law [of j t] by (auto simp: booted_def quiet_def fun_eq_iff)

lemma read_head_spec:
  fixes t :: "'z log_st_scheme"
  assumes b: "booted j start d t" and h: "header_ok start len (d start)"
  defines "homes \<equiv> map (hdr_home (d start)) [0..<nat (hdr_n (d start))]"
  shows "\<exists>t'. read_head t = Ok () t' \<and> pending j len homes t' \<and> log_start t' = start \<and> dirty_blks t' = {} \<and> did [] {} t t'"
proof -
  from b have q: "bgood j t" "locked_blks t = {}" "log_dev t = 1" "log_start t = start" "dirty_blks t = {}"
    and l: "length (lh_block t) = nat LOGSIZE" by (auto simp: booted_def quiet_def)
  from h have f: "log_fits start len (hdr_n (d start))" by (simp add: header_ok_def)
  then have n: "0 \<le> hdr_n (d start)" "hdr_n (d start) \<le> LOGSIZE" by (auto simp: log_fits_def)
  from bc.rd_law [OF q(1) start_facts(2) [OF f]] q(2,5) obtain b s1 where
    1: "bread 1 start t = Ok b s1" "bgood j s1" "holds s1 b start" "content s1 = content t" "disk s1 1 = disk t 1"
      "dirty_blks s1 = {}" "locked_blks s1 = {start}" "disk_writes s1 = disk_writes t" "rest s1 = rest t" by auto
  note r1 = rest_log [OF 1(9)]
  let ?n = "hdr_n (d start)"
  let ?u = "s1\<lparr>lh_n := ?n, lh_block := homes @ drop (nat ?n) (lh_block s1)\<rparr>"
  have data: "b_data (bufs s1 ! b) = d start" using bc.get_law [OF 1(2,3)] 1(4) booted_content [OF b] by simp
  have "holds ?u b start" "bgood j ?u" using 1 by simp_all
  from bc.rel_law [OF this(2,1)] 1 booted_content [OF b] b obtain s2 where
    2: "brelse b ?u = Ok () s2" "bgood j s2" "content s2 = content t" "disk s2 1 = disk t 1" "dirty_blks s2 = {}"
      "locked_blks s2 = {}" "disk_writes s2 = disk_writes t" "rest s2 = rest ?u" by (auto simp: booted_def)
  have r2: "lh_n s2 = ?n" "lh_block s2 = homes @ drop (nat ?n) (lh_block t)" "log_start s2 = start" "log_dev s2 = 1"
    using rest_log [OF 2(8)] r1 q by simp_all
  have "read_head t = Ok () s2"
    using q 1(1) data n 2(1) by (simp add: read_head_def hdr_n_def hdr_home_def [abs_def] homes_def Let_def)
  moreover have "trans_ok start len homes" using h f n by (auto simp: trans_ok_def header_ok_def homes_def)
  then have "pending j len homes s2"
    using 2 r2 n by (simp add: pending_def quiet_def homes_def)
  ultimately show ?thesis using 2 r2 q(5) by (auto simp: did_def)
qed

lemma recover_did:
  fixes t :: "'z log_st_scheme"
  assumes b: "booted j start d t" and h: "header_ok start len (d start)"
  shows "\<exists>t'. recover_from_log t = Ok () t' \<and> quiet j t' \<and> dirty_blks t' = {} \<and> lh_n t' = 0 \<and> did (recover_writes start d) {} t t'"
proof -
  define homes where "homes = map (hdr_home (d start)) [0..<nat (hdr_n (d start))]"
  from read_head_spec [OF b h] obtain t1 where
    1: "read_head t = Ok () t1" "pending j len homes t1" "log_start t1 = start" "dirty_blks t1 = {}" "did [] {} t t1"
    unfolding homes_def by blast
  have c1: "content t1 = d" using 1(5) booted_content [OF b] by (simp add: did_def)
  from install_trans_did [OF 1(2)] 1(3,4) obtain t2 where
    2: "install_trans t1 = Ok () t2" "quiet j t2" "rest t2 = rest t1"
      "did (map (\<lambda>k. (homes ! k, d (slot start k))) [0..<length homes]) (set homes) t1 t2" by (auto simp: c1)
  have W: "map (\<lambda>k. (homes ! k, d (slot start k))) [0..<length homes]
      = map (\<lambda>k. (hdr_home (d start) k, d (slot start k))) [0..<nat (hdr_n (d start))]" (is "?A = ?B") by (simp add: homes_def)
  note r2 = rest_log [OF 2(3)] 1(3)
  from h have f: "log_fits start len (hdr_n (d start))" by (simp add: header_ok_def)
  have "start \<notin> fst ` set ?B" using h start_facts(1) [OF f] by (auto simp: header_ok_def)
  then have c2: "content t2 start = d start" using 2(4) c1 unfolding W by (simp add: did_def apply_writes_other)
  have d2: "dirty_blks t2 = {}" using 2(4) 1(4) by (simp add: did_def)
  have f0: "log_fits start len 0" using f by (auto simp: log_fits_def)
  from write_head_did [of j "t2\<lparr>lh_n := 0\<rparr>" len] obtain t3 where
    3: "write_head (t2\<lparr>lh_n := 0\<rparr>) = Ok () t3" "quiet j t3" "rest t3 = rest (t2\<lparr>lh_n := 0\<rparr>)" "did [(start, put32 0 0 (d start))] {} t2 t3"
    using f0 2(2) d2 by (auto simp: r2 head_bytes_0 c2)
  have "recover_from_log t = Ok () t3" using 1(1) 2(1) 3(1) by (simp add: recover_from_log_def)
  moreover have "dirty_blks t3 = {}" "lh_n t3 = 0" using 3(4) d2 rest_log(1) [OF 3(3)] by (simp_all add: did_def)
  moreover have "did (recover_writes start d) {} t t3"
    using did_trans [OF 1(5) did_trans [OF 2(4) [unfolded W] 3(4)]] d2 1(4) \<open>dirty_blks t3 = {}\<close> b
    by (simp add: recover_writes_def did_def booted_def)
  ultimately show ?thesis using 3(2) by blast
qed

subsection \<open>Crash safety\<close>

text \<open>
  A transaction about to commit: its blocks are the modified ones, named once each in the
  in-memory header; the header on the disk is clear.
\<close>

definition transaction :: "nat \<Rightarrow> nat \<Rightarrow> uint list \<Rightarrow> 'z log_st_scheme \<Rightarrow> bool" where
  "transaction i len homes s \<longleftrightarrow> pending i len homes s \<and> homes \<noteq> [] \<and> dirty_blks s = set homes \<and> distinct homes \<and>
     length homes < NBUF \<and> hdr_n (disk s 1 (log_start s)) = 0"

lemma transaction_commit:
  fixes s :: "'z log_st_scheme"
  assumes tr: "transaction i len homes s"
  obtains s' ws where "commit s = Ok () s'" "quiet i s'" "rest s' = rest (s\<lparr>lh_n := 0\<rparr>)" "dirty_blks s' = {}" "did ws (set homes) s s'"
    "\<And>k n. \<not> in_log (log_start s) len n \<Longrightarrow>
       header_ok (log_start s) len (apply_writes (take k ws) (disk s 1) (log_start s)) \<and>
       recovered (log_start s) (apply_writes (take k ws) (disk s 1)) n = (if k \<le> length homes then disk s 1 n else content s n)"
    "\<And>n. \<not> in_log (log_start s) len n \<Longrightarrow> disk s' 1 n = content s n" "hdr_n (disk s' 1 (log_start s)) = 0"
proof -
  let ?S = "log_start s"
  let ?h = "head_bytes (lh_n s) (lh_block s) (content s ?S)"
  let ?ws = "commit_writes ?S homes (content s) ?h"
  from tr have p: "pending i len homes s" and d: "dirty_blks s = set homes" "distinct homes" "length homes < NBUF"
    and ne: "homes \<noteq> []" and e: "hdr_n (disk s 1 ?S) = 0" by (auto simp: transaction_def)
  from p have ok: "trans_ok ?S len homes" and n: "lh_n s = int (length homes)" "take (length homes) (lh_block s) = homes"
    and good: "bgood i s" "locked_blks s = {}" by (auto simp: pending_def quiet_def)
  from ok have fits: "log_fits ?S len (int (length homes))" by (simp add: trans_ok_def)
  have S: "?S \<notin> set homes" using ok start_facts(1) [OF fits] by (auto simp: trans_ok_def)
  have same: "content s m = disk s 1 m" if "m \<notin> set homes" for m
    using bc.clean_law [OF good(1), of m] good(2) d(1) that by simp
  have len: "length (disk s 1 m) = BSIZE" for m using good(1) by (auto simp: bgood_def bio_inv_def disk_ok_def)
  have "length (content s ?S) = BSIZE" "0 \<le> lh_n s" "lh_n s \<le> LOGSIZE"
    using same [OF S] len fits n(1) by (auto simp: log_fits_def)
  note H = head_bytes_read [OF this(2,3,1), where bl = "lh_block s"]
  have "get32 ?h (4 + 4 * k) = homes ! k" if "k < length homes" for k
    using H(2) [of k] that n by (metis nat_int nth_take)
  then have names: "names ?h homes" using H(1,3) n(1) by (simp add: names_def hdr_n_def hdr_home_def)
  from commit_did [OF p ne d] obtain s' where
    c: "commit s = Ok () s'" "quiet i s'" "rest s' = rest (s\<lparr>lh_n := 0\<rparr>)" "dirty_blks s' = {}" "did ?ws (set homes) s s'" by blast
  have pre: "header_ok ?S len (apply_writes (take k ?ws) (disk s 1) ?S) \<and>
      recovered ?S (apply_writes (take k ?ws) (disk s 1)) m = (if k \<le> length homes then disk s 1 m else content s m)"
    if "\<not> in_log ?S len m" for k m
    by (rule commit_prefix [where old = "disk s 1" and new = "content s", OF ok names e len same that])
  have fin: "apply_writes ?ws (disk s 1) ?S = put32 0 0 ?h" by (simp add: commit_writes_def apply_writes_append)
  then have erased: "hdr_n (apply_writes ?ws (disk s 1) ?S) = 0" using names by (simp add: names_def hdr_empty)
  have "disk s' 1 m = content s m" if "\<not> in_log ?S len m" for m
  proof -
    have l: "length ?ws = 2 * length homes + 2" by (simp add: commit_writes_def log_writes_def home_writes_def)
    have "\<not> in_log ?S len ?S \<or> m \<noteq> ?S" using that by blast
    then have ms: "m \<noteq> ?S" using start_facts(1) [OF fits] by blast
    have "recovered ?S (apply_writes ?ws (disk s 1)) m = apply_writes ?ws (disk s 1) m"
      using ms erased by (simp add: recovered_def recover_writes_def)
    moreover have "recovered ?S (apply_writes ?ws (disk s 1)) m = content s m" using pre [OF that, of "length ?ws"] l by simp
    ultimately show ?thesis using c(5) by (simp add: did_def)
  qed
  moreover have "hdr_n (disk s' 1 ?S) = 0" using erased c(5) by (simp add: did_def)
  ultimately show ?thesis using c pre by (intro that) blast+
qed

text \<open>
  A log of 30 blocks from block 2 on, on a disk of zeroes, with one pending block.
\<close>

definition log_example :: "nat \<Rightarrow> log_st" where
  "log_example n = bio_st.extend bio_zero \<lparr>log_start = 2, log_size = 30, log_outstanding = 0, log_committing = True,
     log_dev = 1, lh_n = int n, lh_block = 100 # replicate 29 0\<rparr>"

lemma log_example_base:
  "bufs (log_example n) = replicate (Suc NBUF) buf_zero" "disk_ok (log_example n)" "run_ok 0 (log_example n)"
  "disk (log_example n) 1 m = replicate BSIZE 0"
  by (simp_all add: log_example_def bio_st.defs bio_boot_def proc_st.defs proc_example_def disk_ok_def run_ok_def
      calm_def cli_wf_def)

abbreviation sevens :: "byte list" where "sevens \<equiv> replicate BSIZE 7"

lemma get32_zeroes: "k + 4 \<le> BSIZE \<Longrightarrow> get32 (replicate BSIZE 0) k = 0"
  by (simp add: get32_def)

lemma log_example_transaction: "transaction 0 30 [100] (pinned 100 sevens (log_example 1))"
proof -
  have v: "length sevens = BSIZE" by simp
  note P = pinned_facts [OF log_example_base(1-3) v, of 100 1]
  have f: "log_start (pinned 100 sevens (log_example 1)) = 2" "log_dev (pinned 100 sevens (log_example 1)) = 1"
    "lh_n (pinned 100 sevens (log_example 1)) = 1" "lh_block (pinned 100 sevens (log_example 1)) = 100 # replicate 29 0"
    by (simp_all add: pinned_def upd_buf_def binit_eq initlock_def log_example_def bio_st.defs)
  show ?thesis
    using P f log_example_base(4) [of 1 2] get32_zeroes [of 0]
    by (simp add: transaction_def pending_def quiet_def trans_ok_def log_fits_def in_log_def hdr_n_def)
qed

lemma booted_binit: "booted 0 2 (\<lambda>_. replicate BSIZE 0) (binit (log_example 0))"
proof -
  note F = binit_fresh [OF log_example_base(1) [of 0] log_example_base(2)]
  have f: "\<not> is_blk m (bufs (binit (log_example 0)) ! c)" if "c < NBUF" for c m
    using core_eqD(2) [OF F(3) [OF that]] by (simp add: is_blk_def buf_zero_def)
  have "run_ok 0 (binit (log_example 0))"
    using log_example_base(3) [of 0] by (simp add: run_ok_def binit_eq initlock_def calm_def cli_wf_def)
  moreover have "dirty_blks (binit (log_example 0)) = {}" "locked_blks (binit (log_example 0)) = {}"
    using f by (auto simp: dirty_blks_def locked_blks_def)
  moreover have "disk (binit (log_example 0)) 1 = (\<lambda>_. replicate BSIZE 0)" "log_dev (binit (log_example 0)) = 1"
    "log_start (binit (log_example 0)) = 2" "length (lh_block (binit (log_example 0))) = 30"
    by (simp_all add: binit_eq initlock_def log_example_def bio_st.defs bio_boot_def proc_st.defs fun_eq_iff)
  ultimately show ?thesis using F(1) by (simp add: booted_def quiet_def bgood_def)
qed

text \<open>
  C1: a commit is atomic under crashes.  \<open>commit\<close> succeeds and issues a sequence of disk writes;
  if the machine stops after any number \<open>k\<close> of them, recovery at the next boot succeeds, and
  outside the log every block then has the contents from before the transaction when the crash
  came before the header was written, and the transaction's contents otherwise: all or nothing,
  never a mixture.  Without a crash the new contents are on the disk.
\<close>

theorem log_crash_atomic:
  fixes s :: "'z log_st_scheme" and t :: "'y log_st_scheme"
  assumes "transaction i len homes s"
  shows "\<exists>s' ws. commit s = Ok () s' \<and> lh_n s' = 0 \<and> disk_writes s' = map (Pair 1) (rev ws) @ disk_writes s \<and>
    (\<forall>n. \<not> in_log (log_start s) len n \<longrightarrow> disk s' 1 n = content s n) \<and>
    (\<forall>k j t. booted j (log_start s) (apply_writes (take k ws) (disk s 1)) (t :: 'y log_st_scheme) \<longrightarrow>
      (\<exists>t'. recover_from_log t = Ok () t' \<and> lh_n t' = 0 \<and>
        (\<forall>n. \<not> in_log (log_start s) len n \<longrightarrow> disk t' 1 n = (if k \<le> length homes then disk s 1 n else content s n))))"
proof -
  let ?S = "log_start s"
  obtain s' ws where c: "commit s = Ok () s'" "quiet i s'" "rest s' = rest (s\<lparr>lh_n := 0\<rparr>)" "dirty_blks s' = {}" "did ws (set homes) s s'"
    and pre: "\<And>k n. \<not> in_log ?S len n \<Longrightarrow> header_ok ?S len (apply_writes (take k ws) (disk s 1) ?S) \<and>
       recovered ?S (apply_writes (take k ws) (disk s 1)) n = (if k \<le> length homes then disk s 1 n else content s n)"
    and fin: "\<And>n. \<not> in_log ?S len n \<Longrightarrow> disk s' 1 n = content s n"
    by (rule transaction_commit [OF assms]) (rule that)
  have "\<exists>t'. recover_from_log t = Ok () t' \<and> lh_n t' = 0 \<and>
        (\<forall>n. \<not> in_log ?S len n \<longrightarrow> disk t' 1 n = (if k \<le> length homes then disk s 1 n else content s n))"
    if b: "booted j ?S (apply_writes (take k ws) (disk s 1)) t" for k j and t :: "'y log_st_scheme"
  proof -
    have "\<not> in_log ?S len (homes ! 0)" using assms by (auto simp: transaction_def pending_def trans_ok_def)
    then have "header_ok ?S len (apply_writes (take k ws) (disk s 1) ?S)" using pre by blast
    from recover_did [OF b this] obtain t' where
      t': "recover_from_log t = Ok () t'" "lh_n t' = 0" "did (recover_writes ?S (apply_writes (take k ws) (disk s 1))) {} t t'" by blast
    have "disk t' 1 n = recovered ?S (apply_writes (take k ws) (disk s 1)) n" for n
      using t'(3) b by (simp add: did_def booted_def recovered_def)
    with pre t' show ?thesis by auto
  qed
  moreover have "lh_n s' = 0" using rest_log(1) [OF c(3)] by simp
  ultimately show ?thesis using c fin unfolding did_def by blast
qed

theorem log_crash_atomic_witness:
  "\<exists>s' t'. commit (pinned 100 sevens (log_example 1)) = Ok () s' \<and> disk s' 1 100 = sevens \<and>
     recover_from_log (binit (log_example 0)) = Ok () t' \<and> disk t' 1 100 = replicate BSIZE 0"
proof -
  let ?s = "pinned 100 sevens (log_example 1)"
  have v: "length sevens = BSIZE" by simp
  note P = pinned_facts [OF log_example_base(1-3) v, of 100 1]
  have st: "log_start ?s = 2" by (simp add: pinned_def upd_buf_def binit_eq initlock_def log_example_def bio_st.defs)
  have d: "disk ?s 1 = (\<lambda>_. replicate BSIZE 0)" using P(5) log_example_base(4) by (simp add: fun_eq_iff)
  have out: "\<not> in_log 2 30 100" by (simp add: in_log_def)
  from log_crash_atomic [OF log_example_transaction, where ?'y = unit] obtain s' ws where
    c: "commit ?s = Ok () s'" "\<forall>n. \<not> in_log (log_start ?s) 30 n \<longrightarrow> disk s' 1 n = content ?s n"
    and r: "\<forall>k j t. booted j (log_start ?s) (apply_writes (take k ws) (disk ?s 1)) (t :: log_st) \<longrightarrow>
      (\<exists>t'. recover_from_log t = Ok () t' \<and> lh_n t' = 0 \<and> (\<forall>n. \<not> in_log (log_start ?s) 30 n \<longrightarrow>
         disk t' 1 n = (if k \<le> length [100 :: uint] then disk ?s 1 n else content ?s n)))" by blast
  have "disk s' 1 100 = sevens" using c(2) [unfolded st P(4), rule_format, OF out] by simp
  moreover have "booted 0 (log_start ?s) (apply_writes (take 0 ws) (disk ?s 1)) (binit (log_example 0))"
    using booted_binit unfolding st d by simp
  from r [rule_format, OF this] obtain t' where "recover_from_log (binit (log_example 0)) = Ok () t'"
    "disk t' 1 100 = replicate BSIZE 0" using out unfolding st d by auto
  ultimately show ?thesis using c(1) by blast
qed

text \<open>
  C4: recovery is idempotent under crashes.  If the machine stops after any number of the writes
  of a recovery and boots again, the second recovery succeeds and leaves every block outside the
  log as the first one would have.
\<close>

theorem recovery_crash_idempotent:
  fixes t :: "'z log_st_scheme" and u :: "'y log_st_scheme"
  assumes "booted i start d t" and "header_ok start len (d start)"
  shows "\<exists>t' ws. recover_from_log t = Ok () t' \<and> disk_writes t' = map (Pair 1) (rev ws) @ disk_writes t \<and>
    (\<forall>k j u. booted j start (apply_writes (take k ws) d) (u :: 'y log_st_scheme) \<longrightarrow>
      (\<exists>u'. recover_from_log u = Ok () u' \<and> (\<forall>n. \<not> in_log start len n \<longrightarrow> disk u' 1 n = disk t' 1 n)))"
proof -
  let ?ws = "recover_writes start d"
  from recover_did [OF assms] obtain t' where t': "recover_from_log t = Ok () t'" "did ?ws {} t t'" by blast
  have "disk t 1 = d" using assms(1) by (simp add: booted_def)
  then have dt: "disk t' 1 = recovered start d" using t'(2) by (simp add: did_def recovered_def)
  have "\<exists>u'. recover_from_log u = Ok () u' \<and> (\<forall>n. \<not> in_log start len n \<longrightarrow> disk u' 1 n = disk t' 1 n)"
    if b: "booted j start (apply_writes (take k ?ws) d) u" for k j and u :: "'y log_st_scheme"
  proof (cases "\<exists>n. \<not> in_log start len n")
    case True
    then obtain m where m: "\<not> in_log start len m" by blast
    from recover_did [OF b recovered_again(2) [where j = k and d = d, OF assms(2) m]] obtain u' where
      u': "recover_from_log u = Ok () u'" "did (recover_writes start (apply_writes (take k ?ws) d)) {} u u'" by blast
    have "disk u' 1 = recovered start (apply_writes (take k ?ws) d)"
      using u'(2) b by (simp add: did_def booted_def recovered_def)
    with u'(1) recovered_again(1) [where j = k and d = d, OF assms(2)] show ?thesis by (auto simp: dt)
  next
    case False
    then have "in_log start len (- 1)" by blast
    then have "unat (- 1 :: uint) < 1000" using assms(2) by (auto simp: in_log_def header_ok_def log_fits_def)
    then show ?thesis by (simp add: unsigned_minus_1_eq_mask mask_eq_exp_minus_1)
  qed
  with t' show ?thesis unfolding did_def by blast
qed

theorem recovery_crash_idempotent_witness:
  "\<exists>t' u'. recover_from_log (binit (log_example 0)) = Ok () t' \<and> recover_from_log (binit (log_example 0)) = Ok () u' \<and>
     disk u' 1 100 = disk t' 1 100"
proof -
  have h: "header_ok 2 30 ((\<lambda>_ :: uint. replicate BSIZE 0) 2)"
    using get32_zeroes [of 0] by (simp add: header_ok_def hdr_n_def log_fits_def)
  have out: "\<not> in_log 2 30 100" by (simp add: in_log_def)
  from recovery_crash_idempotent [OF booted_binit h, where ?'y = unit] obtain t' ws where
    t: "recover_from_log (binit (log_example 0)) = Ok () t'"
    and r: "\<forall>k j u. booted j 2 (apply_writes (take k ws) (\<lambda>_. replicate BSIZE 0)) (u :: log_st) \<longrightarrow>
      (\<exists>u'. recover_from_log u = Ok () u' \<and> (\<forall>n. \<not> in_log 2 30 n \<longrightarrow> disk u' 1 n = disk t' 1 n))" by blast
  have "booted 0 2 (apply_writes (take 0 ws) (\<lambda>_. replicate BSIZE 0)) (binit (log_example 0))" using booted_binit by simp
  with r out t show ?thesis by blast
qed

end
