(* ===== verification/Xv6_Logops.thy ===== *)
theory Xv6_Logops
  imports Xv6_Recovery Xv6_Inode
begin

text \<open>
  The interface of the log to the file system: \<open>log_write\<close> records a block once and keeps the
  modified blocks and the in-memory header in step, \<open>begin_op\<close> reserves space or sleeps, and the
  \<open>end_op\<close> of the last operation commits.  Together they establish the state in which a commit
  is atomic.
\<close>

subsection \<open>The log's state under its lock\<close>

lemma log_enter [enter_simps]:
  "lh_n (enter lk s) = lh_n s" "lh_block (enter lk s) = lh_block s" "log_outstanding (enter lk s) = log_outstanding s"
  "log_committing (enter lk s) = log_committing s" "log_size (enter lk s) = log_size s" "log_start (enter lk s) = log_start s"
  "(enter lk s)\<lparr>lh_n := n\<rparr> = enter lk (s\<lparr>lh_n := n\<rparr>)" "(enter lk s)\<lparr>lh_block := bl\<rparr> = enter lk (s\<lparr>lh_block := bl\<rparr>)"
  "(enter lk s)\<lparr>log_outstanding := n\<rparr> = enter lk (s\<lparr>log_outstanding := n\<rparr>)"
  "(enter lk s)\<lparr>log_committing := c\<rparr> = enter lk (s\<lparr>log_committing := c\<rparr>)"
  by (simp_all add: enter_def)

lemma log_calm [enter_simps]:
  "calm (s\<lparr>lh_n := n\<rparr>) = calm s" "calm (s\<lparr>lh_block := bl\<rparr>) = calm s"
  "calm (s\<lparr>log_outstanding := n\<rparr>) = calm s" "calm (s\<lparr>log_committing := c\<rparr>) = calm s"
  by (simp_all add: calm_def cli_wf_def)

lemma cache_ignores [simp]:
  "bgood i (s\<lparr>log_outstanding := n\<rparr>) = bgood i s" "bgood i (s\<lparr>log_committing := c\<rparr>) = bgood i s"
  "bgood i (s\<lparr>lh_block := bl\<rparr>) = bgood i s" "bgood i (s\<lparr>lh_n := m\<rparr>) = bgood i s"
  "holds (s\<lparr>lh_block := bl\<rparr>) = holds s" "holds (s\<lparr>lh_n := m\<rparr>) = holds s"
  "content (s\<lparr>log_outstanding := n\<rparr>) = content s" "content (s\<lparr>log_committing := c\<rparr>) = content s"
  "content (s\<lparr>lh_block := bl\<rparr>) = content s"
  "dirty_blks (s\<lparr>log_outstanding := n\<rparr>) = dirty_blks s" "dirty_blks (s\<lparr>log_committing := c\<rparr>) = dirty_blks s"
  "dirty_blks (s\<lparr>lh_block := bl\<rparr>) = dirty_blks s"
  "locked_blks (s\<lparr>log_outstanding := n\<rparr>) = locked_blks s" "locked_blks (s\<lparr>log_committing := c\<rparr>) = locked_blks s"
  "locked_blks (s\<lparr>lh_block := bl\<rparr>) = locked_blks s" "locked_blks (s\<lparr>lh_n := m\<rparr>) = locked_blks s"
  by (auto simp: fun_eq_iff holds_def content_def dirty_blks_def locked_blks_def bgood_def bio_inv_def disk_ok_def run_ok_def
      calm_def cli_wf_def split: option.split)

subsection \<open>Recording a block\<close>

text \<open>The in-memory header names each modified block once, and no other block is modified.\<close>

definition logged :: "uint list \<Rightarrow> 'z log_st_scheme \<Rightarrow> bool" where
  "logged homes s \<longleftrightarrow> lh_n s = int (length homes) \<and> length (lh_block s) = nat LOGSIZE \<and> take (length homes) (lh_block s) = homes \<and>
     distinct homes \<and> dirty_blks s = set homes"

definition record_blk :: "uint \<Rightarrow> uint list \<Rightarrow> uint list" where
  "record_blk n homes = (if n \<in> set homes then homes else homes @ [n])"

lemma scan_member:
  "n \<in> set xs \<Longrightarrow> \<exists>k < length xs. scan (\<lambda>x. x = n) xs = Some k \<and> xs ! k = n"
  "n \<notin> set xs \<Longrightarrow> scan (\<lambda>x. x = n) xs = None"
  by (cases "scan (\<lambda>x. x = n) xs"; auto simp: scan_None scan_Some_iff)+

lemma log_write_eq:
  assumes run: "run_ok i s" and l: "logged homes s" and b: "b < length (bufs s)"
    and room: "length homes < nat LOGSIZE" "int (length homes) < sint (log_size s) - 1" "1 \<le> log_outstanding s"
  defines "n \<equiv> b_blockno (bufs s ! b)"
  defines "k \<equiv> (case scan (\<lambda>x. x = n) homes of Some k \<Rightarrow> k | None \<Rightarrow> length homes)"
  shows "log_write b s = Ok () (upd_buf b (\<lambda>x. x\<lparr>b_flags := b_flags x OR B_DIRTY\<rparr>)
    (s\<lparr>lh_block := (lh_block s)[k := n], lh_n := int (length (record_blk n homes))\<rparr>))"
proof -
  have h: "calm s" "held s = []" using run by (auto simp: run_ok_def)
  from l have hd: "lh_n s = int (length homes)" "take (nat (lh_n s)) (lh_block s) = homes" by (auto simp: logged_def)
  have k: "int k = lh_n s \<longleftrightarrow> n \<notin> set homes"
    using scan_member [of n homes] by (cases "n \<in> set homes") (auto simp: k_def hd(1))
  have pos: "(case scan (\<lambda>x. x = n) homes of None \<Rightarrow> nat (lh_n (enter L_log s)) | Some i \<Rightarrow> i) = k"
    by (simp add: k_def enter_simps hd(1) split: option.split)
  have guard: "\<not> (lh_n s \<ge> LOGSIZE \<or> lh_n s \<ge> sint (log_size s) - 1)" "\<not> log_outstanding s < 1"
    using room hd(1) by auto
  let ?s1 = "s\<lparr>lh_block := (lh_block s)[k := n]\<rparr>"
  let ?s2 = "if int k = lh_n ?s1 then ?s1\<lparr>lh_n := lh_n ?s1 + 1\<rparr> else ?s1"
  have "?s2 = s\<lparr>lh_block := (lh_block s)[k := n], lh_n := int (length (record_blk n homes))\<rparr>"
    using k hd(1) by (cases "n \<in> set homes") (simp_all add: record_blk_def)
  moreover have "log_write b s = Ok () (upd_buf b (\<lambda>x. x\<lparr>b_flags := b_flags x OR B_DIRTY\<rparr>) ?s2)"
    using guard h k
    by (cases "int k = lh_n s")
      (simp_all add: log_write_def acquire_calm enter_simps hd(2) n_def [symmetric] pos release_enter Let_def)
  ultimately show ?thesis by simp
qed

lemma log_write_law:
  assumes "bgood i s" and "holds s b n" and "logged homes s"
    and "length homes < nat LOGSIZE" and "int (length homes) < sint (log_size s) - 1" and "1 \<le> log_outstanding s"
  shows "\<exists>s'. log_write b s = Ok () s' \<and> bgood i s' \<and> holds s' b n \<and> logged (record_blk n homes) s' \<and> content s' = content s \<and>
    locked_blks s' = locked_blks s \<and> n \<in> dirty_blks s' \<and> log_size s' = log_size s \<and> log_outstanding s' = log_outstanding s \<and>
    log_committing s' = log_committing s \<and> procs s' = procs s"
proof -
  have run: "run_ok i s" and bn: "b < length (bufs s)" "b_blockno (bufs s ! b) = n"
    using assms(1,2) by (auto simp: bgood_def holds_def is_blk_def dest: bio_invD)
  let ?k = "case scan (\<lambda>x. x = n) homes of Some k \<Rightarrow> k | None \<Rightarrow> length homes"
  let ?s1 = "s\<lparr>lh_block := (lh_block s)[?k := n], lh_n := int (length (record_blk n homes))\<rparr>"
  have eq: "log_write b s = Ok () (upd_buf b (\<lambda>x. x\<lparr>b_flags := b_flags x OR B_DIRTY\<rparr>) ?s1)" (is "_ = Ok () ?s2")
    using log_write_eq [OF run assms(3) bn(1) assms(4-6)] bn(2) by simp
  have "bgood i ?s1" "holds ?s1 b n" using assms(1,2) by simp_all
  note P = pin_law [OF this]
  from assms(3) have l: "lh_n s = int (length homes)" "length (lh_block s) = nat LOGSIZE" "take (length homes) (lh_block s) = homes"
    "distinct homes" "dirty_blks s = set homes" unfolding logged_def by blast+
  have "take (length (record_blk n homes)) ((lh_block s)[?k := n]) = record_blk n homes"
  proof (cases "n \<in> set homes")
    case True
    from scan_member(1) [OF True] obtain k where k: "k < length homes" "scan (\<lambda>x. x = n) homes = Some k" "homes ! k = n" by blast
    have "take (length homes) ((lh_block s)[k := n]) = homes[k := n]" using l(3) by (metis take_update_swap)
    with True k show ?thesis by (simp add: record_blk_def list_update_same_conv)
  next
    case False
    with l(2,3) assms(4) scan_member(2) [OF False] show ?thesis
      by (simp add: record_blk_def take_Suc_conv_app_nth)
  qed
  moreover have "dirty_blks ?s2 = set (record_blk n homes)" using P(4) l(5) by (auto simp: record_blk_def)
  moreover have "lh_n ?s2 = int (length (record_blk n homes))" "lh_block ?s2 = (lh_block s)[?k := n]" by (simp_all add: upd_buf_def)
  ultimately have "logged (record_blk n homes) ?s2" using l(2,4) by (simp add: logged_def record_blk_def)
  moreover have "holds ?s2 b n" "content ?s2 = content s" using P(2,5) assms(2) by simp_all
  moreover have "locked_blks ?s2 = locked_blks s" "n \<in> dirty_blks ?s2" using P by simp_all
  moreover have "log_size ?s2 = log_size s" "log_outstanding ?s2 = log_outstanding s" "log_committing ?s2 = log_committing s" "procs ?s2 = procs s"
    by (simp_all add: upd_buf_def)
  ultimately show ?thesis using eq P(1) by blast
qed

text \<open>
  C9: \<open>log_write\<close> of a locked buffer with room in the log marks the block modified and records it
  in the in-memory header, once however often it is written; the header keeps naming exactly the
  modified blocks, and no block's contents change.
\<close>

theorem log_write_records_once:
  assumes "bgood i s" and "holds s b n" and "logged homes s"
    and "length homes < nat LOGSIZE" and "int (length homes) < sint (log_size s) - 1" and "1 \<le> log_outstanding s"
  shows "\<exists>s'. log_write b s = Ok () s' \<and> bgood i s' \<and> holds s' b n \<and> logged (record_blk n homes) s' \<and> content s' = content s"
  using log_write_law [OF assms] by blast

lemma log_example_boot:
  "bgood 0 (binit (log_example 0))" "locked_blks (binit (log_example 0)) = {}" "dirty_blks (binit (log_example 0)) = {}"
  "lh_n (binit (log_example 0)) = 0" "length (lh_block (binit (log_example 0))) = nat LOGSIZE"
  "log_size (binit (log_example 0)) = 30" "log_start (binit (log_example 0)) = 2"
  using booted_binit
  by (auto simp: booted_def quiet_def binit_eq initlock_def log_example_def bio_st.defs)

theorem log_write_records_once_witness:
  "\<exists>b s s' s''. bread 1 100 ((binit (log_example 0))\<lparr>log_outstanding := 1\<rparr>) = Ok b s \<and> log_write b s = Ok () s' \<and>
     logged [100] s' \<and> log_write b s' = Ok () s'' \<and> logged [100] s''"
proof -
  let ?s = "(binit (log_example 0))\<lparr>log_outstanding := 1\<rparr>"
  have g: "bgood 0 ?s" "100 \<notin> locked_blks ?s" "100 \<in> dirty_blks ?s \<or> card (dirty_blks ?s \<union> locked_blks ?s) < NBUF"
    using log_example_boot by simp_all
  from bc.rd_law [OF g(1) _ g(2,3)] obtain b s where
    1: "bread 1 100 ?s = Ok b s" "bgood 0 s" "holds s b 100" "dirty_blks s = {}" "rest s = rest ?s"
    using log_example_boot by auto
  have o: "log_outstanding s = 1"
    using arg_cong [OF 1(5), of log_outstanding] by (simp add: rest_def)
  have f: "lh_n s = 0" "length (lh_block s) = nat LOGSIZE" "sint (log_size s) = 30"
    using rest_log [OF 1(5)] log_example_boot by simp_all
  then have l: "logged [] s" using 1(4) by (simp add: logged_def)
  from log_write_records_once [OF 1(2,3) l] f o obtain s' where
    2: "log_write b s = Ok () s'" "bgood 0 s'" "holds s' b 100" "logged [100] s'" by (auto simp: record_blk_def)
  have "log_size s' = log_size s \<and> log_outstanding s' = log_outstanding s"
    using log_write_eq [OF _ l, of 0 b] 1(2,3) 2(1) f o by (auto simp: bgood_def holds_def upd_buf_def dest: bio_invD)
  with log_write_records_once [OF 2(2-4)] f o obtain s'' where "log_write b s' = Ok () s''" "logged [100] s''"
    by (auto simp: record_blk_def)
  with 1(1) 2 show ?thesis by blast
qed

subsection \<open>Beginning and ending an operation\<close>

lemma begin_op_cases:
  assumes run: "run_ok i s"
  shows "begin_op s = (if log_committing s \<or> lh_n s + (log_outstanding s + 1) * MAXOPBLOCKS > LOGSIZE
    then Sleep Ch_log (enter L_ptable (upd_proc i (\<lambda>p. p\<lparr>p_chan := Some Ch_log, p_state := SLEEPING\<rparr>) s))
    else Ok () (s\<lparr>log_outstanding := log_outstanding s + 1\<rparr>))"
  using run sched_sleeping [OF run, of Ch_log L_log]
  by (auto simp: begin_op_def run_ok_def acquire_calm enter_simps release_enter)

text \<open>
  C10: \<open>begin_op\<close> either reserves \<open>MAXOPBLOCKS\<close> blocks, and then all reservations together with the
  blocks already recorded fit into \<open>LOGSIZE\<close>, or puts the process to sleep on the log without
  changing the log; it sleeps exactly while a commit runs or the reservation would not fit.
\<close>

theorem begin_op_reserves:
  assumes "run_ok i s"
  shows "case begin_op s of
      Ok _ s' \<Rightarrow> \<not> log_committing s \<and> log_outstanding s' = log_outstanding s + 1 \<and> lh_n s' = lh_n s \<and>
        lh_n s' + log_outstanding s' * MAXOPBLOCKS \<le> LOGSIZE
    | Sleep c s' \<Rightarrow> c = Ch_log \<and> (log_committing s \<or> lh_n s + (log_outstanding s + 1) * MAXOPBLOCKS > LOGSIZE) \<and>
        p_state (procs s' ! i) = SLEEPING \<and> log_outstanding s' = log_outstanding s \<and> lh_n s' = lh_n s
    | Panic m \<Rightarrow> False"
proof -
  have i: "i < length (procs s)" using assms by (simp add: run_ok_def)
  show ?thesis unfolding begin_op_cases [OF assms]
    using i by (auto simp: upd_proc_def enter_def)
qed

theorem begin_op_reserves_witness:
  "case begin_op ((binit (log_example 0))\<lparr>log_committing := False\<rparr>) of
      Ok _ s' \<Rightarrow> log_outstanding s' = 1 | Sleep c s' \<Rightarrow> False | Panic m \<Rightarrow> False"
proof -
  let ?s = "(binit (log_example 0))\<lparr>log_committing := False\<rparr>"
  have "bgood 0 ?s" "lh_n ?s = 0" using log_example_boot by simp_all
  moreover have "log_outstanding ?s = 0" by (simp add: binit_eq initlock_def log_example_def bio_st.defs)
  ultimately show ?thesis using begin_op_reserves [of 0 ?s]
    by (auto simp: bgood_def split: res.splits)
qed

subsection \<open>The reservations of three operations\<close>

text \<open>The state between two steps of operations: no buffer is in use, the header names the modified blocks, and the log has the size mkfs gives it.\<close>

definition in_op :: "nat \<Rightarrow> uint list \<Rightarrow> 'z log_st_scheme \<Rightarrow> bool" where
  "in_op i homes s \<longleftrightarrow> bgood i s \<and> locked_blks s = {} \<and> logged homes s \<and> log_size s = 30"

definition runs :: "'z proc_st_scheme \<Rightarrow> nat \<Rightarrow> bool" where
  "runs s j \<longleftrightarrow> j < length (procs s) \<and> p_state (procs s ! j) = RUNNING"

lemma rest_op:
  fixes s t :: "'z log_st_scheme"
  assumes "rest t = rest s"
  shows "log_outstanding t = log_outstanding s" "log_committing t = log_committing s" "runs t = runs s"
    "dirty_blks t = dirty_blks s \<Longrightarrow> logged homes t = logged homes s"
proof -
  have "log_outstanding (rest u) = log_outstanding u" "log_committing (rest u) = log_committing u" for u :: "'z log_st_scheme"
    by (simp_all add: rest_def)
  then show "log_outstanding t = log_outstanding s" "log_committing t = log_committing s" using assms by metis+
  show "runs t = runs s" using rest_running [OF assms] by (auto simp: runs_def fun_eq_iff)
  show "dirty_blks t = dirty_blks s \<Longrightarrow> logged homes t = logged homes s" using rest_log [OF assms] by (simp add: logged_def)
qed

text \<open>Another CPU goes on, in the name of the process it runs.\<close>

lemma in_op_switch:
  assumes "in_op i homes s" "runs s j"
  shows "in_op j homes (s\<lparr>curp := Some j\<rparr>)" "runs (s\<lparr>curp := Some j\<rparr>) = runs s"
  using assms
  by (auto simp: in_op_def runs_def bgood_def run_ok_def bio_inv_def disk_ok_def calm_def cli_wf_def logged_def locked_blks_def
      dirty_blks_def fun_eq_iff)

lemma bread_in_op:
  fixes s :: "'z log_st_scheme"
  assumes op: "in_op i homes s" and n: "n < FSSIZE" "n \<notin> set homes" "length homes < 30"
  obtains b s' where "bread 1 n s = Ok b s'" "bgood i s'" "holds s' b n" "locked_blks s' = {n}" "rest s' = rest s" "logged homes s'"
proof -
  have d: "dirty_blks s = set homes" "locked_blks s = {}" "bgood i s" using op by (simp_all add: in_op_def logged_def)
  have "card (dirty_blks s \<union> locked_blks s) < NBUF" using d n(3) card_length [of homes] by simp
  then obtain b s' where "bread 1 n s = Ok b s'" "bgood i s'" "holds s' b n" "dirty_blks s' = dirty_blks s" "locked_blks s' = insert n {}" "rest s' = rest s"
    using bc.rd_law [OF d(3) n(1)] d(2) by auto
  then show thesis using rest_op(4) [of s' s homes] op by (intro that [of b s']) (simp_all add: in_op_def)
qed

text \<open>\<open>bzero\<close> as a step of an operation: one more block is recorded.\<close>

lemma bzero_in_op:
  fixes s :: "'z fs_st_scheme"
  assumes op: "in_op i homes s" and n: "n < FSSIZE" "n \<notin> set homes" "length homes < 29" and out: "1 \<le> log_outstanding s"
  shows "\<exists>s'. bzero 1 n s = Ok () s' \<and> in_op i (homes @ [n]) s' \<and> log_outstanding s' = log_outstanding s \<and> runs s' = runs s"
proof -
  let ?z = "replicate BSIZE 0 :: byte list"
  obtain b s1 where 1: "bread 1 n s = Ok b s1" "bgood i s1" "holds s1 b n" "locked_blks s1 = {n}" "rest s1 = rest s" "logged homes s1"
    using bread_in_op [OF op n(1,2)] n(3) by auto
  define s2 where "s2 = set_data b ?z s1"
  have 2: "bgood i s2" "holds s2 b n" "dirty_blks s2 = dirty_blks s1" "locked_blks s2 = {n}" "rest s2 = rest s"
    using bc.put_law [OF 1(2,3), of ?z] 1(3,4,5) by (simp_all add: s2_def)
  have l2: "logged homes s2" using rest_op(4) [of s2 s1 homes] 2(3,5) 1(5,6) by simp
  have "log_size s2 = 30" "log_outstanding s2 = log_outstanding s" using rest_log(5) [OF 2(5)] rest_op(1) [OF 2(5)] op by (simp_all add: in_op_def)
  then obtain s3 where 3: "log_write b s2 = Ok () s3" "bgood i s3" "holds s3 b n" "logged (homes @ [n]) s3" "locked_blks s3 = {n}" "n \<in> dirty_blks s3"
    "log_size s3 = 30" "log_outstanding s3 = log_outstanding s" "procs s3 = procs s2"
    using log_write_law [OF 2(1,2) l2] n(2,3) out 2(4) by (auto simp: record_blk_def)
  obtain s4 where 4: "brelse b s3 = Ok () s4" "bgood i s4" "dirty_blks s4 = dirty_blks s3" "locked_blks s4 = {}" "rest s4 = rest s3"
    using bc.rel_law [OF 3(2,3)] 3(5,6) by auto
  have "runs s3 = runs s2" using 3(9) by (simp add: runs_def fun_eq_iff)
  then have "runs s4 = runs s" "log_outstanding s4 = log_outstanding s" using rest_op(1,3) [OF 4(5)] rest_op(3) [OF 2(5)] 3(8) by simp_all
  moreover have "in_op i (homes @ [n]) s4" using 4 3(4,7) rest_op(4) [OF 4(5,3)] rest_log(5) [OF 4(5)] by (simp add: in_op_def)
  moreover have "bzero 1 n s = Ok () s4" using 1(1) 3(1) 4(1) by (simp add: bzero_def s2_def)
  ultimately show ?thesis by blast
qed

lemma bzeros_in_op:
  fixes s :: "'z fs_st_scheme"
  assumes "in_op i homes s" "\<forall>n \<in> set ns. n < FSSIZE" "distinct (homes @ ns)" "length homes + length ns \<le> 29" "1 \<le> log_outstanding s"
  shows "\<exists>s'. rfor ns (bzero 1) s = Ok () s' \<and> in_op i (homes @ ns) s' \<and> log_outstanding s' = log_outstanding s \<and> runs s' = runs s"
  using assms
proof (induction ns arbitrary: homes s)
  case (Cons n ns)
  obtain t where t: "bzero 1 n s = Ok () t" "in_op i (homes @ [n]) t" "log_outstanding t = log_outstanding s" "runs t = runs s"
    using bzero_in_op [OF Cons.prems(1), of n] Cons.prems by auto
  then obtain u where "rfor ns (bzero 1) t = Ok () u" "in_op i ((homes @ [n]) @ ns) u" "log_outstanding u = log_outstanding t" "runs u = runs t"
    using Cons.IH [OF t(2)] Cons.prems by auto
  with t show ?case by auto
qed simp

text \<open>The thirtieth block is one too many for the log.\<close>

lemma bzero_too_big:
  fixes s :: "'z fs_st_scheme"
  assumes op: "in_op i homes s" and n: "n < FSSIZE" "n \<notin> set homes" "length homes = 29"
  shows "bzero 1 n s = Panic ''too big a transaction''"
proof -
  have "length homes < 30" using n(3) by simp
  then obtain b s1 where 1: "bread 1 n s = Ok b s1" "rest s1 = rest s" "logged homes s1"
    by (rule bread_in_op [OF op n(1,2)])
  have "lh_n (set_data b x s1) = 29" "log_size (set_data b x s1) = 30" for x
    using rest_log(5) [OF 1(2)] op 1(3) n(3) by (simp_all add: in_op_def logged_def set_data_def upd_buf_def)
  then show ?thesis using 1(1) by (simp add: bzero_def log_write_def)
qed

lemma begin_op_in_op:
  fixes s :: "'z log_st_scheme"
  assumes op: "in_op i [] s" and s: "\<not> log_committing s" "log_outstanding s < 3" and j: "runs s j"
  shows "\<exists>s'. begin_op (s\<lparr>curp := Some j\<rparr>) = Ok () s' \<and> in_op j [] s' \<and> \<not> log_committing s' \<and> log_outstanding s' = log_outstanding s + 1 \<and> runs s' = runs s"
proof -
  let ?s = "s\<lparr>curp := Some j\<rparr>"
  note w = in_op_switch [OF op j]
  have "run_ok j ?s" "lh_n ?s = 0" using w(1) by (simp_all add: in_op_def bgood_def logged_def)
  then have "begin_op ?s = Ok () (?s\<lparr>log_outstanding := log_outstanding s + 1\<rparr>)" using begin_op_cases [of j ?s] s by simp
  moreover have "in_op j [] (?s\<lparr>log_outstanding := log_outstanding s + 1\<rparr>)" using w(1) by (simp add: in_op_def logged_def)
  moreover have "runs (?s\<lparr>log_outstanding := log_outstanding s + 1\<rparr>) = runs s" using w(2) by (simp add: runs_def fun_eq_iff)
  ultimately show ?thesis using s by (intro exI [of _ "?s\<lparr>log_outstanding := log_outstanding s + 1\<rparr>"]) simp
qed

text \<open>
  C11: the reservation does not prevent the panic it is meant to exclude.  With the log size that
  \<open>mkfs\<close> writes (\<open>nlog = LOGSIZE = 30\<close>) three processes are admitted to begin an operation.  Each then clears
  \<open>MAXOPBLOCKS\<close> blocks with \<open>bzero\<close>, no more than it reserved and all different; the first two succeed, the third clears nine,
  and clearing its tenth block panics in \<open>log_write\<close>.
\<close>

theorem log_reservation_gap:
  fixes s :: "'z fs_st_scheme"
  assumes "in_op i [] s" and "\<not> log_committing s" and "log_outstanding s = 0" and "runs s j1" "runs s j2" "runs s j3"
    and "int (length A) = MAXOPBLOCKS" "int (length B) = MAXOPBLOCKS" "int (length C) = MAXOPBLOCKS"
    and "distinct (A @ B @ C)" and "\<forall>n \<in> set (A @ B @ C). n < FSSIZE"
  shows "\<exists>s1 s2 s3 s4 s5 s6. begin_op (s\<lparr>curp := Some j1\<rparr>) = Ok () s1 \<and> begin_op (s1\<lparr>curp := Some j2\<rparr>) = Ok () s2 \<and>
    begin_op (s2\<lparr>curp := Some j3\<rparr>) = Ok () s3 \<and> rfor A (bzero 1) (s3\<lparr>curp := Some j1\<rparr>) = Ok () s4 \<and>
    rfor B (bzero 1) (s4\<lparr>curp := Some j2\<rparr>) = Ok () s5 \<and> rfor (butlast C) (bzero 1) (s5\<lparr>curp := Some j3\<rparr>) = Ok () s6 \<and>
    bzero 1 (last C) s6 = Panic ''too big a transaction''"
proof -
  have len: "length A = 10" "length B = 10" "length C = 10" using assms(7-9) by simp_all
  then have C: "C = butlast C @ [last C]" by (metis append_butlast_last_id list.size(3) zero_neq_numeral)
  have d: "distinct (A @ B @ butlast C @ [last C])" "\<forall>n \<in> set (A @ B @ butlast C @ [last C]). n < FSSIZE" using assms(10,11) C by metis+
  obtain s1 where 1: "begin_op (s\<lparr>curp := Some j1\<rparr>) = Ok () s1" "in_op j1 [] s1" "\<not> log_committing s1" "log_outstanding s1 = 1" "runs s1 = runs s"
    using begin_op_in_op [OF assms(1,2) _ assms(4)] assms(3) by auto
  obtain s2 where 2: "begin_op (s1\<lparr>curp := Some j2\<rparr>) = Ok () s2" "in_op j2 [] s2" "\<not> log_committing s2" "log_outstanding s2 = 2" "runs s2 = runs s"
    using begin_op_in_op [OF 1(2,3), of j2] 1(4,5) assms(5) by auto
  obtain s3 where 3: "begin_op (s2\<lparr>curp := Some j3\<rparr>) = Ok () s3" "in_op j3 [] s3" "log_outstanding s3 = 3" "runs s3 = runs s"
    using begin_op_in_op [OF 2(2,3), of j3] 2(4,5) assms(6) by auto
  obtain s4 where 4: "rfor A (bzero 1) (s3\<lparr>curp := Some j1\<rparr>) = Ok () s4" "in_op j1 A s4" "log_outstanding s4 = 3" "runs s4 = runs s"
    using bzeros_in_op [OF in_op_switch(1) [OF 3(2)], of j1 A] in_op_switch(2) [OF 3(2), of j1] 3(3,4) assms(4) d len by auto
  obtain s5 where 5: "rfor B (bzero 1) (s4\<lparr>curp := Some j2\<rparr>) = Ok () s5" "in_op j2 (A @ B) s5" "log_outstanding s5 = 3" "runs s5 = runs s"
    using bzeros_in_op [OF in_op_switch(1) [OF 4(2)], of j2 B] in_op_switch(2) [OF 4(2), of j2] 4(3,4) assms(5) d len by auto
  obtain s6 where 6: "rfor (butlast C) (bzero 1) (s5\<lparr>curp := Some j3\<rparr>) = Ok () s6" "in_op j3 ((A @ B) @ butlast C) s6"
    using bzeros_in_op [OF in_op_switch(1) [OF 5(2)], of j3 "butlast C"] 5(3,4) assms(6) d len by auto
  have "bzero 1 (last C) s6 = Panic ''too big a transaction''" using bzero_too_big [OF 6(2), of "last C"] d len by auto
  with 1(1) 2(1) 3(1) 4(1) 5(1) 6(1) show ?thesis by blast
qed

text \<open>Three processes that run on a machine with an empty log.\<close>

definition three_ops :: fs_st where
  "three_ops = binit ((log_st.extend (log_example 0) \<lparr>sb = \<lparr>sb_size = 1000, sb_nblocks = 941, sb_ninodes = 200, sb_nlog = 30,
     sb_logstart = 2, sb_inodestart = 32, sb_bmapstart = 58\<rparr>, inodes = []\<rparr>)\<lparr>log_committing := False,
     procs := replicate 3 (proc_zero\<lparr>p_state := RUNNING, p_pid := 1\<rparr>)\<rparr>)"

lemma three_ops_ok: "in_op 0 [] three_ops" "\<not> log_committing three_ops" "log_outstanding three_ops = 0" "j < 3 \<Longrightarrow> runs three_ops j"
proof -
  let ?s = "(log_st.extend (log_example 0) \<lparr>sb = \<lparr>sb_size = 1000, sb_nblocks = 941, sb_ninodes = 200, sb_nlog = 30,
     sb_logstart = 2, sb_inodestart = 32, sb_bmapstart = 58\<rparr>, inodes = []\<rparr>)\<lparr>log_committing := False,
     procs := replicate 3 (proc_zero\<lparr>p_state := RUNNING, p_pid := 1\<rparr>)\<rparr> :: fs_st"
  note D = log_example_def bio_st.defs log_st.defs bio_boot_def proc_st.defs proc_example_def
  have z: "bufs ?s = replicate (Suc NBUF) buf_zero" "disk_ok ?s" by (simp_all add: D disk_ok_def)
  note F = binit_fresh [OF z]
  have f: "\<not> is_blk m (bufs (binit ?s) ! c)" if "c < NBUF" for c m
    using core_eqD(2) [OF F(3) [OF that]] by (simp add: is_blk_def buf_zero_def)
  have "dirty_blks (binit ?s) = {}" "locked_blks (binit ?s) = {}" using f by (auto simp: dirty_blks_def locked_blks_def)
  moreover have "run_ok 0 (binit ?s)" by (simp add: run_ok_def binit_eq D calm_def cli_wf_def)
  moreover have "lh_n (binit ?s) = 0" "length (lh_block (binit ?s)) = nat LOGSIZE" "log_size (binit ?s) = 30" by (simp_all add: binit_eq D)
  ultimately show "in_op 0 [] three_ops" using F(1) by (simp add: in_op_def three_ops_def bgood_def logged_def)
  show "\<not> log_committing three_ops" "log_outstanding three_ops = 0" by (simp_all add: three_ops_def binit_eq D)
  show "j < 3 \<Longrightarrow> runs three_ops j" by (simp add: three_ops_def binit_eq runs_def D)
qed

theorem log_reservation_gap_witness:
  "\<exists>s1 s2 s3 s4 s5 s6. begin_op (three_ops\<lparr>curp := Some 0\<rparr>) = Ok () s1 \<and> begin_op (s1\<lparr>curp := Some 1\<rparr>) = Ok () s2 \<and>
    begin_op (s2\<lparr>curp := Some 2\<rparr>) = Ok () s3 \<and> rfor (map of_nat [100..<110]) (bzero 1) (s3\<lparr>curp := Some 0\<rparr>) = Ok () s4 \<and>
    rfor (map of_nat [110..<120]) (bzero 1) (s4\<lparr>curp := Some 1\<rparr>) = Ok () s5 \<and>
    rfor (map of_nat [120..<129]) (bzero 1) (s5\<lparr>curp := Some 2\<rparr>) = Ok () s6 \<and> bzero 1 129 s6 = Panic ''too big a transaction''"
proof -
  let ?A = "map of_nat [100..<110] :: uint list" and ?B = "map of_nat [110..<120] :: uint list" and ?C = "map of_nat [120..<130] :: uint list"
  have d: "distinct (?A @ ?B @ ?C)" "\<forall>n \<in> set (?A @ ?B @ ?C). n < FSSIZE" by (simp_all add: upt_rec)
  have c: "butlast ?C = map of_nat [120..<129]" "last ?C = 129" by (simp_all add: upt_rec)
  show ?thesis
    using log_reservation_gap [OF three_ops_ok(1-3) three_ops_ok(4) [of 0] three_ops_ok(4) [of 1] three_ops_ok(4) [of 2] _ _ _ d] unfolding c by simp
qed

text \<open>
  C3: the \<open>end_op\<close> of the last outstanding operation commits: it returns with the transaction's
  contents on the disk, no block left modified or locked, the log empty in memory and, by its header block, on the
  disk, and the log open for the next operation.
\<close>

theorem end_op_commits:
  assumes "transaction i len homes s" and "log_outstanding s = 1" and "\<not> log_committing s"
  shows "\<exists>s'. end_op s = Ok () s' \<and> log_outstanding s' = 0 \<and> \<not> log_committing s' \<and> lh_n s' = 0 \<and>
    hdr_n (disk s' 1 (log_start s)) = 0 \<and> dirty_blks s' = {} \<and> locked_blks s' = {} \<and> bgood i s' \<and>
    (\<forall>n. \<not> in_log (log_start s) len n \<longrightarrow> disk s' 1 n = content s n)"
proof -
  let ?s = "s\<lparr>log_outstanding := 0, log_committing := True\<rparr>"
  have tr: "transaction i len homes ?s" using assms(1) by (simp add: transaction_def pending_def quiet_def)
  obtain u where u: "commit ?s = Ok () u" "quiet i u" "rest u = rest (?s\<lparr>lh_n := 0\<rparr>)" "dirty_blks u = {}"
    and du: "\<And>n. \<not> in_log (log_start ?s) len n \<Longrightarrow> disk u 1 n = content ?s n" and erased: "hdr_n (disk u 1 (log_start ?s)) = 0"
    by (rule transaction_commit [OF tr]) (rule that)
  have cs: "calm s" "held s = []" using assms(1) by (auto simp: transaction_def pending_def quiet_def bgood_def run_ok_def)
  have cu: "calm u" "held u = []" using u(2) by (auto simp: quiet_def bgood_def run_ok_def)
  have ou: "log_outstanding u = 0" "lh_n u = 0"
    using arg_cong [OF u(3), of log_outstanding] rest_log(1) [OF u(3)] by (simp_all add: rest_def)
  let ?u = "wakeup1 Ch_log (u\<lparr>log_committing := False\<rparr>)"
  have "calm (enter L_log (u\<lparr>log_committing := False\<rparr>))" using cu by (simp add: calm_enter enter_simps)
  then have "end_op s = Ok () ?u"
    using cs cu u(1) assms(2,3)
    by (simp add: end_op_def acquire_calm enter_simps release_enter wakeup_calm held_enter Let_def)
  moreover have "log_outstanding ?u = 0" "\<not> log_committing ?u" "lh_n ?u = 0" "dirty_blks ?u = dirty_blks u" "disk ?u = disk u"
    using ou by (simp_all add: wakeup1_def dirty_blks_def)
  moreover have "locked_blks ?u = locked_blks u" "bio_inv ?u = bio_inv u" by (simp_all add: wakeup1_def locked_blks_def bio_inv_def disk_ok_def)
  moreover have "run_ok i ?u" using u(2) run_ok_wakeup1 [of i "u\<lparr>log_committing := False\<rparr>" Ch_log] by (simp add: quiet_def bgood_def run_ok_def calm_def cli_wf_def)
  ultimately show ?thesis using u(2,4) du erased by (auto simp: quiet_def bgood_def)
qed

theorem end_op_commits_witness:
  "\<exists>s'. end_op ((pinned 100 sevens (log_example 1))\<lparr>log_outstanding := 1, log_committing := False\<rparr>) = Ok () s' \<and>
     disk s' 1 100 = sevens"
proof -
  let ?p = "pinned 100 sevens (log_example 1)"
  let ?s = "?p\<lparr>log_outstanding := 1, log_committing := False\<rparr>"
  have v: "length sevens = BSIZE" by simp
  have "content ?p = (disk (log_example 1) 1)(100 := sevens)" by (rule pinned_facts [OF log_example_base(1-3) v])
  then have c: "content ?s 100 = sevens" by simp
  have "log_start ?p = 2" by (simp add: pinned_def upd_buf_def binit_eq initlock_def log_example_def bio_st.defs)
  then have out: "\<not> in_log (log_start ?s) 30 100" by (simp add: in_log_def)
  have "transaction 0 30 [100] ?s" using log_example_transaction by (simp add: transaction_def pending_def quiet_def)
  from end_op_commits [OF this] out c show ?thesis by fastforce
qed

end
