(* ===== verification/Xv6_Machine.thy ===== *)
theory Xv6_Machine
  imports Xv6_Trap Xv6_Logops
begin

text \<open>
  A machine that has booted: one process runs, nothing is open, the disk holds zeroes and the
  log is empty.  The examples of the later theories start from it.
\<close>

definition inode_zero :: inode where
  "inode_zero = \<lparr>i_dev = 0, i_inum = 0, i_ref = 0, i_lock = \<lparr>sl_locked = False, sl_pid = 0\<rparr>, i_valid = False, i_type = 0,
     i_major = 0, i_minor = 0, i_nlink = 0, i_size = 0, i_addrs = replicate 13 0\<rparr>"

definition fs_example :: fs_st where
  "fs_example = log_st.extend (log_example 0) \<lparr>sb = \<lparr>sb_size = 1000, sb_nblocks = 941, sb_ninodes = 200, sb_nlog = 30,
     sb_logstart = 2, sb_inodestart = 32, sb_bmapstart = 58\<rparr>, inodes = replicate 50 inode_zero\<rparr>"

definition cons_example :: cons_st where
  "cons_example = fs_st.extend fs_example \<lparr>panicked = False, cons_locking = True, crt = replicate 2000 0x0700, crt_pos = 0,
     uart_present = True, uart_out = [], in_buf = replicate 128 0, in_r = 0, in_w = 0, in_e = 0, devsw_read = [], devsw_write = []\<rparr>"

definition file_example :: file_st where
  "file_example = cons_st.extend cons_example \<lparr>ftable = replicate 100 \<lparr>f_type = FD_NONE, f_ref = 0, f_readable = False,
     f_writable = False, f_pipe = 0, f_ip = 0, f_off = 0\<rparr>,
     pipes = (\<lambda>_. \<lparr>pp_data = replicate 512 0, pp_nread = 0, pp_nwrite = 0, pp_readopen = True, pp_writeopen = True\<rparr>)\<rparr>"

definition machine :: kernel where
  "machine = file_st.extend file_example \<lparr>forkret_first = False, idt = []\<rparr>"

lemmas machine_defs = machine_def file_example_def cons_example_def fs_example_def log_example_def bio_boot_def proc_example_def
  file_st.defs cons_st.defs fs_st.defs log_st.defs bio_st.defs proc_st.defs

lemma machine_run [simp]: "run_ok 0 machine" "run_ok 0 file_example" "run_ok 0 cons_example" "run_ok 0 fs_example"
  by (simp_all add: machine_defs run_ok_def calm_def cli_wf_def)

end
