(* ===== verification/Xv6_Lazy.thy ===== *)
theory Xv6_Lazy
  imports Xv6_Paging Xv6_Machine
begin

text \<open>
  Lazy allocation: the page-fault case of \<open>trap\<close> (trap.c) on top of the page allocator and the
  page tables.
\<close>

lemma kmem_frame_proc: "kmem_frame s s' \<Longrightarrow> curp s' = curp s \<and> procs s' = procs s"
  by (cases s; cases s') (simp add: kmem_frame_def)

text \<open>Writing outside the pages of a table changes nothing in it.\<close>

lemma off_tables:
  assumes ok: "dir_ok d xs m" and same: "\<And>y. PGROUNDDOWN y \<in> tables m d \<Longrightarrow> m' y = m y"
  shows "dir_ok d xs m'" "tables m' d = tables m d" "entry m' d = entry m d"
proof -
  have d: "page_aligned d" "d \<in> tables m d" using dir_okD(1) [OF ok] by (simp_all add: tables_def)
  have tabs: "tab m' d i = tab m d i" if "unat i < 1024" for i
    using ld32_slot_frame [OF d(1) that, of m' m] same d(2) by (simp add: tab_def)
  show "dir_ok d xs m'" by (rule dir_ok_tab [OF ok tabs]) auto
  show "tables m' d = tables m d" by (rule tables_cong [OF tabs])
  show "entry m' d = entry m d"
  proof
    fix a
    show "entry m' d a = entry m d a"
    proof (cases "tab m d (PDX a)")
      case (Some t)
      have "ld32 m' (t + 4 * PTX a) = ld32 m (t + 4 * PTX a)"
        using tablesI [OF Some] same by (intro ld32_slot_frame [OF tab_aligned [OF Some] PTX_less]) auto
      then show ?thesis using Some tabs [OF PDX_less, of a] by (simp add: entry_def)
    qed (use tabs [OF PDX_less, of a] in \<open>simp add: entry_def\<close>)
  qed
qed

text \<open>The handler's first half: a page is taken and cleared.\<close>

lemma take_zero_page:
  assumes inv: "vm_inv d (p # xs) s"
  obtains s1 where "kalloc s = Ok p s1" "vm_inv d xs (s1\<lparr>mem := memset (mem s1) p 0 PGSIZE\<rparr>)" "kmem_frame s s1" "mem s1 = mem s"
    "tables (memset (mem s) p 0 PGSIZE) d = tables (mem s) d" "entry (memset (mem s) p 0 PGSIZE) d = entry (mem s) d"
    "page_aligned p" "phys_page s p" "p \<notin> set xs" "p \<noteq> 0" "p \<notin> tables (mem s) d"
proof -
  have k: "kmem_inv (p # xs) s" and ok: "dir_ok d (p # xs) (mem s)" using inv by (simp_all add: vm_inv_def)
  have p: "page_aligned p" "phys_page s p" "p \<notin> set xs" "p \<noteq> 0" "p \<notin> tables (mem s) d"
    using k dir_ok_disjoint [OF ok] phys_page_nonzero by (auto simp: kmem_inv_def phys_page_def)
  obtain s1 where s1: "kalloc s = Ok p s1" "kmem_inv xs s1" "kmem_frame s s1" "mem s1 = mem s"
    using kalloc_pops [OF k] by blast
  let ?m = "memset (mem s) p 0 PGSIZE"
  have ok': "dir_ok d xs (mem s)" using dir_ok_disjoint [OF ok] by (intro dir_ok_free [OF ok]) auto
  have same: "?m y = mem s y" if "PGROUNDDOWN y \<in> tables (mem s) d" for y using that p(5) memset_page [OF p(1)] by auto
  note t = off_tables [where m' = ?m, OF ok' same]
  have "kmem_inv xs (s1\<lparr>mem := ?m\<rparr>)" using p(3) memset_page [OF p(1)] s1(4) by (intro kmem_inv_frame [OF s1(2)]) auto
  then have "vm_inv d xs (s1\<lparr>mem := memset (mem s1) p 0 PGSIZE\<rparr>)" using t(1) s1(4) by (simp add: vm_inv_def)
  with s1 t(2,3) p show thesis by (intro that)
qed

text \<open>Its second half: the page is mapped, or given back.\<close>

lemma fresh_address:
  assumes "page_aligned p" "entry m d v = (V2P p + (PGROUNDDOWN v - PGROUNDDOWN va)) OR (PTE_W OR PTE_U) OR PTE_P"
    "PGROUNDDOWN v = PGROUNDDOWN va"
  shows "mmu d m v = Some (p + (v AND 0xFFF))"
proof -
  have "mmu d m v = Some (P2V (V2P p + (v - PGROUNDDOWN va)))"
    by (rule mapped_address [OF assms(2)]) (simp_all add: kernel_offset_aligned assms(1))
  moreover have "v - PGROUNDDOWN va = v AND 0xFFF" using page_offset [of v] assms(3) by (metis add_diff_cancel_left')
  ultimately show ?thesis by (simp add: P2V_def V2P_def)
qed

lemma give_back:
  assumes "vm_inv d xs s" "p \<notin> tables (mem s) d" "phys_page s p" "p \<notin> set xs"
  obtains s' where "kfree p s = Ok () s'" "vm_inv d (p # xs) s'" "kmem_frame s s'" "mmu d (mem s') = mmu d (mem s)"
proof -
  have k: "kmem_inv xs s" and ok: "dir_ok d xs (mem s)" using assms(1) by (simp_all add: vm_inv_def)
  obtain s' where s': "kfree p s = Ok () s'" "kmem_inv (p # xs) s'" "kmem_frame s s'" "\<forall>y. PGROUNDDOWN y \<noteq> p \<longrightarrow> mem s' y = mem s y"
    using kfree_pushes [OF k assms(3,4)] by blast
  have "mem s' y = mem s y" if "PGROUNDDOWN y \<in> tables (mem s) d" for y using that s'(4) assms(2) by metis
  note t = off_tables [where m' = "mem s'", OF ok this]
  have "dir_ok d (p # xs) (mem s')"
    using dir_ok_disjoint [OF t(1)] t(2) assms(2) by (intro dir_ok_free [OF t(1)]) auto
  moreover have "mmu d (mem s') = mmu d (mem s)" using t(3) by (simp add: fun_eq_iff mmu_entry)
  ultimately show thesis using s'(1-3) by (intro that [of s']) (simp_all add: vm_inv_def)
qed

text \<open>
  C19: a page fault on an address that is not mapped takes the first free page, clears it and maps
  it there; every other address keeps its translation, so a program sees fresh zeroes on the page and its other
  memory unchanged.  Only if that page was the last one and the table needed another does
  the handler give up; it then returns the page to the free list and the mapping is as before.  No page is lost.
\<close>

theorem pgflt_maps_zero_page:
  assumes inv: "vm_inv d (p # xs) s" and i: "curp s = Some i" "p_pgdir (procs s ! i) = d" and va: "mmu d (mem s) va = None"
  shows "\<exists>added s' ys. pgflt va s = Ok added s' \<and> vm_inv d ys s' \<and> kmem_frame s s' \<and>
    (added \<and> (\<forall>v. mmu d (mem s') v = (if PGROUNDDOWN v = PGROUNDDOWN va then Some (p + (v AND 0xFFF)) else mmu d (mem s) v)) \<and>
       (\<forall>y. PGROUNDDOWN y = p \<longrightarrow> mem s' y = 0) \<and> insert p (set ys \<union> tables (mem s') d) = set (p # xs) \<union> tables (mem s) d \<or>
     \<not> added \<and> xs = [] \<and> ys = [p] \<and> mmu d (mem s') = mmu d (mem s))"
proof -
  obtain s1 where s1: "kalloc s = Ok p s1" "vm_inv d xs (s1\<lparr>mem := memset (mem s1) p 0 PGSIZE\<rparr>)" "kmem_frame s s1" "mem s1 = mem s"
    and t: "tables (memset (mem s) p 0 PGSIZE) d = tables (mem s) d" "entry (memset (mem s) p 0 PGSIZE) d = entry (mem s) d"
    and p: "page_aligned p" "phys_page s p" "p \<notin> set xs" "p \<noteq> 0" "p \<notin> tables (mem s) d"
    using take_zero_page [OF inv] by blast
  let ?a = "PGROUNDDOWN va" and ?s2 = "s1\<lparr>mem := memset (mem s) p 0 PGSIZE\<rparr>"
  have al: "page_aligned ?a" by simp
  have t2: "entry (mem ?s2) d v = entry (mem s) d v" for v using t(2) by simp
  have one: "PGROUNDDOWN ?a = ?a" "pages ?a PGSIZE = 1" by (simp_all add: pgrounddown_same pages_one)
  have none: "\<forall>v. run_of (PGROUNDDOWN ?a) (pages ?a PGSIZE) v \<longrightarrow> mmu d (mem ?s2) v = None"
    unfolding one run_of_first [OF al, symmetric]
  proof (intro allI impI)
    fix v assume "PGROUNDDOWN v = ?a"
    from entry_page [OF this] show "mmu d (mem ?s2) v = None" using va t(2) by (simp add: mmu_None_iff)
  qed
  have room: "unat ?a + unat PGSIZE \<le> 2 ^ 32" using page_aligned_room [of ?a] by simp
  have cur: "curp s1 = Some i" "p_pgdir (procs s1 ! i) = d" using kmem_frame_proc [OF s1(3)] i by simp_all
  obtain r s3 ys n where m: "mappages d ?a PGSIZE (V2P p) (PTE_W OR PTE_U) ?s2 = Ok r s3" "vm_step d xs ?s2 ys s3" and
    e: "\<And>v. entry (mem s3) d v = (if run_of ?a n v then (V2P p + (PGROUNDDOWN v - ?a)) OR (PTE_W OR PTE_U) OR PTE_P else entry (mem s) d v)" and
    r: "r = 0 \<and> n = 1 \<or> r = - 1 \<and> n < 1 \<and> ys = [] \<and> length xs \<le> n"
    by (rule mappages_entries [OF s1(2) [unfolded s1(4)] _ room none, of "V2P p" "PTE_W OR PTE_U"], simp, unfold one t2, blast)
  note step = vm_stepD [OF m(2)]
  have frame: "kmem_frame s s3" using kmem_frame_trans [OF kmem_frame_mem [OF s1(3)] step(2)] .
  have own: "set ys \<union> tables (mem s3) d = set xs \<union> tables (mem s) d" using step(4) t(1) by simp
  from r show ?thesis
  proof
    assume r0: "r = 0 \<and> n = 1"
    have "mmu d (mem s3) v = (if PGROUNDDOWN v = ?a then Some (p + (v AND 0xFFF)) else mmu d (mem s) v)" for v
    proof (cases "PGROUNDDOWN v = ?a")
      case True
      then show ?thesis using fresh_address [OF p(1) _ True] e [of v] r0 run_of_first [OF al, of v] by simp
    qed (use e [of v] r0 run_of_first [OF al, of v] in \<open>simp add: mmu_entry\<close>)
    moreover have "mem s3 y = 0" if "PGROUNDDOWN y = p" for y
      using step(5) [of y] that p t(1) memset_page [OF p(1)] by simp
    moreover have "pgflt va s = Ok True s3" using s1(1,4) p(4) cur m(1) r0 by (simp add: pgflt_def)
    moreover have "insert p (set ys \<union> tables (mem s3) d) = set (p # xs) \<union> tables (mem s) d" using own by simp
    ultimately show ?thesis using step(1) frame by (intro exI [of _ True] exI [of _ s3] exI [of _ ys]) auto
  next
    assume r1: "r = - 1 \<and> n < 1 \<and> ys = [] \<and> length xs \<le> n"
    have inv3: "vm_inv d [] s3" and off: "p \<notin> tables (mem s3) d" using step(1) own r1 p(5) by auto
    obtain s4 where s4: "kfree p s3 = Ok () s4" "vm_inv d [p] s4" "kmem_frame s3 s4" "mmu d (mem s4) = mmu d (mem s3)"
      using give_back [OF inv3 off] kmem_frame_phys [OF frame] p(2) by auto
    moreover have "pgflt va s = Ok False s4" using s1(1,4) p(4) cur m(1) r1 s4(1) by (simp add: pgflt_def)
    moreover have "mmu d (mem s3) = mmu d (mem s)" using e r1 by (simp add: fun_eq_iff mmu_entry)
    ultimately show ?thesis using kmem_frame_trans [OF frame s4(3)] r1 by auto
  qed
qed

text \<open>A running process with an empty table, and two free pages.\<close>

definition lazy_example :: "memory \<Rightarrow> file_st" where
  "lazy_example m = file_example\<lparr>mem := m, freelist := 0x80200000, procs := [proc_zero\<lparr>p_pgdir := 0x80300000\<rparr>]\<rparr>"

definition two_free :: memory where
  "two_free = st32 (\<lambda>_. 0) 0x80200000 0x80201000"

lemma lazy_example_simps [simp]:
  "mem (lazy_example m) = m" "curp (lazy_example m) = Some 0" "p_pgdir (procs (lazy_example m) ! 0) = 0x80300000"
  "lazy_example m\<lparr>mem := m'\<rparr> = lazy_example m'"
  by (simp_all add: lazy_example_def machine_defs)

lemma two_free_zero: "PGROUNDDOWN y \<noteq> 0x80200000 \<Longrightarrow> two_free y = 0"
  unfolding two_free_def using st32_outside [of "0x80200000" 0 y] by (simp add: page_aligned_def)

lemma lazy_example_inv:
  "kmem_inv [0x80200000, 0x80201000] (lazy_example two_free)" "dir_ok 0x80300000 [0x80200000, 0x80201000] two_free"
  "mmu 0x80300000 two_free v = None"
proof -
  have l: "ld32 two_free 0x80200000 = 0x80201000" by (simp add: two_free_def)
  have "ld32 two_free 0x80201000 = 0"
    using ld32_zero [of "0x80201000" 0 two_free] two_free_zero by (simp add: page_aligned_def)
  with l show "kmem_inv [0x80200000, 0x80201000] (lazy_example two_free)"
    by (simp add: lazy_example_def machine_defs kmem_inv_def kmem_lock_ok_def cli_wf_def phys_page_def page_aligned_def V2P_def)
  have d: "page_aligned 0x80300000" by (simp add: page_aligned_def)
  have z: "PGROUNDDOWN y = 0x80300000 \<Longrightarrow> two_free y = 0" for y using two_free_zero [of y] by simp
  show "dir_ok 0x80300000 [0x80200000, 0x80201000] two_free" "mmu 0x80300000 two_free v = None"
    using zero_dir [OF d z] by simp_all
qed

theorem pgflt_maps_zero_page_witness:
  "\<exists>s'. pgflt 0x4321 (lazy_example two_free) = Ok True s' \<and> mmu 0x80300000 (mem s') 0x4001 = Some 0x80200001 \<and> mem s' 0x80200001 = 0"
proof -
  have inv: "vm_inv 0x80300000 [0x80200000, 0x80201000] (lazy_example two_free)" using lazy_example_inv by (simp add: vm_inv_def)
  have m: "mmu 0x80300000 (mem (lazy_example two_free)) 0x4321 = None" using lazy_example_inv(3) by simp
  have "PGROUNDDOWN 0x4001 = PGROUNDDOWN 0x4321" "PGROUNDDOWN 0x80200001 = 0x80200000" by (simp_all add: PGROUNDDOWN_def)
  with pgflt_maps_zero_page [OF inv lazy_example_simps(2,3) m] show ?thesis by auto
qed

text \<open>
  C39: a fault on a page that is present panics the kernel.  Such faults are the protection faults of
  user code: a store to kernel memory, which every page table maps, or a stack that grows
  into the guard page below it.
\<close>

theorem pgflt_present_panics:
  assumes inv: "vm_inv d (p # xs) s" and i: "curp s = Some i" "p_pgdir (procs s ! i) = d" and va: "mmu d (mem s) va = Some ka"
  shows "pgflt va s = Panic ''remap''"
proof -
  obtain s1 where s1: "kalloc s = Ok p s1" "kmem_frame s s1" "mem s1 = mem s" and
    ok: "vm_inv d xs (s1\<lparr>mem := memset (mem s1) p 0 PGSIZE\<rparr>)" and t: "entry (memset (mem s) p 0 PGSIZE) d = entry (mem s) d" and p: "p \<noteq> 0"
    using take_zero_page [OF inv] by blast
  let ?m = "memset (mem s) p 0 PGSIZE" and ?a = "PGROUNDDOWN va"
  have a: "PGROUNDDOWN ?a = ?a" "PGROUNDDOWN (?a + PGSIZE - 1) = ?a" by (simp_all only: pgrounddown_same last_in_page page_aligned_pgrounddown)
  have "entry ?m d ?a AND PTE_P \<noteq> 0" using va mmu_None_iff [of d "mem s" va] entry_page [OF a(1)] t by simp
  then obtain u where u: "tab ?m d (PDX ?a) = Some u" "ld32 ?m (u + 4 * PTX ?a) AND PTE_P \<noteq> 0" "u + 4 * PTX ?a \<noteq> 0"
    using slot_nonzero [of d xs ?m ?a] ok s1(3) by (auto simp: entry_def vm_inv_def split: option.splits)
  have "walkpgdir d ?a True (s1\<lparr>mem := ?m\<rparr>) = Ok (u + 4 * PTX ?a) (s1\<lparr>mem := ?m\<rparr>)"
    using u(1) by (auto simp: walkpgdir_def tab_def Let_def split: if_splits)
  moreover have "all_pages = Suc 1048575" by simp
  ultimately have "mappages d ?a PGSIZE (V2P p) (PTE_W OR PTE_U) (s1\<lparr>mem := ?m\<rparr>) = Panic ''remap''"
    using u(2,3) unfolding mappages_def Let_def a \<open>all_pages = Suc 1048575\<close> mappages_loop.simps by simp
  moreover have "curp s1 = Some i" "p_pgdir (procs s1 ! i) = d" using kmem_frame_proc [OF s1(2)] i by simp_all
  ultimately show ?thesis using s1 p by (simp add: pgflt_def)
qed

definition guard_page :: memory where
  "guard_page = st32 (st32 (memset two_free 0x80301000 0 PGSIZE) (0x80300000 + 4 * PDX 0) (V2P 0x80301000 OR PTE_P OR PTE_W OR PTE_U))
     (0x80301000 + 4 * PTX 0) (0x400000 OR PTE_W OR PTE_P)"

theorem pgflt_present_panics_witness:
  "pgflt 0 (lazy_example guard_page) = Panic ''remap''"
proof -
  let ?m = "st32 (memset two_free 0x80301000 0 PGSIZE) (0x80300000 + 4 * PDX 0) (V2P 0x80301000 OR PTE_P OR PTE_W OR PTE_U)"
  let ?xs = "[0x80200000, 0x80201000] :: addr list"
  have d: "page_aligned 0x80300000" "page_aligned 0x80301000" by (simp_all add: page_aligned_def)
  have z: "PGROUNDDOWN y = 0x80300000 \<Longrightarrow> two_free y = 0" for y using two_free_zero [of y] by simp
  have zero: "tables two_free 0x80300000 = {0x80300000}" using zero_dir(2) [OF d(1) z] by simp
  have none: "tab two_free 0x80300000 (PDX 0) = None" using ld32_zero [OF d(1) PDX_less [of 0] z] by (simp add: tab_def)
  have ok: "dir_ok 0x80300000 (0x80301000 # ?xs) two_free" using zero_dir(1) [OF d(1) z] by simp
  have t: "dir_ok 0x80300000 ?xs ?m" "tab ?m 0x80300000 (PDX 0) = Some 0x80301000"
    and out: "tables ?m 0x80300000 = {0x80301000, 0x80300000}"
      "\<And>y. PGROUNDDOWN y \<notin> {0x80301000, 0x80300000} \<Longrightarrow> ?m y = two_free y"
    using add_table [OF ok d(2) _ _ PDX_less none refl] unfolding zero by simp_all
  note g = set_entry [OF t guard_page_def]
  have "guard_page y = two_free y" if "PGROUNDDOWN y \<in> set ?xs" for y using that g(4) [of y] out(2) [of y] unfolding out(1) by auto
  then have "kmem_inv ?xs (lazy_example guard_page)" using kmem_inv_frame [OF lazy_example_inv(1), of guard_page] by simp
  then have inv: "vm_inv 0x80300000 ?xs (lazy_example guard_page)" using g(1) by (simp add: vm_inv_def)
  have "entry guard_page 0x80300000 0 = 0x400000 OR PTE_W OR PTE_P" using g(2) [of 0] by simp
  then have "mmu 0x80300000 (mem (lazy_example guard_page)) 0 = Some 0x80400000" by (simp add: mmu_entry PTE_ADDR_def P2V_def)
  from pgflt_present_panics [OF inv lazy_example_simps(2,3) this] show ?thesis .
qed

end
