(* ===== verification/Xv6_Pipe.thy ===== *)
theory Xv6_Pipe
  imports Xv6_Machine
begin

text \<open>
  Pipes as bounded queues: the ring of \<open>PIPESIZE\<close> bytes with its two free-running 32-bit counters
  behaves as a queue of at most \<open>PIPESIZE\<close> bytes, also when the counters wrap; \<open>pipewrite\<close> appends
  and \<open>piperead\<close> removes at the other end.
\<close>

subsection \<open>Interface: a bounded queue\<close>

locale bounded_queue =
  fixes q :: "'s \<Rightarrow> 'a list" and good :: "'s \<Rightarrow> bool" and cap :: nat
    and put :: "'a \<Rightarrow> 's \<Rightarrow> 's" and full :: "'s \<Rightarrow> bool"
    and front :: "'s \<Rightarrow> 'a" and get :: "'s \<Rightarrow> 's" and empty :: "'s \<Rightarrow> bool"
  assumes full_law: "good s \<Longrightarrow> full s \<longleftrightarrow> length (q s) = cap"
    and empty_law: "good s \<Longrightarrow> empty s \<longleftrightarrow> q s = []"
    and put_law: "good s \<Longrightarrow> \<not> full s \<Longrightarrow> good (put x s) \<and> q (put x s) = q s @ [x]"
    and get_law: "good s \<Longrightarrow> \<not> empty s \<Longrightarrow> good (get s) \<and> q s = front s # q (get s)"
    and cap_law: "good s \<Longrightarrow> length (q s) \<le> cap"
begin

text \<open>Adding elements until the queue is full, and taking elements until it is empty.\<close>

fun fill :: "'a list \<Rightarrow> 's \<Rightarrow> 'a list \<times> 's" where
  "fill [] s = ([], s)"
| "fill (x # xs) s = (if full s then (x # xs, s) else fill xs (put x s))"

fun drain :: "nat \<Rightarrow> 's \<Rightarrow> 'a list \<times> 's" where
  "drain 0 s = ([], s)"
| "drain (Suc n) s = (if empty s then ([], s) else let (xs, t) = drain n (get s) in (front s # xs, t))"

lemma fill_queue:
  "good s \<Longrightarrow> good (snd (fill xs s)) \<and> fst (fill xs s) = drop (cap - length (q s)) xs \<and>
    q (snd (fill xs s)) = q s @ take (cap - length (q s)) xs"
proof (induction xs arbitrary: s)
  case (Cons x xs)
  show ?case
  proof (cases "full s")
    case True
    with Cons.prems show ?thesis by (simp add: full_law)
  next
    case False
    have p: "good (put x s)" "q (put x s) = q s @ [x]" using put_law [OF Cons.prems False] by auto
    have "length (q s) < cap" using full_law [OF Cons.prems] cap_law [OF Cons.prems] False by linarith
    then obtain k where k: "cap - length (q s) = Suc k" "cap - length (q (put x s)) = k"
      using p(2) by (cases "cap - length (q s)") auto
    from Cons.IH [OF p(1)] k p(2) False show ?thesis by simp
  qed
qed simp

lemma drain_queue:
  "good s \<Longrightarrow> good (snd (drain n s)) \<and> fst (drain n s) = take n (q s) \<and> q (snd (drain n s)) = drop n (q s)"
proof (induction n arbitrary: s)
  case (Suc n)
  show ?case
  proof (cases "empty s")
    case True
    with Suc.prems show ?thesis by (simp add: empty_law)
  next
    case False
    with get_law [OF Suc.prems] Suc.IH [of "get s"] show ?thesis by (simp add: case_prod_beta)
  qed
qed simp

end

subsection \<open>The ring\<close>

definition pipe_used :: "pipe \<Rightarrow> nat" where
  "pipe_used x = unat (pp_nwrite x - pp_nread x)"

definition pipe_wf :: "pipe \<Rightarrow> bool" where
  "pipe_wf x \<longleftrightarrow> length (pp_data x) = 512 \<and> pipe_used x \<le> 512"

text \<open>The bytes in the pipe, oldest first.\<close>

definition pipe_bytes :: "pipe \<Rightarrow> byte list" where
  "pipe_bytes x = map (\<lambda>k. pp_data x ! ((unat (pp_nread x) + k) mod 512)) [0..<pipe_used x]"

lemma mod_mod_512: "(n mod 4294967296) mod 512 = n mod (512 :: nat)"
  by (rule mod_mod_cancel) simp

lemma ring_index: "unat ((r + of_nat k) mod PIPESIZE) = (unat r + k) mod 512"
  by (simp add: unat_mod unat_word_ariths unsigned_of_nat take_bit_eq_mod mod_mod_512 mod_simps)

lemma nwrite_eq: "pp_nwrite x = pp_nread x + of_nat (pipe_used x)"
  by (simp add: pipe_used_def)

lemma pipe_full_iff: "pipe_wf x \<Longrightarrow> pipe_full x \<longleftrightarrow> pipe_used x = 512"
proof -
  assume "pipe_wf x"
  have "pipe_full x \<longleftrightarrow> of_nat (pipe_used x) = PIPESIZE" unfolding pipe_full_def nwrite_eq by simp
  also have "\<dots> \<longleftrightarrow> unat (of_nat (pipe_used x) :: uint) = unat PIPESIZE" by (simp only: word_unat_eq_iff)
  also have "\<dots> \<longleftrightarrow> pipe_used x = 512" using \<open>pipe_wf x\<close> by (simp add: pipe_wf_def)
  finally show ?thesis .
qed

lemma pipe_empty_iff: "pp_nread x = pp_nwrite x \<longleftrightarrow> pipe_used x = 0"
  by (auto simp: pipe_used_def unat_eq_0)

lemma pipe_used_put:
  assumes "pipe_wf x" "\<not> pipe_full x"
  shows "pipe_used (pipe_put b x) = Suc (pipe_used x)" "pipe_used x < 512"
proof -
  show s: "pipe_used x < 512" using assms pipe_full_iff [OF assms(1)] by (auto simp: pipe_wf_def)
  have "pp_nwrite x + 1 - pp_nread x = of_nat (Suc (pipe_used x))"
    by (simp add: nwrite_eq [of x] algebra_simps del: of_nat_numeral)
  then have "unat (pp_nwrite x + 1 - pp_nread x) = Suc (pipe_used x)" using s by (simp del: of_nat_Suc)
  then show "pipe_used (pipe_put b x) = Suc (pipe_used x)" unfolding pipe_used_def pipe_put_def by simp
qed

lemma pipe_used_get:
  assumes "pp_nread x \<noteq> pp_nwrite x"
  shows "pipe_used x = Suc (pipe_used (pipe_get x))"
proof -
  have "pp_nwrite x - pp_nread x \<noteq> 0" using assms by simp
  then have "unat (pp_nwrite x - pp_nread x) = Suc (unat (pp_nwrite x - pp_nread x - 1))"
    by (simp add: unat_minus_one unat_gt_0)
  then show ?thesis by (simp add: pipe_used_def pipe_get_def diff_diff_eq)
qed

lemma pipe_put_bytes:
  assumes "pipe_wf x" "\<not> pipe_full x"
  shows "pipe_wf (pipe_put b x) \<and> pipe_bytes (pipe_put b x) = pipe_bytes x @ [b]"
proof -
  note U = pipe_used_put(1) [OF assms, of b] pipe_used_put(2) [OF assms]
  let ?r = "unat (pp_nread x)" and ?n = "pipe_used x"
  have len: "length (pp_data x) = 512" using assms(1) by (simp add: pipe_wf_def)
  have i: "unat (pp_nwrite x mod PIPESIZE) = (?r + ?n) mod 512" unfolding nwrite_eq by (rule ring_index)
  then have data: "pp_data (pipe_put b x) = (pp_data x)[(?r + ?n) mod 512 := b]" "pp_nread (pipe_put b x) = pp_nread x"
    by (simp_all add: pipe_put_def)
  have ne: "(?r + k) mod 512 \<noteq> (?r + ?n) mod 512" if "k < ?n" for k
  proof
    assume "(?r + k) mod 512 = (?r + ?n) mod 512"
    then have "512 dvd ?n - k" using that mod_eq_dvd_iff_nat [of "?r + k" "?r + ?n" 512] by simp
    with that U(2) show False by (auto dest: dvd_imp_le)
  qed
  have "map (\<lambda>k. pp_data (pipe_put b x) ! ((?r + k) mod 512)) [0..<?n] = pipe_bytes x"
    unfolding pipe_bytes_def data(1) by (rule map_cong [OF refl], rule nth_list_update_neq) (use ne in force)
  moreover have "pp_data (pipe_put b x) ! ((?r + ?n) mod 512) = b" using len by (simp add: data(1))
  ultimately have "pipe_bytes (pipe_put b x) = pipe_bytes x @ [b]"
    by (simp add: pipe_bytes_def [of "pipe_put b x"] U(1) data(2))
  moreover have "pipe_wf (pipe_put b x)" using U len by (simp add: pipe_wf_def data(1))
  ultimately show ?thesis by blast
qed

lemma pipe_get_bytes:
  assumes "pipe_wf x" "pp_nread x \<noteq> pp_nwrite x"
  shows "pipe_wf (pipe_get x) \<and> pipe_bytes x = pipe_head x # pipe_bytes (pipe_get x)"
proof -
  note U = pipe_used_get [OF assms(2)]
  have r: "pp_data (pipe_get x) = pp_data x" "(unat (pp_nread (pipe_get x)) + k) mod 512 = (unat (pp_nread x) + Suc k) mod 512" for k
    using ring_index [of "pp_nread x" "Suc k"] ring_index [of "pp_nread x + 1" k] by (simp_all add: pipe_get_def ac_simps)
  have "pipe_head x = pp_data x ! (unat (pp_nread x) mod 512)"
    using ring_index [of "pp_nread x" 0] by (simp add: pipe_head_def)
  then have "pipe_bytes x = pipe_head x # pipe_bytes (pipe_get x)"
    by (simp add: pipe_bytes_def U map_upt_Suc r del: upt_Suc)
  moreover have "pipe_wf (pipe_get x)" using assms(1) U by (simp add: pipe_wf_def pipe_get_def)
  ultimately show ?thesis by blast
qed

interpretation ring: bounded_queue pipe_bytes pipe_wf 512 pipe_put pipe_full pipe_head pipe_get "\<lambda>x. pp_nread x = pp_nwrite x"
proof unfold_locales
  fix s b
  show "pipe_wf s \<Longrightarrow> pipe_full s \<longleftrightarrow> length (pipe_bytes s) = 512" by (simp add: pipe_full_iff pipe_bytes_def)
  show "pipe_wf s \<Longrightarrow> pp_nread s = pp_nwrite s \<longleftrightarrow> pipe_bytes s = []" by (simp add: pipe_empty_iff pipe_bytes_def)
  show "pipe_wf s \<Longrightarrow> \<not> pipe_full s \<Longrightarrow> pipe_wf (pipe_put b s) \<and> pipe_bytes (pipe_put b s) = pipe_bytes s @ [b]"
    by (rule pipe_put_bytes)
  show "pipe_wf s \<Longrightarrow> pp_nread s \<noteq> pp_nwrite s \<Longrightarrow> pipe_wf (pipe_get s) \<and> pipe_bytes s = pipe_head s # pipe_bytes (pipe_get s)"
    by (rule pipe_get_bytes)
  show "pipe_wf s \<Longrightarrow> length (pipe_bytes s) \<le> 512" by (simp add: pipe_bytes_def pipe_wf_def)
qed

subsection \<open>Reading and writing\<close>

lemma pipe_enter [enter_simps]:
  "pipes (enter lk s) = pipes s" "upd_pipe p f (enter lk s) = enter lk (upd_pipe p f s)"
  "calm (upd_pipe p f s) = calm s" "held (upd_pipe p f s) = held s" "curp (upd_pipe p f s) = curp s" "procs (upd_pipe p f s) = procs s"
  "pipes (upd_pipe p f s) = (pipes s)(p := f (pipes s p))" "pipes (wakeup1 ch s) = pipes s"
  by (simp_all add: enter_def upd_pipe_def calm_def cli_wf_def wakeup1_def)

lemma run_ok_upd_pipe [simp]: "run_ok i (upd_pipe p f s) = run_ok i s"
  by (simp add: run_ok_def enter_simps)

lemma upd_pipe_twice: "upd_pipe p f (upd_pipe p g s) = upd_pipe p (\<lambda>x. f (g x)) s"
  by (simp add: upd_pipe_def)

lemma upd_pipe_const: "x = pipes s p \<Longrightarrow> upd_pipe p (\<lambda>_. x) s = s"
  by (simp add: upd_pipe_def)

text \<open>The copying loop of \<open>pipewrite\<close> fills the ring and, if bytes remain, gives up or sleeps.\<close>

lemma pipewrite_loop_fill:
  assumes run: "run_ok i s"
  shows "pipewrite_loop p bs (enter (L_pipe p) s) =
    (let r = ring.fill bs (pipes s p); t = upd_pipe p (\<lambda>_. snd r) s in
     if fst r = [] then Ok True (enter (L_pipe p) t)
     else if \<not> pp_readopen (snd r) \<or> p_killed (procs s ! i) then Ok False (enter (L_pipe p) t)
     else Sleep (Ch_nwrite p) (enter L_ptable (upd_proc i (\<lambda>q. q\<lparr>p_chan := Some (Ch_nwrite p), p_state := SLEEPING\<rparr>)
            (wakeup1 (Ch_nread p) t))))"
  using run
proof (induction bs arbitrary: s)
  case Nil
  then show ?case by (simp add: upd_pipe_const)
next
  case (Cons b bs)
  show ?case
  proof (cases "pipe_full (pipes s p)")
    case True
    have "calm (enter (L_pipe p) s)" "L_ptable \<notin> set (held (enter (L_pipe p) s))" "curp s = Some i"
      using Cons.prems by (auto simp: run_ok_def calm_enter held_enter)
    then have "wakeup (Ch_nread p) (enter (L_pipe p) s) = Ok () (enter (L_pipe p) (wakeup1 (Ch_nread p) s))" "curp s = Some i"
      by (simp_all add: wakeup_calm enter_simps)
    moreover have "run_ok i (wakeup1 (Ch_nread p) s)" using Cons.prems by (rule run_ok_wakeup1)
    ultimately show ?thesis using True
      by (simp add: enter_simps upd_pipe_const sched_sleeping Let_def)
  next
    case False
    have "run_ok i (upd_pipe p (pipe_put b) s)" using Cons.prems by simp
    from Cons.IH [OF this] False show ?thesis
      by (simp add: enter_simps upd_pipe_twice Let_def)
  qed
qed

lemma piperead_loop_drain:
  "piperead_loop p n (enter (L_pipe p) s) =
    (fst (ring.drain n (pipes s p)), enter (L_pipe p) (upd_pipe p (\<lambda>_. snd (ring.drain n (pipes s p))) s))"
proof (induction n arbitrary: s)
  case 0
  then show ?case by (simp add: upd_pipe_const)
next
  case (Suc n)
  then show ?case by (simp add: enter_simps upd_pipe_const upd_pipe_twice Let_def case_prod_beta)
qed

lemma fill_flags: "pp_readopen (snd (ring.fill bs x)) = pp_readopen x"
  by (induction bs arbitrary: x) (simp_all add: pipe_put_def)

text \<open>
  C24: \<open>pipewrite\<close> appends to the queue, in order, as many bytes as there is room for and never
  overwrites a byte that was not read.  If all fit it returns their number; otherwise the ring
  is full and it fails when the reader is gone or the writer was killed, and else wakes the
  reader and sleeps with the rest.
\<close>

theorem pipewrite_appends:
  assumes run: "run_ok i s" and wf: "pipe_wf (pipes s p)"
  defines "old \<equiv> pipe_bytes (pipes s p)"
  shows "case pipewrite p bs s of
      Ok n s' \<Rightarrow> pipe_wf (pipes s' p) \<and> pipe_bytes (pipes s' p) = old @ take (512 - length old) bs \<and>
        (n = int (length bs) \<and> length old + length bs \<le> 512 \<or>
         n = - 1 \<and> 512 < length old + length bs \<and> (\<not> pp_readopen (pipes s p) \<or> p_killed (procs s ! i)))
    | Sleep c s' \<Rightarrow> c = Ch_nwrite p \<and> pipe_wf (pipes s' p) \<and> pipe_bytes (pipes s' p) = old @ take (512 - length old) bs \<and>
        512 < length old + length bs \<and> length (pipe_bytes (pipes s' p)) = 512 \<and> pp_readopen (pipes s p) \<and> \<not> p_killed (procs s ! i)
    | Panic m \<Rightarrow> False"
proof -
  let ?r = "ring.fill bs (pipes s p)"
  let ?t = "upd_pipe p (\<lambda>_. snd ?r) s"
  have F: "pipe_wf (snd ?r)" "fst ?r = drop (512 - length old) bs" "pipe_bytes (snd ?r) = old @ take (512 - length old) bs"
    using ring.fill_queue [OF wf, of bs] by (auto simp: old_def)
  have h: "calm s" "held s = []" using run by (auto simp: run_ok_def)
  have le: "length old \<le> 512" using ring.cap_law [OF wf] by (simp add: old_def)
  have ht: "calm ?t" "held ?t = []" "pipes ?t p = snd ?r" using h by (simp_all add: enter_simps)
  have rel: "release (L_pipe p) (enter (L_pipe p) ?t) = Ok () ?t" using ht by (intro release_enter) simp_all
  have wk: "wakeup (Ch_nread p) (enter (L_pipe p) ?t) = Ok () (enter (L_pipe p) (wakeup1 (Ch_nread p) ?t))"
    using ht by (subst wakeup_calm) (simp_all add: calm_enter held_enter enter_simps)
  have rel2: "release (L_pipe p) (enter (L_pipe p) (wakeup1 (Ch_nread p) ?t)) = Ok () (wakeup1 (Ch_nread p) ?t)"
    using ht by (intro release_enter) (simp_all add: enter_simps)
  have step: "pipewrite p bs s = rbind (pipewrite_loop p bs (enter (L_pipe p) s)) (\<lambda>ok s.
      if \<not> ok then rbind (release (L_pipe p) s) (\<lambda>_ s. Ok (- 1) s)
      else rbind (wakeup (Ch_nread p) s) (\<lambda>_ s. rbind (release (L_pipe p) s) (\<lambda>_ s. Ok (int (length bs)) s)))"
    using h by (simp add: pipewrite_def acquire_calm)
  have loop: "pipewrite_loop p bs (enter (L_pipe p) s) =
    (if fst ?r = [] then Ok True (enter (L_pipe p) ?t)
     else if \<not> pp_readopen (pipes s p) \<or> p_killed (procs s ! i) then Ok False (enter (L_pipe p) ?t)
     else Sleep (Ch_nwrite p) (enter L_ptable (upd_proc i (\<lambda>q. q\<lparr>p_chan := Some (Ch_nwrite p), p_state := SLEEPING\<rparr>)
            (wakeup1 (Ch_nread p) ?t))))"
    unfolding pipewrite_loop_fill [OF run] by (simp add: Let_def fill_flags)
  have pu: "pipes (upd_proc i f u) = pipes u" for f and u :: "'a file_st_scheme" by (simp add: upd_proc_def)
  show ?thesis
  proof (cases "length bs \<le> 512 - length old")
    case True
    with F(2) have "fst ?r = []" by simp
    with step loop wk rel2 have "pipewrite p bs s = Ok (int (length bs)) (wakeup1 (Ch_nread p) ?t)" by simp
    with F True le ht show ?thesis by (simp add: enter_simps)
  next
    case False
    with F(2) have ne: "fst ?r \<noteq> []" by simp
    show ?thesis
    proof (cases "\<not> pp_readopen (pipes s p) \<or> p_killed (procs s ! i)")
      case True
      with step loop rel ne have "pipewrite p bs s = Ok (- 1) ?t" by simp
      with F False le ht True show ?thesis by auto
    next
      case alive: False
      with step loop ne F(1,3) False le show ?thesis by (simp add: enter_simps pu)
    qed
  qed
qed

text \<open>A pipe whose counters are about to wrap, with three bytes in it.\<close>

definition wrapping :: pipe where
  "wrapping = \<lparr>pp_data = (replicate 512 0)[510 := 10, 511 := 11, 0 := 12], pp_nread = 0xFFFFFFFE, pp_nwrite = 1,
     pp_readopen = True, pp_writeopen = True\<rparr>"

lemma wrapping_bytes: "pipe_wf wrapping" "pipe_bytes wrapping = [10, 11, 12]"
  by (simp_all add: wrapping_def pipe_wf_def pipe_bytes_def pipe_used_def upt_rec)

abbreviation pipe_machine :: kernel where
  "pipe_machine \<equiv> machine\<lparr>pipes := (pipes machine)(0x80200000 := wrapping)\<rparr>"

lemma pipe_machine_facts: "run_ok 0 pipe_machine" "pipes pipe_machine 0x80200000 = wrapping" "\<not> p_killed (procs pipe_machine ! 0)"
  using machine_run(1) by (simp_all add: run_ok_def calm_def cli_wf_def) (simp add: machine_defs proc_zero_def)

theorem pipewrite_appends_witness:
  "case pipewrite 0x80200000 [13, 14] pipe_machine of
     Ok n s' \<Rightarrow> n = 2 \<and> pipe_bytes (pipes s' 0x80200000) = [10, 11, 12, 13, 14] | Sleep c s' \<Rightarrow> False | Panic m \<Rightarrow> False"
  using pipewrite_appends [OF pipe_machine_facts(1), where p = "0x80200000" and bs = "[13, 14]"] wrapping_bytes pipe_machine_facts(2)
  by (auto split: res.splits)

text \<open>
  C25: \<open>piperead\<close> removes the oldest bytes of the queue, at most \<open>n\<close>, in the order in which they were
  written.  With an empty queue it sleeps while a writer exists, fails if the reader was killed,
  and reports the end of the data once every writer is gone.
\<close>

theorem piperead_takes_oldest:
  assumes run: "run_ok i s" and wf: "pipe_wf (pipes s p)"
  defines "old \<equiv> pipe_bytes (pipes s p)"
  shows "case piperead p n s of
      Ok (m, bs) s' \<Rightarrow> pipe_wf (pipes s' p) \<and> bs @ pipe_bytes (pipes s' p) = old \<and>
        (m = int (length bs) \<and> bs = take (nat n) old \<and> (old \<noteq> [] \<or> \<not> pp_writeopen (pipes s p)) \<or>
         m = - 1 \<and> bs = [] \<and> old = [] \<and> p_killed (procs s ! i))
    | Sleep c s' \<Rightarrow> c = Ch_nread p \<and> old = [] \<and> pp_writeopen (pipes s p) \<and> pipes s' p = pipes s p
    | Panic m \<Rightarrow> False"
proof -
  let ?r = "ring.drain (nat n) (pipes s p)"
  let ?t = "upd_pipe p (\<lambda>_. snd ?r) s"
  have D: "pipe_wf (snd ?r)" "fst ?r = take (nat n) old" "pipe_bytes (snd ?r) = drop (nat n) old"
    using ring.drain_queue [OF wf, of "nat n"] by (auto simp: old_def)
  have h: "calm s" "held s = []" "curp s = Some i" using run by (auto simp: run_ok_def)
  have e: "pp_nread (pipes s p) = pp_nwrite (pipes s p) \<longleftrightarrow> old = []" using ring.empty_law [OF wf] by (simp add: old_def)
  have ht: "calm ?t" "held ?t = []" "pipes ?t p = snd ?r" using h by (simp_all add: enter_simps)
  have wk: "wakeup (Ch_nwrite p) (enter (L_pipe p) ?t) = Ok () (enter (L_pipe p) (wakeup1 (Ch_nwrite p) ?t))"
    using ht by (subst wakeup_calm) (simp_all add: calm_enter held_enter enter_simps)
  have rel: "release (L_pipe p) (enter (L_pipe p) (wakeup1 (Ch_nwrite p) ?t)) = Ok () (wakeup1 (Ch_nwrite p) ?t)"
    using ht by (intro release_enter) (simp_all add: enter_simps)
  have pu: "pipes (upd_proc i f u) = pipes u" for f and u :: "'a file_st_scheme" by (simp add: upd_proc_def)
  show ?thesis
  proof (cases "old = [] \<and> pp_writeopen (pipes s p)")
    case True
    then show ?thesis using e h wf sched_sleeping [OF run, of "Ch_nread p" "L_pipe p"]
      by (simp add: piperead_def acquire_calm enter_simps release_enter sched_sleeping [OF run] pu old_def)
  next
    case False
    then have "\<not> (pp_nread (pipes s p) = pp_nwrite (pipes s p) \<and> pp_writeopen (pipes s p))" using e by blast
    then have "piperead p n s = Ok (int (length (fst ?r)), fst ?r) (wakeup1 (Ch_nwrite p) ?t)"
      using h wk rel by (auto simp: piperead_def acquire_calm enter_simps piperead_loop_drain)
    with D False ht show ?thesis by (simp add: enter_simps)
  qed
qed

theorem piperead_takes_oldest_witness:
  "case piperead 0x80200000 2 pipe_machine of
     Ok (m, bs) s' \<Rightarrow> m = 2 \<and> bs = [10, 11] \<and> pipe_bytes (pipes s' 0x80200000) = [12] | Sleep c s' \<Rightarrow> False | Panic m \<Rightarrow> False"
  using piperead_takes_oldest [OF pipe_machine_facts(1), where p = "0x80200000" and n = 2] wrapping_bytes pipe_machine_facts(2,3)
  by (auto split: res.splits)

end
