(* ===== verification/Xv6_Sched.thy ===== *)
theory Xv6_Sched
  imports Xv6_Disk
begin

text \<open>
  The process table on several CPUs (proc.c): every change of a process state happens in a
  critical section of the table lock, so the machine steps from critical section to critical
  section, each executed by some CPU.  A section that ends in a context switch ends in the
  scheduler of that CPU, which still holds the lock and clears its current process.
\<close>

subsection \<open>What leaves the process table alone\<close>

definition same_table :: "'z proc_st_scheme \<Rightarrow> 'z proc_st_scheme \<Rightarrow> bool" where
  "same_table s t \<longleftrightarrow> procs t = procs s \<and> curp t = curp s"

lemma same_table_trans: "same_table s t \<Longrightarrow> same_table t u \<Longrightarrow> same_table s u"
  by (simp add: same_table_def)

lemma no_sleep [simp]: "acquire lk s \<noteq> Sleep c t" "release lk s \<noteq> Sleep c t" "sched i p \<noteq> Sleep c q"
  by (auto simp: lock_simps sched_def Let_def split: if_splits)

lemma locks_table:
  "acquire lk s = Ok () t \<Longrightarrow> same_table s t" "release lk s = Ok () t \<Longrightarrow> same_table s t"
  by (auto simp: lock_simps same_table_def Let_def split: if_splits)

lemma kfree_table: "kfree v s = Ok () t \<Longrightarrow> same_table s t"
proof -
  assume k: "kfree v s = Ok () t"
  let ?s = "s\<lparr>mem := memset (mem s) v 1 PGSIZE\<rparr>"
  from k obtain u where u: "(if use_lock ?s then acquire L_kmem ?s else Ok () ?s) = Ok () u"
    and t: "(let u = u\<lparr>mem := st32 (mem u) v (freelist u)\<rparr>; u = u\<lparr>freelist := v\<rparr>
             in if use_lock u then release L_kmem u else Ok () u) = Ok () t"
    by (auto simp: kfree_def res_simps Let_def split: if_splits)
  have "same_table ?s u" using u locks_table(1) [of L_kmem ?s u] by (auto simp: same_table_def split: if_splits)
  moreover have "same_table u t" using t locks_table(2) [of L_kmem _ t] by (auto simp: same_table_def Let_def split: if_splits)
  ultimately show ?thesis by (simp add: same_table_def)
qed

lemma kalloc_table: "kalloc s = Ok v t \<Longrightarrow> same_table s t"
proof -
  assume k: "kalloc s = Ok v t"
  then obtain u where u: "(if use_lock s then acquire L_kmem s else Ok () s) = Ok () u"
    and t: "\<exists>w. (w = u \<or> w = u\<lparr>freelist := ld32 (mem u) (freelist u)\<rparr>) \<and> (w = t \<or> release L_kmem w = Ok () t)"
    by (auto simp: kalloc_def res_simps Let_def split: if_splits)
  have "same_table s u" using u locks_table(1) [of L_kmem s u] by (auto simp: same_table_def split: if_splits)
  moreover have "same_table u t" using t locks_table(2) [of L_kmem _ t] by (auto simp: same_table_def)
  ultimately show ?thesis by (rule same_table_trans)
qed

lemma walk_only: "walkpgdir d a False s = Ok pte t \<Longrightarrow> t = s"
  by (auto simp: walkpgdir_def Let_def split: if_splits)

lemma deallocuvm_loop_table: "deallocuvm_loop n d a sz s = Ok () t \<Longrightarrow> same_table s t"
proof (induction n d a sz s arbitrary: t rule: deallocuvm_loop.induct)
  case (1 pgdir a oldsz s)
  then show ?case by (simp add: same_table_def out_of_fuel_def split: if_splits)
next
  case (2 fuel pgdir a oldsz s)
  show ?case
  proof (cases "a < oldsz")
    case False
    with "2.prems" show ?thesis by (simp add: same_table_def)
  next
    case True
    with "2.prems" obtain pte where w: "walkpgdir pgdir a False s = Ok pte s"
      by (auto simp: res_simps dest: walk_only)
    consider "pte = 0" | "pte \<noteq> 0" "ld32 (mem s) pte AND PTE_P = 0" | "pte \<noteq> 0" "ld32 (mem s) pte AND PTE_P \<noteq> 0" by blast
    then show ?thesis
    proof cases
      case 1
      with True w "2.prems" show ?thesis using "2.IH"(1) [OF True] by simp
    next
      case 2
      with True w "2.prems" show ?thesis using "2.IH"(3) [OF True] by simp
    next
      case 3
      with True w "2.prems" obtain u where
        u: "kfree (P2V (PTE_ADDR (ld32 (mem s) pte))) s = Ok () u" "PTE_ADDR (ld32 (mem s) pte) \<noteq> 0"
          "deallocuvm_loop fuel pgdir (a + PGSIZE) oldsz (u\<lparr>mem := st32 (mem u) pte 0\<rparr>) = Ok () t"
        by (auto simp: res_simps Let_def split: if_splits)
      have "same_table (u\<lparr>mem := st32 (mem u) pte 0\<rparr>) t"
        using "2.IH"(2) [OF True w 3 refl u(2,1,3)] by simp
      then show ?thesis using kfree_table [OF u(1)] by (simp add: same_table_def)
    qed
  qed
qed

lemma freevm_tables_table: "freevm_tables d is s = Ok () t \<Longrightarrow> same_table s t"
proof (induction "is" arbitrary: s)
  case Nil
  then show ?case by (simp add: same_table_def)
next
  case (Cons i "is")
  show ?case
  proof (cases "ld32 (mem s) (d + 4 * of_nat i) AND PTE_P = 0")
    case True
    with Cons show ?thesis by simp
  next
    case False
    with Cons.prems obtain u where "kfree (P2V (PTE_ADDR (ld32 (mem s) (d + 4 * of_nat i)))) s = Ok () u" "freevm_tables d is u = Ok () t"
      by (auto simp: res_simps)
    with kfree_table Cons.IH same_table_trans show ?thesis by blast
  qed
qed

lemma freevm_table: "freevm d s = Ok () t \<Longrightarrow> same_table s t"
  by (auto simp: freevm_def deallocuvm_def res_simps split: if_splits
      dest!: deallocuvm_loop_table freevm_tables_table kfree_table intro: same_table_trans)

lemma switchuvm_table: "switchuvm p s = Ok () t \<Longrightarrow> same_table s t"
  by (auto simp: switchuvm_def same_table_def lock_simps Let_def split: option.splits if_splits)

subsection \<open>Several CPUs\<close>

text \<open>The shared state, and the current process of each CPU (\<open>c->proc\<close>).\<close>

record 'a mpk =
  shared :: 'a
  cpu :: "nat \<Rightarrow> nat option"

text \<open>CPU \<open>c\<close> about to enter a critical section, and after it.\<close>

definition on_cpu :: "nat \<Rightarrow> 'z proc_st_scheme mpk \<Rightarrow> 'z proc_st_scheme" where
  "on_cpu c m = (shared m)\<lparr>curp := cpu m c, held := [], ncli := 0, iflag := True, intena := True\<rparr>"

definition after :: "nat \<Rightarrow> 'z proc_st_scheme \<Rightarrow> 'z proc_st_scheme mpk \<Rightarrow> 'z proc_st_scheme mpk" where
  "after c t m = m\<lparr>shared := t, cpu := (cpu m)(c := curp t)\<rparr>"

inductive mp_sched :: "'z proc_st_scheme mpk \<Rightarrow> 'z proc_st_scheme mpk \<Rightarrow> bool" where
  dispatch: "cpu m c = None \<Longrightarrow> acquire L_ptable (on_cpu c m) = Ok () t \<Longrightarrow> scheduler_pick k t = Ok (Some i) u \<Longrightarrow>
    mp_sched m (after c u m)"
| yields: "yield_enter (on_cpu c m) = Ok i t \<Longrightarrow> mp_sched m (after c (scheduler_return t) m)"
| sleeps: "acquire lk (on_cpu c m) = Ok () t \<Longrightarrow> (sleep ch lk t :: (unit, 'z proc_st_scheme) res) = Sleep ch' u \<Longrightarrow>
    mp_sched m (after c (scheduler_return u) m)"
| exits: "cpu m c = Some i \<Longrightarrow> (exit_zombie i (on_cpu c m) :: (unit, 'z proc_st_scheme) res) = Sleep ch t \<Longrightarrow>
    mp_sched m (after c (scheduler_return t) m)"
| wakes: "wakeup ch (on_cpu c m) = Ok () t \<Longrightarrow> mp_sched m (after c t m)"
| kills: "kill pid (on_cpu c m) = Ok r t \<Longrightarrow> mp_sched m (after c t m)"
| allocates: "allocproc (on_cpu c m) = Ok r t \<Longrightarrow> mp_sched m (after c t m)"
| reaps: "wait (on_cpu c m) = Ok pid t \<Longrightarrow> mp_sched m (after c t m)"
| waits: "wait (on_cpu c m) = Sleep ch t \<Longrightarrow> mp_sched m (after c (scheduler_return t) m)"
| publishes: "p_state (procs (shared m) ! i) = EMBRYO \<Longrightarrow> acquire L_ptable (on_cpu c m) = Ok () t \<Longrightarrow>
    release L_ptable (upd_proc i (set_state RUNNABLE) t) = Ok () u \<Longrightarrow> mp_sched m (after c u m)"
| abandons: "p_state (procs (shared m) ! i) = EMBRYO \<Longrightarrow> mp_sched m (after c (upd_proc i (set_state UNUSED) (on_cpu c m)) m)"

definition run_in :: "'z proc_st_scheme \<Rightarrow> nat \<Rightarrow> bool" where
  "run_in s i \<longleftrightarrow> i < length (procs s) \<and> p_state (procs s ! i) = RUNNING"

definition one_cpu :: "'z proc_st_scheme mpk \<Rightarrow> bool" where
  "one_cpu m \<longleftrightarrow> (\<forall>i. run_in (shared m) i \<longleftrightarrow> (\<exists>c. cpu m c = Some i)) \<and>
     (\<forall>c d i. cpu m c = Some i \<longrightarrow> cpu m d = Some i \<longrightarrow> c = d)"

lemma one_cpu_keep:
  "one_cpu m \<Longrightarrow> curp t = cpu m c \<Longrightarrow> (\<And>j. run_in t j \<longleftrightarrow> run_in (shared m) j) \<Longrightarrow> one_cpu (after c t m)"
  by (simp add: one_cpu_def after_def)

lemma one_cpu_leave:
  assumes "one_cpu m" "cpu m c = Some i" "curp t = None" "\<And>j. run_in t j \<longleftrightarrow> j \<noteq> i \<and> run_in (shared m) j"
  shows "one_cpu (after c t m)"
proof -
  have r: "run_in (shared m) j \<longleftrightarrow> (\<exists>d. cpu m d = Some j)" and u: "cpu m d = Some j \<Longrightarrow> cpu m e = Some j \<Longrightarrow> d = e" for d e j
    using assms(1) unfolding one_cpu_def by blast+
  have "run_in t j \<longleftrightarrow> (\<exists>d. d \<noteq> c \<and> cpu m d = Some j)" for j
    unfolding assms(4) r using assms(2) u [of c i] by (metis option.inject)
  moreover have "((cpu m)(c := None)) d = Some j \<longleftrightarrow> d \<noteq> c \<and> cpu m d = Some j" for d j by simp
  ultimately show ?thesis using u assms(3) by (auto simp: one_cpu_def after_def)
qed

lemma one_cpu_arrive:
  assumes "one_cpu m" "cpu m c = None" "\<not> run_in (shared m) i" "curp t = Some i"
    "\<And>j. run_in t j \<longleftrightarrow> j = i \<or> run_in (shared m) j"
  shows "one_cpu (after c t m)"
proof -
  have r: "run_in (shared m) j \<longleftrightarrow> (\<exists>d. cpu m d = Some j)" and u: "cpu m d = Some j \<Longrightarrow> cpu m e = Some j \<Longrightarrow> d = e" for d e j
    using assms(1) unfolding one_cpu_def by blast+
  have n: "cpu m d \<noteq> Some i" for d using assms(3) unfolding r by blast
  have f: "((cpu m)(c := Some i)) d = Some j \<longleftrightarrow> (if d = c then j = i else cpu m d = Some j)" for d j by auto
  have "run_in t j \<longleftrightarrow> (\<exists>d. if d = c then j = i else cpu m d = Some j)" for j
    unfolding assms(5) r using assms(2) by (metis option.distinct(1))
  then show ?thesis using u n assms(4) unfolding one_cpu_def after_def by (auto simp: f split: if_splits)
qed

text \<open>What each section does to the states of the table.\<close>

lemma run_in_upd:
  "i < length (procs s) \<Longrightarrow> run_in (upd_proc i f s) j \<longleftrightarrow> (if j = i then p_state (f (procs s ! i)) = RUNNING else run_in s j)"
  by (auto simp: run_in_def upd_proc_def nth_list_update)

lemma run_in_same: "same_table s t \<Longrightarrow> run_in t = run_in s"
  by (simp add: fun_eq_iff run_in_def same_table_def)

lemma same_tableD: "same_table s t \<Longrightarrow> run_in t = run_in s" "same_table s t \<Longrightarrow> curp t = curp s" "same_table s t \<Longrightarrow> procs t = procs s"
  by (simp_all add: run_in_same) (simp_all add: same_table_def)

lemma run_in_on_cpu [simp]: "run_in (on_cpu c m) = run_in (shared m)" "curp (on_cpu c m) = cpu m c" "procs (on_cpu c m) = procs (shared m)"
  by (simp_all add: on_cpu_def run_in_def fun_eq_iff)

lemma run_in_wakeup1 [simp]: "run_in (wakeup1 ch s) = run_in s" "curp (wakeup1 ch s) = curp s" "length (procs (wakeup1 ch s)) = length (procs s)"
  by (auto simp: run_in_def wakeup1_def wake_def set_state_def fun_eq_iff split: if_splits)

lemma run_in_return [simp]: "run_in (scheduler_return s) = run_in s" "curp (scheduler_return s) = None"
  by (simp_all add: scheduler_return_def switchkvm_def run_in_def fun_eq_iff)

lemma sched_same: "sched i s = Ok () t \<Longrightarrow> t = s"
  by (simp add: sched_def split: if_splits)

lemma sleep_table:
  assumes "(sleep ch lk s :: ('a, 'z proc_st_scheme) res) = Sleep ch' u" "\<forall>i. curp s = Some i \<longrightarrow> i < length (procs s)"
  obtains i where "curp s = Some i" "curp u = Some i" "\<And>j. run_in u j \<longleftrightarrow> j \<noteq> i \<and> run_in s j"
proof -
  from assms(1) obtain i where i: "curp s = Some i" by (cases "curp s") (auto simp: sleep_def)
  with assms(1) obtain t where t: "(if lk \<noteq> L_ptable then rbind (acquire L_ptable s) (\<lambda>_ s. release lk s) else Ok () s) = Ok () t"
    and u: "sched i (upd_proc i (set_state SLEEPING) (upd_proc i (\<lambda>p. p\<lparr>p_chan := Some ch\<rparr>) t)) = Ok () u"
    by (auto simp: sleep_def res_simps Let_def split: if_splits)
  have st: "same_table s t" using t
    by (auto simp: res_simps split: if_splits dest!: locks_table intro: same_table_trans) (simp add: same_table_def)
  then have il: "i < length (procs t)" "curp t = Some i" using assms(2) i by (auto simp: same_table_def)
  have e: "u = upd_proc i (set_state SLEEPING) (upd_proc i (\<lambda>p. p\<lparr>p_chan := Some ch\<rparr>) t)" using sched_same [OF u] by simp
  have "run_in u j \<longleftrightarrow> j \<noteq> i \<and> run_in s j" for j
    using il run_in_same [OF st] by (simp add: e run_in_upd procs_upd_proc set_state_def)
  moreover have "curp u = Some i" using il by (simp add: e curp_upd_proc)
  ultimately show ?thesis using i that by blast
qed

lemma wakeup_proc_table [simp]:
  "run_in (wakeup_proc p s) = run_in s" "curp (wakeup_proc p s) = curp s" "length (procs (wakeup_proc p s)) = length (procs s)"
  by (auto simp: wakeup_proc_def split: option.splits)

lemma reparent_one_table:
  assumes "j < length (procs s)"
  shows "run_in (reparent_one c j s) = run_in s" "curp (reparent_one c j s) = curp s"
    "length (procs (reparent_one c j s)) = length (procs s)"
proof -
  have "run_in (upd_proc j (\<lambda>p. p\<lparr>p_parent := q\<rparr>) s) = run_in s" for q
    using assms by (auto simp: fun_eq_iff run_in_def upd_proc_def nth_list_update)
  moreover have "curp (upd_proc j (\<lambda>p. p\<lparr>p_parent := q\<rparr>) s) = curp s"
    "length (procs (upd_proc j (\<lambda>p. p\<lparr>p_parent := q\<rparr>) s)) = length (procs s)" for q by (simp_all add: upd_proc_def)
  ultimately show "run_in (reparent_one c j s) = run_in s" "curp (reparent_one c j s) = curp s"
    "length (procs (reparent_one c j s)) = length (procs s)"
    by (simp_all add: reparent_one_def Let_def)
qed

lemma reparent_table:
  "run_in (reparent c s) = run_in s \<and> curp (reparent c s) = curp s \<and> length (procs (reparent c s)) = length (procs s)"
proof -
  have "set js \<subseteq> {..<length (procs s)} \<Longrightarrow> run_in (fold (reparent_one c) js s) = run_in s \<and>
      curp (fold (reparent_one c) js s) = curp s \<and> length (procs (fold (reparent_one c) js s)) = length (procs s)"
    for js and s :: "'a proc_st_scheme"
    by (induction js arbitrary: s) (simp_all add: reparent_one_table)
  moreover have "set [0..<length (procs s)] \<subseteq> {..<length (procs s)}" by auto
  ultimately show ?thesis unfolding reparent_def by blast
qed

lemma exit_table:
  assumes "(exit_zombie i s :: ('a, 'z proc_st_scheme) res) = Sleep ch u" "i < length (procs s)"
  shows "curp u = curp s" "run_in u j \<longleftrightarrow> j \<noteq> i \<and> run_in s j"
proof -
  from assms(1) obtain t where t: "acquire L_ptable s = Ok () t"
    and u: "sched i (upd_proc i (set_state ZOMBIE) (reparent i (wakeup_proc (p_parent (procs t ! i)) t))) = Ok () u"
    by (auto simp: exit_zombie_def res_simps Let_def)
  note st = locks_table(1) [OF t]
  let ?v = "reparent i (wakeup_proc (p_parent (procs t ! i)) t)"
  have v: "run_in ?v = run_in s" "curp ?v = curp s" "length (procs ?v) = length (procs s)"
    using reparent_table [of i "wakeup_proc (p_parent (procs t ! i)) t"] run_in_same [OF st] st by (auto simp: same_table_def)
  have e: "u = upd_proc i (set_state ZOMBIE) ?v" using sched_same [OF u] by simp
  show "curp u = curp s" using v by (simp add: e curp_upd_proc)
  show "run_in u j \<longleftrightarrow> j \<noteq> i \<and> run_in s j" using v assms(2) by (simp add: e run_in_upd set_state_def)
qed

lemma wakeup_table: "wakeup ch s = Ok () t \<Longrightarrow> run_in t = run_in s \<and> curp t = curp s"
  by (auto simp: wakeup_def res_simps dest!: locks_table simp: same_table_def run_in_def wakeup1_def wake_def set_state_def
      fun_eq_iff split: if_splits)

lemma kill_table: "kill pid s = Ok r t \<Longrightarrow> run_in t = run_in s \<and> curp t = curp s"
proof -
  assume k: "kill pid s = Ok r t"
  then obtain u where u: "acquire L_ptable s = Ok () u" by (auto simp: kill_def res_simps)
  have su: "run_in u = run_in s" "curp u = curp s" using same_tableD [OF locks_table(1) [OF u]] by simp_all
  show ?thesis
  proof (cases "scan (\<lambda>p. p_pid p = pid) (procs u)")
    case None
    with k u have "release L_ptable u = Ok () t" by (simp add: kill_def res_simps)
    note same_tableD [OF locks_table(2) [OF this]]
    with su show ?thesis by simp
  next
    case (Some i)
    with k u have r: "release L_ptable (upd_proc i kill_proc u) = Ok () t" by (simp add: kill_def res_simps)
    have "run_in (upd_proc i kill_proc u) = run_in u"
      using scan_in_range [OF Some] by (auto simp: fun_eq_iff run_in_def upd_proc_def nth_list_update kill_proc_def set_state_def Let_def
          split: if_splits)
    with su same_tableD [OF locks_table(2) [OF r]] show ?thesis by (simp add: curp_upd_proc)
  qed
qed

lemma alloc_stack_table:
  assumes "alloc_stack i s = Ok r t" "i < length (procs s)" "p_state (procs s ! i) \<noteq> RUNNING"
  shows "run_in t = run_in s \<and> curp t = curp s"
proof -
  from assms(1) obtain k u where u: "kalloc s = Ok k u" by (auto simp: alloc_stack_def res_simps)
  note su = kalloc_table [OF u]
  have i: "i < length (procs u)" "p_state (procs u ! i) \<noteq> RUNNING" using su assms(2,3) by (simp_all add: same_table_def)
  have "curp t = curp u \<and> (\<exists>f. procs t = (procs u)[i := f (procs u ! i)] \<and> (\<forall>p. p_state (f p) = p_state p \<or> p_state (f p) = UNUSED))"
  proof (cases "k = 0")
    case True
    with assms(1) u i(1) have "t = upd_proc i (set_state UNUSED) (upd_proc i (\<lambda>p. p\<lparr>p_kstack := k\<rparr>) u)"
      by (simp add: alloc_stack_def Let_def)
    then show ?thesis using i(1) by (intro conjI exI [of _ "\<lambda>p. p\<lparr>p_kstack := k, p_state := UNUSED\<rparr>"]) (simp_all add: upd_proc_def set_state_def)
  next
    case False
    with assms(1) u i(1) show ?thesis
      by (intro conjI exI [of _ "\<lambda>p. p\<lparr>p_kstack := k, p_tf := k + 4096 - 76, p_context := k + 4096 - 76 - 4 - 20, p_alarmticks := 0,
            p_alarmhandler := 0, p_ticks := 0\<rparr>"])
        (auto simp: alloc_stack_def Let_def upd_proc_def)
  qed
  then obtain f where f: "procs t = (procs u)[i := f (procs u ! i)]" "p_state (f (procs u ! i)) \<noteq> RUNNING" "curp t = curp u"
    using i(2) by (metis procstate.distinct(7))
  have "run_in t = run_in u" using f i by (auto simp: fun_eq_iff run_in_def nth_list_update)
  with same_tableD [OF su] f(3) show ?thesis by simp
qed

lemma allocproc_table: "allocproc s = Ok r t \<Longrightarrow> run_in t = run_in s \<and> curp t = curp s"
proof -
  assume a: "allocproc s = Ok r t"
  then obtain u where u: "acquire L_ptable s = Ok () u" by (auto simp: allocproc_def res_simps)
  have su: "run_in u = run_in s" "curp u = curp s" using same_tableD [OF locks_table(1) [OF u]] by simp_all
  show ?thesis
  proof (cases "scan (\<lambda>p. p_state p = UNUSED) (procs u)")
    case None
    with a u have "release L_ptable u = Ok () t" by (auto simp: allocproc_def res_simps)
    note same_tableD [OF locks_table(2) [OF this]]
    with su show ?thesis by simp
  next
    case (Some i)
    then have i: "i < length (procs u)" "p_state (procs u ! i) = UNUSED" by (simp_all add: scan_Some_iff)
    let ?v = "(upd_proc i (\<lambda>p. p\<lparr>p_state := EMBRYO, p_pid := nextpid u\<rparr>) u)\<lparr>nextpid := nextpid u + 1\<rparr>"
    from a u Some obtain v where v: "release L_ptable ?v = Ok () v" and t: "alloc_stack i v = Ok r t"
      by (auto simp: allocproc_def res_simps Let_def upd_proc_def)
    note sv = locks_table(2) [OF v]
    have "i < length (procs v)" "p_state (procs v ! i) \<noteq> RUNNING" using sv i by (auto simp: same_table_def upd_proc_def)
    note at = alloc_stack_table [OF t this]
    have "run_in ?v = run_in u" using i by (auto simp: fun_eq_iff run_in_def upd_proc_def nth_list_update)
    with su at same_tableD [OF sv] show ?thesis by (simp add: upd_proc_def)
  qed
qed

lemma wait_table:
  assumes "wait s = Ok pid t"
  shows "run_in t = run_in s \<and> curp t = curp s"
proof -
  from assms obtain c where c: "curp s = Some c" by (cases "curp s") (auto simp: wait_def)
  with assms obtain u where u: "acquire L_ptable s = Ok () u" by (auto simp: wait_def res_simps)
  have su: "run_in u = run_in s" "curp u = curp s" using same_tableD [OF locks_table(1) [OF u]] by simp_all
  let ?Z = "\<lambda>p. p_parent p = Some c \<and> p_state p = ZOMBIE"
  show ?thesis
  proof (cases "scan ?Z (procs u)")
    case None
    have "(sleep (Ch_proc c) L_ptable u :: (uint, 'a proc_st_scheme) res) \<noteq> Ok pid t"
      by (auto simp: sleep_def res_simps Let_def split: option.splits)
    with assms c u None have "release L_ptable u = Ok () t" by (auto simp: wait_def res_simps split: if_splits)
    note same_tableD [OF locks_table(2) [OF this]]
    with su show ?thesis by simp
  next
    case (Some i)
    then have i: "i < length (procs u)" "p_state (procs u ! i) = ZOMBIE" by (simp_all add: scan_Some_iff)
    with assms c u Some obtain v w where v: "kfree (p_kstack (procs u ! i)) u = Ok () v"
      and w: "freevm (p_pgdir (procs (upd_proc i (\<lambda>p. p\<lparr>p_kstack := 0\<rparr>) v) ! i)) (upd_proc i (\<lambda>p. p\<lparr>p_kstack := 0\<rparr>) v) = Ok () w"
      and t: "release L_ptable (upd_proc i reap w) = Ok () t"
      by (auto simp: wait_def res_simps Let_def)
    note V = same_tableD [OF kfree_table [OF v]] and W = same_tableD [OF freevm_table [OF w]] and T = same_tableD [OF locks_table(2) [OF t]]
    have "run_in (upd_proc i (\<lambda>p. p\<lparr>p_kstack := 0\<rparr>) v) = run_in v"
      using i V(3) by (auto simp: fun_eq_iff run_in_def upd_proc_def nth_list_update)
    moreover have "i < length (procs w)" "p_state (procs w ! i) = ZOMBIE" using i V(3) W(3) by (simp_all add: upd_proc_def)
    then have "run_in (upd_proc i reap w) = run_in w"
      by (auto simp: fun_eq_iff run_in_def upd_proc_def nth_list_update reap_def)
    ultimately show ?thesis using V W T su by (simp add: curp_upd_proc)
  qed
qed

lemma wait_sleeps:
  assumes "wait s = Sleep ch t" "\<forall>i. curp s = Some i \<longrightarrow> i < length (procs s)"
  obtains i where "curp s = Some i" "\<And>j. run_in t j \<longleftrightarrow> j \<noteq> i \<and> run_in s j"
proof -
  from assms(1) obtain c where c: "curp s = Some c" by (cases "curp s") (auto simp: wait_def)
  have ks: "kfree v u \<noteq> Sleep ch t" for v and u :: "'a proc_st_scheme"
    by (auto simp: kfree_def res_simps Let_def split: if_splits)
  have ds: "deallocuvm_loop n d a z u \<noteq> Sleep ch t" for n d a z and u :: "'a proc_st_scheme"
    by (induction n d a z u rule: deallocuvm_loop.induct)
      (auto simp: res_simps ks out_of_fuel_def Let_def walkpgdir_def split: if_splits)
  have ts: "freevm_tables d is u \<noteq> Sleep ch t" for d "is" and u :: "'a proc_st_scheme"
    by (induction d "is" u rule: freevm_tables.induct) (auto simp: res_simps ks Let_def)
  have fs: "freevm d u \<noteq> Sleep ch t" for d and u :: "'a proc_st_scheme"
    by (auto simp: freevm_def deallocuvm_def res_simps ks ds ts)
  from assms(1) c obtain u where u: "acquire L_ptable s = Ok () u" "(sleep (Ch_proc c) L_ptable u :: (uint, 'a proc_st_scheme) res) = Sleep ch t"
    by (auto simp: wait_def res_simps ks fs Let_def split: option.splits if_splits)
  note S = same_tableD [OF locks_table(1) [OF u(1)]]
  show ?thesis
  proof (rule sleep_table [OF u(2)])
    show "\<forall>i. curp u = Some i \<longrightarrow> i < length (procs u)" using assms(2) S by simp
    show thesis if "curp u = Some i" "curp t = Some i" "\<And>j. run_in t j \<longleftrightarrow> j \<noteq> i \<and> run_in u j" for i
      using that S \<open>\<And>i. curp s = Some i \<Longrightarrow> (\<And>j. run_in t j \<longleftrightarrow> j \<noteq> i \<and> run_in s j) \<Longrightarrow> thesis\<close> by simp
  qed
qed

lemma yield_table:
  assumes "yield_enter s = Ok i t" "\<forall>i. curp s = Some i \<longrightarrow> i < length (procs s)"
  shows "curp s = Some i" "run_in t j \<longleftrightarrow> j \<noteq> i \<and> run_in s j"
proof -
  from assms(1) obtain u where u: "acquire L_ptable s = Ok () u" by (auto simp: yield_enter_def res_simps)
  note S = same_tableD [OF locks_table(1) [OF u]]
  from assms(1) u show c: "curp s = Some i"
    using S(2) by (cases "curp s") (simp_all add: yield_enter_def res_simps)
  with assms(1) u S(2) have "sched i (upd_proc i (set_state RUNNABLE) u) = Ok () t" by (simp add: yield_enter_def res_simps)
  from sched_same [OF this] have t: "t = upd_proc i (set_state RUNNABLE) u" .
  show "run_in t j \<longleftrightarrow> j \<noteq> i \<and> run_in s j" using assms(2) c S by (simp add: t run_in_upd set_state_def)
qed

lemma pick_table:
  assumes "scheduler_pick k s = Ok (Some i) t"
  shows "curp t = Some i" "\<not> run_in s i" "run_in t j \<longleftrightarrow> j = i \<or> run_in s j"
proof -
  from assms obtain n where n: "scan (\<lambda>p. p_state p = RUNNABLE) (drop k (procs s)) = Some n"
    by (auto simp: scheduler_pick_def split: option.splits)
  then have il: "k + n < length (procs s)" "p_state (procs s ! (k + n)) = RUNNABLE" by (auto simp: scan_Some_iff)
  from assms n obtain u where u: "switchuvm (Some (p_kstack (procs s ! (k + n)), p_pgdir (procs s ! (k + n)))) (s\<lparr>curp := Some (k + n)\<rparr>) = Ok () u"
    and t: "t = upd_proc i (set_state RUNNING) u" "i = k + n"
    by (auto simp: scheduler_pick_def res_simps Let_def)
  note S = same_tableD [OF switchuvm_table [OF u]]
  show "curp t = Some i" using S t by (simp add: curp_upd_proc)
  show "\<not> run_in s i" using il t by (simp add: run_in_def)
  show "run_in t j \<longleftrightarrow> j = i \<or> run_in s j" using il t S by (auto simp: run_in_upd set_state_def) (auto simp: run_in_def)
qed

lemma one_cpu_bound: "one_cpu m \<Longrightarrow> cpu m c = Some i \<Longrightarrow> i < length (procs (shared m))"
  by (auto simp: one_cpu_def run_in_def)

lemma mp_sched_keeps:
  assumes "mp_sched m m'" and inv: "one_cpu m"
  shows "one_cpu m'"
  using assms(1)
proof cases
  case (dispatch c t k i u)
  note S = same_tableD [OF locks_table(1) [OF dispatch(3)]] and P = pick_table [OF dispatch(4)]
  show ?thesis unfolding dispatch(1)
    by (rule one_cpu_arrive [OF inv dispatch(2), of i]) (use P S in simp_all)
next
  case (yields c i t)
  have b: "\<forall>i. curp (on_cpu c m) = Some i \<longrightarrow> i < length (procs (on_cpu c m))" using one_cpu_bound [OF inv] by simp
  note Y = yield_table [OF yields(2) b]
  show ?thesis unfolding yields(1) by (rule one_cpu_leave [OF inv, of c i]) (use Y in simp_all)
next
  case (sleeps lk c t ch ch' u)
  note S = same_tableD [OF locks_table(1) [OF sleeps(2)]]
  have b: "\<forall>i. curp t = Some i \<longrightarrow> i < length (procs t)" using one_cpu_bound [OF inv] S by simp
  obtain i where i: "curp t = Some i" "\<And>j. run_in u j \<longleftrightarrow> j \<noteq> i \<and> run_in t j" by (rule sleep_table [OF sleeps(3) b]) (rule that)
  show ?thesis unfolding sleeps(1) by (rule one_cpu_leave [OF inv, of c i]) (use i S in simp_all)
next
  case (exits c i ch t)
  have b: "i < length (procs (on_cpu c m))" using one_cpu_bound [OF inv exits(2)] by simp
  note E = exit_table [OF exits(3) b]
  show ?thesis unfolding exits(1) by (rule one_cpu_leave [OF inv exits(2)]) (use E in simp_all)
next
  case (wakes ch c t)
  from wakeup_table [OF wakes(2)] show ?thesis unfolding wakes(1) by (intro one_cpu_keep [OF inv]) simp_all
next
  case (kills pid c r t)
  from kill_table [OF kills(2)] show ?thesis unfolding kills(1) by (intro one_cpu_keep [OF inv]) simp_all
next
  case (allocates c r t)
  from allocproc_table [OF allocates(2)] show ?thesis unfolding allocates(1) by (intro one_cpu_keep [OF inv]) simp_all
next
  case (reaps c pid t)
  from wait_table [OF reaps(2)] show ?thesis unfolding reaps(1) by (intro one_cpu_keep [OF inv]) simp_all
next
  case (waits c ch t)
  have b: "\<forall>i. curp (on_cpu c m) = Some i \<longrightarrow> i < length (procs (on_cpu c m))" using one_cpu_bound [OF inv] by simp
  obtain i where i: "curp (on_cpu c m) = Some i" "\<And>j. run_in t j \<longleftrightarrow> j \<noteq> i \<and> run_in (on_cpu c m) j"
    by (rule wait_sleeps [OF waits(2) b]) (rule that)
  show ?thesis unfolding waits(1) by (rule one_cpu_leave [OF inv, of c i]) (use i in simp_all)
next
  case (publishes i c t u)
  note S = same_tableD [OF locks_table(1) [OF publishes(3)]] and U = same_tableD [OF locks_table(2) [OF publishes(4)]]
  have "run_in (upd_proc i (set_state RUNNABLE) t) = run_in (shared m)"
    using publishes(2) S by (auto simp: fun_eq_iff run_in_def upd_proc_def nth_update set_state_def split: if_splits)
  then show ?thesis unfolding publishes(1) using U S by (intro one_cpu_keep [OF inv]) (simp_all add: curp_upd_proc)
next
  case (abandons i c)
  have "run_in (upd_proc i (set_state UNUSED) (on_cpu c m)) = run_in (shared m)"
    using abandons(2) by (auto simp: fun_eq_iff run_in_def upd_proc_def nth_update set_state_def split: if_splits)
  then show ?thesis unfolding abandons(1) by (intro one_cpu_keep [OF inv]) (simp_all add: curp_upd_proc)
qed

text \<open>
  C23: a process never runs on two CPUs.  Starting with idle CPUs and no running process, in every
  interleaving of the table's critical sections on any number of CPUs, a process is in state
  \<open>RUNNING\<close> exactly while it is the current process of some CPU, and then of one CPU only.
\<close>

theorem process_runs_on_one_cpu:
  assumes "mp_sched\<^sup>*\<^sup>* m m'" and "\<forall>c. cpu m c = None" and "\<forall>i. \<not> run_in (shared m) i"
  shows "(\<forall>i. run_in (shared m') i \<longleftrightarrow> (\<exists>c. cpu m' c = Some i)) \<and>
    (\<forall>c d i. cpu m' c = Some i \<longrightarrow> cpu m' d = Some i \<longrightarrow> c = d)"
proof -
  have "one_cpu m" using assms(2,3) by (simp add: one_cpu_def)
  with assms(1) have "one_cpu m'" by (induction rule: rtranclp_induct) (auto intro: mp_sched_keeps)
  then show ?thesis by (simp add: one_cpu_def)
qed

text \<open>One runnable process and idle CPUs; CPU 3 picks the process.\<close>

definition idle_example :: "proc_st mpk" where
  "idle_example = \<lparr>shared = proc_example\<lparr>procs := [proc_zero\<lparr>p_state := RUNNABLE, p_kstack := 0x80200000, p_pgdir := 0x80300000\<rparr>]\<rparr>,
     cpu = (\<lambda>_. None)\<rparr>"

theorem process_runs_on_one_cpu_witness:
  "\<exists>m'. mp_sched\<^sup>*\<^sup>* idle_example m' \<and> cpu m' 3 = Some 0 \<and> run_in (shared m') 0"
proof -
  let ?t = "enter L_ptable (on_cpu 3 idle_example)"
  have a: "acquire L_ptable (on_cpu 3 idle_example) = Ok () ?t"
    by (rule acquire_calm) (simp_all add: on_cpu_def calm_def cli_wf_def)
  obtain u where u: "scheduler_pick 0 ?t = Ok (Some 0) u"
    by (auto simp: scheduler_pick_def enter_def on_cpu_def idle_example_def switchuvm_def pushcli_def popcli_def cli_def sti_def Let_def
        split: if_splits)
  have s: "mp_sched idle_example (after 3 u idle_example)"
    using dispatch [of idle_example 3 ?t 0 0 u] a u by (simp add: idle_example_def)
  have c: "cpu (after 3 u idle_example) 3 = Some 0" using pick_table(1) [OF u] by (simp add: after_def)
  have "\<forall>c. cpu idle_example c = None" "\<forall>i. \<not> run_in (shared idle_example) i"
    by (auto simp: idle_example_def run_in_def)
  from process_runs_on_one_cpu [OF _ this, of "after 3 u idle_example"] s c show ?thesis by blast
qed

end
