(* ===== verification/Xv6_Wakeup.thy ===== *)
theory Xv6_Wakeup
  imports Xv6_Proc
begin






















end
