(* ===== verification/Xv6_Ulib.thy ===== *)
theory Xv6_Ulib
  imports Xv6_Console
begin

text \<open>
  The C library of user programs (ulib.c, printf.c).  A C string is the list of its bytes before
  the terminating zero; routines that write through pointers work on the address space of
  Xv6_String.  Output is the list of bytes written to the file descriptor.
\<close>

type_synonym cstring = "byte list"

definition ascii :: "string \<Rightarrow> cstring" where
  "ascii s = map (\<lambda>c. of_nat (of_char c)) s"

subsection \<open>Strings\<close>

text \<open>The byte at the front of a string: the terminator when nothing is left.\<close>

definition first :: "cstring \<Rightarrow> byte" where
  "first s = (case s of [] \<Rightarrow> 0 | c # _ \<Rightarrow> c)"

fun strcmp :: "cstring \<Rightarrow> cstring \<Rightarrow> int" where
  "strcmp (p # ps) (q # qs) = (if p = q then strcmp ps qs else uint p - uint q)"
| "strcmp ps qs = uint (first ps) - uint (first qs)"

fun strlen_u :: "cstring \<Rightarrow> nat" where
  "strlen_u [] = 0"
| "strlen_u (c # s) = Suc (strlen_u s)"

text \<open>The position of the first \<open>c\<close>; the terminator itself is not searched for.\<close>

fun strchr :: "cstring \<Rightarrow> byte \<Rightarrow> nat option" where
  "strchr [] c = None"
| "strchr (x # s) c = (if x = c then Some 0 else map_option Suc (strchr s c))"

text \<open>Arithmetic of C \<open>int\<close>: 32-bit words.  \<open>*s\<close> is a signed char.\<close>

fun atoi_loop :: "uint \<Rightarrow> cstring \<Rightarrow> uint" where
  "atoi_loop n [] = n"
| "atoi_loop n (c # s) = (if 0x30 \<le> sint c \<and> sint c \<le> 0x39 then atoi_loop (n * 10 + scast c - 0x30) s else n)"

definition atoi :: "cstring \<Rightarrow> uint" where
  "atoi s = atoi_loop 0 s"

subsection \<open>Copying\<close>

partial_function (option) strcpy_loop :: "memory \<Rightarrow> addr \<Rightarrow> addr \<Rightarrow> memory option" where
  "strcpy_loop m s t = (let m = m(s := m t) in if m s \<noteq> 0 then strcpy_loop m (s + 1) (t + 1) else Some m)"

definition strcpy :: "memory \<Rightarrow> addr \<Rightarrow> addr \<Rightarrow> memory option" where
  "strcpy m s t = strcpy_loop m s t"

definition memset_u :: "memory \<Rightarrow> addr \<Rightarrow> uint \<Rightarrow> uint \<Rightarrow> memory" where
  "memset_u m dst c n = stosb m dst (ucast c) (unat n)"

fun memmove_u_loop :: "nat \<Rightarrow> memory \<Rightarrow> addr \<Rightarrow> addr \<Rightarrow> memory" where
  "memmove_u_loop 0 m dst src = m"
| "memmove_u_loop (Suc n) m dst src = memmove_u_loop n (m(dst := m src)) (dst + 1) (src + 1)"

definition memmove_u :: "memory \<Rightarrow> addr \<Rightarrow> addr \<Rightarrow> uint \<Rightarrow> memory" where
  "memmove_u m dst src n = memmove_u_loop (nat (sint n)) m dst src"

text \<open>
  \<open>gets\<close>: the bytes the standard input delivers, one per \<open>read\<close>, until the end of the input, a
  line end, or \<open>max - 1\<close> bytes; the result also says what is left of the input.
\<close>

fun gets_loop :: "nat \<Rightarrow> byte list \<Rightarrow> byte list \<times> byte list" where
  "gets_loop 0 inp = ([], inp)"
| "gets_loop (Suc k) [] = ([], [])"
| "gets_loop (Suc k) (c # inp) =
    (if c = 0x0a \<or> c = 0x0d then ([c], inp) else let (l, r) = gets_loop k inp in (c # l, r))"

definition gets :: "int \<Rightarrow> byte list \<Rightarrow> byte list \<times> byte list" where
  "gets mx inp = (let (l, r) = gets_loop (nat (mx - 1)) inp in (l @ [0], r))"

subsection \<open>Formatted output\<close>

definition digit_u :: "uint \<Rightarrow> byte" where
  "digit_u d = (if d < 10 then 0x30 + ucast d else 0x41 + ucast (d - 10))"

function digits_u :: "uint \<Rightarrow> uint \<Rightarrow> byte list" where
  "digits_u base x =
    (if base < 2 \<or> x div base = 0 then [digit_u (x mod base)]
     else digit_u (x mod base) # digits_u base (x div base))"
  by auto
termination
  by (relation "measure (\<lambda>(base, x). unat x)") (simp_all add: unat_div_less)

text \<open>The buffer of \<open>printint\<close> in the order in which it is printed, from its end.\<close>

definition printint_u :: "uint \<Rightarrow> uint \<Rightarrow> bool \<Rightarrow> byte list" where
  "printint_u xx base sg =
    (let neg = (sg \<and> sint xx < 0); x = (if neg then - xx else xx);
         buf = digits_u base x
     in rev (if neg then buf @ [0x2d] else buf))"

text \<open>
  \<open>printf\<close> reads its arguments as words from the stack (\<open>ap\<close>); \<open>str\<close> gives the string at an
  address.
\<close>

fun printf_loop :: "(uint \<Rightarrow> cstring) \<Rightarrow> bool \<Rightarrow> cstring \<Rightarrow> (nat \<Rightarrow> uint) \<Rightarrow> nat \<Rightarrow> byte list" where
  "printf_loop str state [] ap i = []"
| "printf_loop str False (c # fmt) ap i =
    (if c = 0x25 then printf_loop str True fmt ap i else c # printf_loop str False fmt ap i)"
| "printf_loop str True (c # fmt) ap i =
    (if c = 0x64 then printint_u (ap i) 10 True @ printf_loop str False fmt ap (i + 1)
     else if c = 0x78 \<or> c = 0x70 then printint_u (ap i) 16 False @ printf_loop str False fmt ap (i + 1)
     else if c = 0x73 then
       (if ap i = 0 then [0x28, 0x6e, 0x75, 0x6c, 0x6c, 0x29] else str (ap i)) @ printf_loop str False fmt ap (i + 1)
     else if c = 0x63 then ucast (ap i) # printf_loop str False fmt ap (i + 1)
     else if c = 0x25 then c # printf_loop str False fmt ap i
     else 0x25 # c # printf_loop str False fmt ap i)"

definition printf :: "(uint \<Rightarrow> cstring) \<Rightarrow> cstring \<Rightarrow> (nat \<Rightarrow> uint) \<Rightarrow> byte list" where
  "printf str fmt ap = printf_loop str False fmt ap 0"

subsection \<open>Reading a descriptor\<close>

text \<open>
  What successive \<open>read\<close>s of a descriptor find: some bytes or an error.  A read that asks for fewer
  bytes than are there leaves the others; after the last entry the file has ended.
\<close>

datatype rd = Data "byte list" | Fail

fun read_fd :: "nat \<Rightarrow> rd list \<Rightarrow> byte list option \<times> rd list" where
  "read_fd n [] = (Some [], [])"
| "read_fd n (Fail # inp) = (None, inp)"
| "read_fd n (Data d # inp) = (Some (take n d), if length d \<le> n then inp else Data (drop n d) # inp)"

fun rd_size :: "rd list \<Rightarrow> nat" where
  "rd_size [] = 0"
| "rd_size (Fail # inp) = Suc (rd_size inp)"
| "rd_size (Data d # inp) = Suc (length d + rd_size inp)"

lemma read_fd_smaller:
  "read_fd n inp = (Some d, inp') \<Longrightarrow> d \<noteq> [] \<Longrightarrow> rd_size inp' < rd_size inp"
  by (induction n inp rule: read_fd.induct) (auto split: if_splits)

text \<open>The C string that starts a byte sequence, and a copy into a buffer.\<close>

definition cstr :: "byte list \<Rightarrow> cstring" where
  "cstr b = takeWhile (\<lambda>c. c \<noteq> 0) b"

definition put_at :: "byte list \<Rightarrow> nat \<Rightarrow> byte list \<Rightarrow> byte list" where
  "put_at buf i d = take i buf @ d @ drop (i + length d) buf"

lemma strchr_bound: "strchr s c = Some k \<Longrightarrow> k < length s \<and> s ! k = c"
  by (induction s arbitrary: k) (auto split: if_splits)

lemma strchr_None: "strchr s c = None \<longleftrightarrow> c \<notin> set s"
  by (induction s) auto

lemma strchr_first: "c \<notin> set s \<Longrightarrow> strchr (s @ c # t) c = Some (length s)"
  by (induction s) auto

lemma cstr_length: "length (cstr b) \<le> length b"
  by (simp add: cstr_def length_takeWhile_le)

lemma cstr_zero: "0 \<notin> set t \<Longrightarrow> cstr (t @ 0 # r) = t"
  by (auto simp: cstr_def takeWhile_append)

lemma length_put_at [simp]: "i + length d \<le> length buf \<Longrightarrow> length (put_at buf i d) = length buf"
  by (simp add: put_at_def)

subsection \<open>Properties\<close>

declare digits_u.simps [simp del] int_digits.simps [simp del]

lemma digit_u_value:
  assumes "d < 10"
  shows "0x30 \<le> sint (digit_u d)" "sint (digit_u d) \<le> 0x39" "scast (digit_u d) = (0x30 + d :: uint)"
proof -
  have "unat d \<in> set [0..<10]" using assms by (simp add: word_less_nat_alt)
  then have "d \<in> of_nat ` set [0..<10]" by (intro image_eqI [of _ _ "unat d"]) simp_all
  then have "0x30 \<le> sint (digit_u d) \<and> sint (digit_u d) \<le> 0x39 \<and> scast (digit_u d) = (0x30 + d :: uint)"
    by (auto simp: upt_rec digit_u_def)
  then show "0x30 \<le> sint (digit_u d)" "sint (digit_u d) \<le> 0x39" "scast (digit_u d) = (0x30 + d :: uint)"
    by blast+
qed

lemma atoi_digits: "atoi_loop 0 (rev (digits_u 10 x) @ s) = atoi_loop x s"
proof (induction "unat x" arbitrary: x s rule: less_induct)
  case less
  have m: "x mod 10 < 10" by (simp add: word_mod_less_divisor)
  note v = digit_u_value [OF m]
  show ?case
  proof (cases "x div 10 = 0")
    case True
    then have "x mod 10 = x" using div_mult_mod_eq [of x 10] by simp
    with v True show ?thesis by (subst digits_u.simps) simp
  next
    case False
    have "unat (x div 10) < unat x" by (rule unat_div_less) (use False in simp)
    from less [OF this] False v show ?thesis
      by (subst digits_u.simps) (simp add: div_mult_mod_eq)
  qed
qed

text \<open>
  C31: reading back with \<^term>\<open>atoi\<close> what \<^term>\<open>printf\<close> writes for a percent-d gives the number,
  for every non-negative \<open>int\<close>.
\<close>

theorem printf_atoi_roundtrip:
  assumes "0 \<le> sint x"
  shows "atoi (printf str [0x25, 0x64] (\<lambda>_. x)) = x"
  using assms atoi_digits [of x "[]"] by (simp add: printf_def printint_u_def atoi_def)

theorem printf_atoi_roundtrip_witness:
  "atoi (printf (\<lambda>_. []) [0x25, 0x64] (\<lambda>_. 2026)) = 2026"
  by (rule printf_atoi_roundtrip) simp

lemma length_digits_u:
  assumes "2 \<le> b" "unat x < unat b ^ Suc k"
  shows "length (digits_u b x) \<le> Suc k"
  using assms(2)
proof (induction k arbitrary: x)
  case 0
  then have "x div b = 0" by (simp add: unat_div_distrib flip: unat_eq_zero)
  then show ?case by (subst digits_u.simps) simp
next
  case (Suc k)
  have "unat (x div b) < unat b ^ Suc k"
    using Suc.prems by (simp add: unat_div_distrib less_mult_imp_div_less mult.commute)
  from Suc.IH [OF this] show ?case by (subst digits_u.simps) simp
qed

lemma int_digits_length: "length (int_digits b x) = length (digits_u b x)"
  by (induction b x rule: int_digits.induct) (subst int_digits.simps, subst digits_u.simps, simp)

text \<open>
  C32: the 16-byte buffers of both number printers are never overrun: every \<open>int\<close> has at most ten
  decimal or eight hexadecimal digits and a sign, in the kernel's console output and in the
  user library.
\<close>

theorem printint_fits_buffer:
  assumes "base \<in> {10, 16}"
  shows "length (printint_u xx base sg) \<le> 11 \<and> length (printint_chars xx base sg) \<le> 11"
proof -
  have "length (digits_u base x) \<le> Suc 9" for x :: uint
  proof (rule length_digits_u)
    show "2 \<le> base" using assms by auto
    show "unat x < unat base ^ Suc 9" using assms less_trans [OF unat_less_2p32 [of x]] by auto
  qed
  from this [of xx] this [of "- xx"] show ?thesis by (simp add: printint_u_def printint_chars_def int_digits_length Let_def)
qed

theorem printint_fits_buffer_witness:
  "length (printint_u 0x80000000 10 True) \<le> 11 \<and> length (printint_chars 0x80000000 10 True) \<le> 11"
  by (rule printint_fits_buffer) simp

text \<open>
  C33: \<^term>\<open>strcmp\<close> is zero exactly for equal strings, and negative exactly when the first string
  precedes the second in the lexicographic order of unsigned bytes.
\<close>

theorem strcmp_orders_strings:
  assumes "0 \<notin> set p" "0 \<notin> set q"
  shows "(strcmp p q = 0 \<longleftrightarrow> p = q) \<and> (strcmp p q < 0 \<longleftrightarrow> (p, q) \<in> lexord {(a, b). a < b})"
  using assms
  by (induction p q rule: strcmp.induct)
    (auto simp: first_def word_less_def word_neq_0_conv less_le simp flip: word_uint_eq_iff split: list.splits)

theorem strcmp_orders_strings_witness:
  "strcmp [0x61, 0x62] [0x61, 0xe9] < 0 \<longleftrightarrow> ([0x61, 0x62], [0x61, 0xe9 :: byte]) \<in> lexord {(a, b). a < b}"
  using strcmp_orders_strings [of "[0x61, 0x62]" "[0x61, 0xe9]"] by simp

end
