(* ===== verification/Xv6_Grep.thy ===== *)
theory Xv6_Grep
  imports Xv6_Ulib
begin

text \<open>
  The program grep (grep.c): the regular-expression matcher, and the loop that cuts what it reads
  into lines.  Strings are byte lists without their terminator.
\<close>

subsection \<open>The matcher\<close>

fun matchhere :: "cstring \<Rightarrow> cstring \<Rightarrow> bool"
  and matchstar :: "byte \<Rightarrow> cstring \<Rightarrow> cstring \<Rightarrow> bool" where
  "matchhere re text =
    (case re of [] \<Rightarrow> True
     | c # re' \<Rightarrow>
        if re' \<noteq> [] \<and> hd re' = 0x2a then matchstar c (tl re') text
        else if c = 0x24 \<and> re' = [] then text = []
        else if text \<noteq> [] \<and> (c = 0x2e \<or> c = hd text) then matchhere re' (tl text)
        else False)"
| "matchstar c re text =
    (if matchhere re text then True
     else if text \<noteq> [] \<and> (hd text = c \<or> c = 0x2e) then matchstar c re (tl text)
     else False)"

declare matchhere.simps [simp del] matchstar.simps [simp del]

fun match_loop :: "cstring \<Rightarrow> cstring \<Rightarrow> bool" where
  "match_loop re [] = matchhere re []"
| "match_loop re (c # text) = (if matchhere re (c # text) then True else match_loop re text)"

definition match :: "cstring \<Rightarrow> cstring \<Rightarrow> bool" where
  "match re text = (if re \<noteq> [] \<and> hd re = 0x5e then matchhere (tl re) text else match_loop re text)"

subsection \<open>Reading lines\<close>

definition bufsz :: nat where
  "bufsz = 1024"

text \<open>The inner loop: every line end found from \<open>p\<close> on; the result is the output, the buffer and the last \<open>p\<close>.\<close>

function grep_lines :: "cstring \<Rightarrow> byte list \<Rightarrow> nat \<Rightarrow> byte list \<times> byte list \<times> nat" where
  "grep_lines pat buf p =
    (case strchr (cstr (drop p buf)) 0x0a of
       None \<Rightarrow> ([], buf, p)
     | Some k \<Rightarrow>
        let q = p + k; buf = buf[q := 0];
            hit = match pat (cstr (drop p buf));
            buf = (if hit then buf[q := 0x0a] else buf);
            out = (if hit then take (q + 1 - p) (drop p buf) else []);
            (rest, buf, p) = grep_lines pat buf (q + 1)
        in (out @ rest, buf, p))"
  by auto
termination
proof (relation "measure (\<lambda>(pat, buf, p). length buf - p)", simp, goal_cases)
  case (1 pat buf p k)
  have "k < length (cstr (drop p buf))" by (rule strchr_bound [OF 1(1), THEN conjunct1])
  also have "\<dots> \<le> length buf - p" using cstr_length [of "drop p buf"] by simp
  finally show ?case using 1 by auto
qed

declare grep_lines.simps [simp del]

text \<open>The outer loop, with the \<open>m\<close> bytes carried over at the front of the buffer.\<close>

function grep_loop :: "cstring \<Rightarrow> byte list \<Rightarrow> nat \<Rightarrow> rd list \<Rightarrow> byte list" where
  "grep_loop pat buf m inp =
    (case read_fd (bufsz - m - 1) inp of
       (None, inp') \<Rightarrow> []
     | (Some d, inp') \<Rightarrow>
        if d = [] then []
        else let buf = put_at buf m d; m = m + length d; buf = buf[m := 0];
                 (out, buf, p) = grep_lines pat buf 0;
                 m = (if p = 0 then 0 else m);
                 (m, buf) = (if 0 < m then (m - p, put_at buf 0 (take (m - p) (drop p buf))) else (m, buf))
             in out @ grep_loop pat buf m inp')"
  by auto
termination
proof (relation "measure (\<lambda>(pat, buf, m, inp). rd_size inp)", simp, goal_cases)
  case (1 pat buf m inp r inp' d)
  then have "read_fd (bufsz - m - 1) inp = (Some d, inp')" by simp
  with 1(3) show ?case by (simp add: read_fd_smaller)
qed

declare grep_loop.simps [simp del]

definition grep :: "cstring \<Rightarrow> byte list \<Rightarrow> rd list \<Rightarrow> byte list" where
  "grep pat buf inp = grep_loop pat buf 0 inp"

text \<open>
  The program: its arguments after \<open>argv[0]\<close>, what is read from the descriptor of a file that can
  be opened, and the standard input.  The result lists the writes with their descriptors.
\<close>

fun grep_files :: "(cstring \<Rightarrow> rd list option) \<Rightarrow> cstring \<Rightarrow> byte list \<Rightarrow> cstring list \<Rightarrow> (nat \<times> byte list) list" where
  "grep_files opn pat buf [] = []"
| "grep_files opn pat buf (f # fs) =
    (case opn f of
       None \<Rightarrow> [(1, ascii ''grep: cannot open '' @ f @ [0x0a])]
     | Some inp \<Rightarrow> (1, grep pat buf inp) # grep_files opn pat buf fs)"

definition grep_main :: "(cstring \<Rightarrow> rd list option) \<Rightarrow> rd list \<Rightarrow> byte list \<Rightarrow> cstring list \<Rightarrow> (nat \<times> byte list) list" where
  "grep_main opn stdin buf args =
    (case args of
       [] \<Rightarrow> [(2, ascii ''usage: grep pattern [file ...]'' @ [0x0a])]
     | [pat] \<Rightarrow> [(1, grep pat buf stdin)]
     | pat # files \<Rightarrow> grep_files opn pat buf files)"

subsection \<open>What a pattern denotes\<close>

text \<open>
  A pattern as a sequence of items, each one byte or any number of them, and whether it is tied to
  the end of the text.
\<close>

datatype item = One byte | Many byte

definition fits :: "byte \<Rightarrow> byte \<Rightarrow> bool" where
  "fits c x \<longleftrightarrow> c = 0x2e \<or> x = c"

fun items :: "cstring \<Rightarrow> item list" where
  "items [] = []"
| "items [c] = (if c = 0x24 then [] else [One c])"
| "items (c # d # re) = (if d = 0x2a then Many c # items re else One c # items (d # re))"

fun at_end :: "cstring \<Rightarrow> bool" where
  "at_end [] = False"
| "at_end [c] = (c = 0x24)"
| "at_end (c # d # re) = (if d = 0x2a then at_end re else at_end (d # re))"

fun denotes :: "item list \<Rightarrow> cstring \<Rightarrow> bool" where
  "denotes [] w = (w = [])"
| "denotes (One c # is) w = (\<exists>x v. w = x # v \<and> fits c x \<and> denotes is v)"
| "denotes (Many c # is) w = (\<exists>u v. w = u @ v \<and> list_all (fits c) u \<and> denotes is v)"

text \<open>Some prefix of the text is denoted, the whole text if the pattern is tied to its end.\<close>

definition prefix_in :: "item list \<Rightarrow> bool \<Rightarrow> cstring \<Rightarrow> bool" where
  "prefix_in is e text \<longleftrightarrow> (\<exists>w b. text = w @ b \<and> denotes is w \<and> (e \<longrightarrow> b = []))"

lemma prefix_in_Nil [simp]: "prefix_in [] e text \<longleftrightarrow> (e \<longrightarrow> text = [])"
  by (auto simp: prefix_in_def)

lemma prefix_in_One [simp]:
  "prefix_in (One c # is) e text \<longleftrightarrow> text \<noteq> [] \<and> fits c (hd text) \<and> prefix_in is e (tl text)"
  by (cases "text") (auto simp: prefix_in_def Cons_eq_append_conv)

lemma prefix_in_Many:
  "prefix_in (Many c # is) e text \<longleftrightarrow> (\<exists>u v. text = u @ v \<and> list_all (fits c) u \<and> prefix_in is e v)"
proof
  assume "prefix_in (Many c # is) e text"
  then obtain w b where w: "text = w @ b" "denotes (Many c # is) w" "e \<longrightarrow> b = []"
    unfolding prefix_in_def by blast
  obtain u v where "w = u @ v" "list_all (fits c) u" "denotes is v" using w(2) by auto
  with w show "\<exists>u v. text = u @ v \<and> list_all (fits c) u \<and> prefix_in is e v"
    unfolding prefix_in_def by (intro exI [of _ u] exI [of _ "v @ b"]) auto
next
  assume "\<exists>u v. text = u @ v \<and> list_all (fits c) u \<and> prefix_in is e v"
  then obtain u w b where "text = u @ w @ b" "list_all (fits c) u" "denotes is w" "e \<longrightarrow> b = []"
    unfolding prefix_in_def by blast
  then show "prefix_in (Many c # is) e text"
    unfolding prefix_in_def by (intro exI [of _ "u @ w"] exI [of _ b]) auto
qed

lemma prefix_in_Many_step:
  "prefix_in (Many c # is) e text \<longleftrightarrow>
    prefix_in is e text \<or> (text \<noteq> [] \<and> fits c (hd text) \<and> prefix_in (Many c # is) e (tl text))"
  (is "?l \<longleftrightarrow> ?a \<or> ?b")
proof
  assume ?l
  then obtain u v where t: "text = u @ v" "list_all (fits c) u" "prefix_in is e v"
    unfolding prefix_in_Many by blast
  then show "?a \<or> ?b" by (cases u) (auto simp: prefix_in_Many)
next
  assume "?a \<or> ?b"
  then show ?l
  proof
    assume ?a
    then show ?l unfolding prefix_in_Many by (intro exI [of _ "[]"] exI [of _ "text"]) simp
  next
    assume b: ?b
    then obtain u v where "tl text = u @ v" "list_all (fits c) u" "prefix_in is e v"
      unfolding prefix_in_Many by blast
    with b show ?l unfolding prefix_in_Many
      by (intro exI [of _ "hd text # u"] exI [of _ v]) (cases "text"; simp)
  qed
qed

lemma matchhere_shapes:
  "matchhere [] t"
  "matchhere [c] t = (if c = 0x24 then t = [] else t \<noteq> [] \<and> fits c (hd t) \<and> matchhere [] (tl t))"
  "matchhere (c # d # re) t =
    (if d = 0x2a then matchstar c re t else t \<noteq> [] \<and> fits c (hd t) \<and> matchhere (d # re) (tl t))"
  by (simp_all add: matchhere.simps [of "[]"] matchhere.simps [of "[c]"] matchhere.simps [of "c # d # re"] fits_def eq_commute)

lemma matchhere_prefix:
  "matchhere re text \<longleftrightarrow> prefix_in (items re) (at_end re) text"
  "matchstar c re text \<longleftrightarrow> prefix_in (Many c # items re) (at_end re) text"
proof (induction re "text" and c re "text" rule: matchhere_matchstar.induct)
  case (1 re t)
  show ?case
  proof (cases re rule: items.cases)
    case (2 c)
    then show ?thesis by (auto simp: matchhere_shapes)
  next
    case (3 c d re')
    then show ?thesis using 1 by (auto simp: matchhere_shapes fits_def)
  qed (simp add: matchhere_shapes)
next
  case (2 c re t)
  have "matchstar c re t \<longleftrightarrow> matchhere re t \<or> (t \<noteq> [] \<and> fits c (hd t) \<and> matchstar c re (tl t))"
    by (subst matchstar.simps) (auto simp: fits_def)
  also have "\<dots> \<longleftrightarrow> prefix_in (items re) (at_end re) t \<or>
      (t \<noteq> [] \<and> fits c (hd t) \<and> prefix_in (Many c # items re) (at_end re) (tl t))"
    using 2 by (cases "matchhere re t"; cases "t \<noteq> [] \<and> (hd t = c \<or> c = 0x2e)") (auto simp add: fits_def disj_commute)
  also have "\<dots> \<longleftrightarrow> prefix_in (Many c # items re) (at_end re) t"
    by (rule prefix_in_Many_step [symmetric])
  finally show ?case .
qed

lemma match_loop_iff: "match_loop re text \<longleftrightarrow> (\<exists>a t. text = a @ t \<and> matchhere re t)"
  by (induction "text") (auto simp: Cons_eq_append_conv)

definition part_in :: "item list \<Rightarrow> bool \<Rightarrow> bool \<Rightarrow> cstring \<Rightarrow> bool" where
  "part_in is st e text \<longleftrightarrow> (\<exists>a w b. text = a @ w @ b \<and> denotes is w \<and> (st \<longrightarrow> a = []) \<and> (e \<longrightarrow> b = []))"

lemma part_in_prefix:
  "part_in is True e t \<longleftrightarrow> prefix_in is e t"
  "part_in is False e t \<longleftrightarrow> (\<exists>a u. t = a @ u \<and> prefix_in is e u)"
  unfolding part_in_def prefix_in_def by (metis append_Nil) blast

text \<open>
  C27: the matcher of grep decides the language of the pattern: it accepts a text exactly when some
  part of the text is denoted by the items of the pattern, at the start of the text if the pattern
  begins with a caret and at its end if it closes with a dollar sign.
\<close>

theorem match_decides_language:
  "match re text \<longleftrightarrow>
    (let anchored = (re \<noteq> [] \<and> hd re = 0x5e); body = (if anchored then tl re else re)
     in part_in (items body) anchored (at_end body) text)"
proof (cases "re \<noteq> [] \<and> hd re = 0x5e")
  case True
  then show ?thesis unfolding match_def matchhere_prefix Let_def by (simp only: if_True simp_thms part_in_prefix)
next
  case False
  then show ?thesis
    unfolding match_def match_loop_iff matchhere_prefix Let_def by (simp only: if_False simp_thms part_in_prefix)
qed

subsection \<open>The lines printed\<close>

text \<open>The complete lines of a text, without their ends, and what follows the last line end.\<close>

fun split_nl :: "byte list \<Rightarrow> byte list list \<times> byte list" where
  "split_nl [] = ([], [])"
| "split_nl (c # t) =
    (let (ls, r) = split_nl t
     in if c = 0x0a then ([] # ls, r) else case ls of [] \<Rightarrow> ([], c # r) | l # ls' \<Rightarrow> ((c # l) # ls', r))"

definition lines_out :: "cstring \<Rightarrow> byte list list \<Rightarrow> byte list" where
  "lines_out pat ls = concat (map (\<lambda>l. l @ [0x0a]) (filter (match pat) ls))"

lemma lines_out_simps [simp]:
  "lines_out pat [] = []"
  "lines_out pat (l # ls) = (if match pat l then l @ [0x0a] else []) @ lines_out pat ls"
  "lines_out pat (ls @ ls') = lines_out pat ls @ lines_out pat ls'"
  by (simp_all add: lines_out_def)

text \<open>The two parts determine the text and are determined by it.\<close>

lemma split_nl_text:
  assumes "split_nl t = (ls, r)"
  shows "concat (map (\<lambda>l. l @ [0x0a]) ls) @ r = t" "\<forall>l\<in>set ls. 0x0a \<notin> set l" "0x0a \<notin> set r"
  using assms by (induction t arbitrary: ls r) (auto split: prod.splits if_splits list.splits)

lemma split_nl_none: "0x0a \<notin> set t \<Longrightarrow> split_nl t = ([], t)"
  by (induction t) auto

lemma split_nl_line:
  "0x0a \<notin> set l \<Longrightarrow> split_nl (l @ 0x0a # t) = (l # fst (split_nl t), snd (split_nl t))"
  by (induction l) (auto split: prod.splits)

lemma split_nl_has_line: "0x0a \<in> set t \<Longrightarrow> fst (split_nl t) \<noteq> []"
  by (induction t) (auto split: prod.splits list.splits)

lemma split_nl_cases:
  obtains "0x0a \<notin> set t" | l t' where "t = l @ 0x0a # t'" "0x0a \<notin> set l"
  using split_list_first [of "0x0a" t] by blast

lemma split_nl_append:
  "split_nl (s @ t) = (fst (split_nl s) @ fst (split_nl (snd (split_nl s) @ t)), snd (split_nl (snd (split_nl s) @ t)))"
proof (induction s rule: measure_induct_rule [of length])
  case (less s)
  show ?case
  proof (cases rule: split_nl_cases [of s])
    case 1
    then show ?thesis by (simp add: split_nl_none)
  next
    case (2 l s')
    then show ?thesis using less [of s'] by (simp add: split_nl_line)
  qed
qed

lemma split_nl_rest:
  assumes "split_nl t = (ls, r)"
  shows "length r \<le> length t" "set r \<subseteq> set t" "0x0a \<notin> set r"
proof -
  have t: "concat (map (\<lambda>l. l @ [0x0a]) ls) @ r = t" by (rule split_nl_text(1) [OF assms])
  show "length r \<le> length t" "set r \<subseteq> set t" unfolding t [symmetric] by auto
  show "0x0a \<notin> set r" by (rule split_nl_text(3) [OF assms])
qed

lemma split_nl_after_line:
  assumes "0x0a \<in> set d" "0x0a \<notin> set c"
  shows "snd (split_nl (c @ d)) = snd (split_nl d)" "length (snd (split_nl d)) < length d"
proof -
  obtain l d' where d: "d = l @ 0x0a # d'" "0x0a \<notin> set l"
    using split_list_first [OF assms(1)] by blast
  have "split_nl ((c @ l) @ 0x0a # d') = ((c @ l) # fst (split_nl d'), snd (split_nl d'))"
    using assms(2) d(2) by (intro split_nl_line) simp
  then show "snd (split_nl (c @ d)) = snd (split_nl d)" using d by (simp add: split_nl_line)
  have "length (snd (split_nl d')) \<le> length d'" using split_nl_rest(1) [of d'] by (cases "split_nl d'") auto
  then show "length (snd (split_nl d)) < length d" using d by (simp add: split_nl_line)
qed

lemma grep_lines_split:
  assumes "drop p buf = t @ 0 # r" "0 \<notin> set t"
  shows "\<exists>buf' p'. grep_lines pat buf p = (lines_out pat (fst (split_nl t)), buf', p') \<and>
    length buf' = length buf \<and> p' + length (snd (split_nl t)) = p + length t \<and>
    drop p' buf' = snd (split_nl t) @ 0 # r"
  using assms
proof (induction t arbitrary: p buf rule: measure_induct_rule [of length])
  case (less t)
  have c: "cstr (drop p buf) = t" using less.prems by (simp add: cstr_zero)
  show ?case
  proof (cases rule: split_nl_cases [of t])
    case 1
    then show ?thesis
      using less.prems c strchr_None [of t "0x0a"] by (subst grep_lines.simps) (simp add: split_nl_none)
  next
    case (2 l t')
    define q where "q = p + length l"
    define b1 where "b1 = buf[q := 0]"
    define b2 where "b2 = (if match pat l then b1[q := 0x0a] else b1)"
    have d1: "drop p b1 = l @ 0 # t' @ 0 # r"
      using less.prems 2 unfolding b1_def q_def by (simp add: drop_update_swap list_update_append)
    have l0: "0 \<notin> set l" "0 \<notin> set t'" using less.prems 2 by auto
    have len: "q + 1 \<le> length buf"
      using arg_cong [OF less.prems(1), of length] 2 unfolding q_def by simp
    have d2: "drop (q + 1) b2 = t' @ 0 # r"
    proof -
      have "drop (q + 1) b2 = drop (q + 1) buf" unfolding b2_def b1_def by (simp add: drop_update_cancel)
      also have "\<dots> = drop (length l + 1) (drop p buf)" by (simp add: q_def add.commute add.left_commute)
      finally show ?thesis using less.prems 2 by simp
    qed
    have len2: "length b2 = length buf" unfolding b2_def b1_def by simp
    obtain buf' p' where rec: "grep_lines pat b2 (q + 1) = (lines_out pat (fst (split_nl t')), buf', p')"
      "length buf' = length b2" "p' + length (snd (split_nl t')) = q + 1 + length t'"
      "drop p' buf' = snd (split_nl t') @ 0 # r"
      using less.IH [of t' "q + 1" b2, OF _ d2] l0 2 by auto
    have out: "take (q + 1 - p) (drop p (b1[q := 0x0a])) = l @ [0x0a]"
      using d1 unfolding q_def by (simp add: drop_update_swap list_update_append)
    have "grep_lines pat buf p =
        ((if match pat l then l @ [0x0a] else []) @ lines_out pat (fst (split_nl t')), buf', p')"
      using rec(1) out 2 c d1 l0 unfolding b2_def
      by (subst grep_lines.simps) (auto simp: strchr_first cstr_zero Let_def b1_def [symmetric] q_def [symmetric])
    then show ?thesis using rec len2 2 unfolding q_def by (simp add: split_nl_line)
  qed
qed

text \<open>One round of the outer loop: a read that brings no line end is forgotten, carry-over included.\<close>

definition carry :: "byte list list \<Rightarrow> byte list \<Rightarrow> byte list" where
  "carry ls r = (if ls = [] then [] else r)"

lemma grep_loop_step:
  assumes "length buf = bufsz" "take (length c) buf = c" "read_fd (bufsz - length c - 1) inp = (Some d, inp')"
    "d \<noteq> []" "length c + length d < bufsz" "0 \<notin> set c" "0 \<notin> set d" "split_nl (c @ d) = (ls, r)"
  shows "\<exists>buf'. grep_loop pat buf (length c) inp =
      lines_out pat ls @ grep_loop pat buf' (length (carry ls r)) inp' \<and>
    length buf' = bufsz \<and> take (length (carry ls r)) buf' = carry ls r"
proof -
  define m where "m = length c + length d"
  define b1 where "b1 = (put_at buf (length c) d)[m := 0]"
  have l1: "length b1 = bufsz" unfolding b1_def using assms(1,5) by simp
  have "b1 = (c @ d) @ 0 # drop (m + 1) buf"
    using assms(1,2,5) unfolding b1_def put_at_def m_def
    by (simp add: list_update_append Cons_nth_drop_Suc [symmetric])
  then have d1: "drop 0 b1 = (c @ d) @ 0 # drop (m + 1) buf" by simp
  have "0 \<notin> set (c @ d)" using assms(6,7) by simp
  from grep_lines_split [OF d1 this, of pat] obtain b2 p where g:
    "grep_lines pat b1 0 = (lines_out pat ls, b2, p)" "length b2 = bufsz" "p + length r = m"
    "drop p b2 = r @ 0 # drop (m + 1) buf"
    using assms(8) l1 by (auto simp: m_def)
  have cat: "concat (map (\<lambda>l. l @ [0x0a]) ls) @ r = c @ d" by (rule split_nl_text(1) [OF assms(8)])
  have "length (concat (map (\<lambda>l. l @ [0x0a]) ls)) + length r = m"
    using arg_cong [OF cat, of length] by (simp add: m_def)
  then have p: "p = length (concat (map (\<lambda>l. l @ [0x0a]) ls))" using g(3) by simp
  then have p0: "p = 0 \<longleftrightarrow> ls = []" by (cases ls) auto
  have m0: "0 < m" using assms(4) by (simp add: m_def)
  define b3 where "b3 = (if ls = [] then b2 else put_at b2 0 (take (m - p) (drop p b2)))"
  have mp: "m - p = length r" using g(3) by simp
  have "grep_loop pat buf (length c) inp = lines_out pat ls @ grep_loop pat b3 (length (carry ls r)) inp'"
    using assms(3,4) g(1) p0 m0 mp
    by (subst grep_loop.simps) (simp add: Let_def b1_def m_def b3_def carry_def)
  moreover have "length b3 = bufsz" using g(2,3) assms(5) unfolding b3_def m_def by simp
  moreover have "take (length (carry ls r)) b3 = carry ls r"
    unfolding b3_def carry_def using g(4) mp by (simp add: put_at_def)
  ultimately show ?thesis by blast
qed

lemma read_fd_whole: "length d \<le> n \<Longrightarrow> read_fd n (Data d # inp) = (Some d, inp)"
  by simp

lemma grep_loop_lines:
  assumes "length buf = bufsz" "take (length c) buf = c" "0 \<notin> set c" "0x0a \<notin> set c" "length c \<le> 511"
    "list_all (\<lambda>d. 0x0a \<in> set d \<and> 0 \<notin> set d \<and> length d \<le> 512) ds"
  shows "grep_loop pat buf (length c) (map Data ds) = lines_out pat (fst (split_nl (c @ concat ds)))"
  using assms
proof (induction ds arbitrary: buf c)
  case Nil
  then show ?case by (subst grep_loop.simps) (simp add: split_nl_none)
next
  case (Cons d ds)
  obtain ls r where s: "split_nl (c @ d) = (ls, r)" by fastforce
  have "0x0a \<in> set (c @ d)" using Cons.prems(6) by simp
  then have ls: "ls \<noteq> []" using split_nl_has_line [of "c @ d"] s by simp
  have sd: "split_nl d = (fst (split_nl d), snd (split_nl d))" by simp
  have r: "r = snd (split_nl d)" "length r < length d" "0x0a \<notin> set r"
    using split_nl_after_line [of d c] s Cons.prems(4,6) split_nl_rest(3) [OF s] by simp_all
  then have rr: "length r < length d" "0 \<notin> set r" "0x0a \<notin> set r"
    using split_nl_rest(2) [OF sd] Cons.prems(6) by auto
  have rd: "read_fd (bufsz - length c - 1) (Data d # map Data ds) = (Some d, map Data ds)"
    using Cons.prems(5,6) by (intro read_fd_whole) (auto simp: bufsz_def)
  have d: "d \<noteq> []" "length c + length d < bufsz" "0 \<notin> set d" using Cons.prems(5,6) by (auto simp: bufsz_def)
  obtain buf' where b: "grep_loop pat buf (length c) (Data d # map Data ds) =
      lines_out pat ls @ grep_loop pat buf' (length r) (map Data ds)" "length buf' = bufsz" "take (length r) buf' = r"
    using grep_loop_step [OF Cons.prems(1,2) rd d(1,2) Cons.prems(3) d(3) s, of pat] ls by (auto simp: carry_def)
  have "grep_loop pat buf' (length r) (map Data ds) = lines_out pat (fst (split_nl (r @ concat ds)))"
    using Cons.prems(6) rr by (intro Cons.IH [OF b(2,3)]) auto
  then show ?case using b(1) s split_nl_append [of "c @ d" "concat ds"] by simp
qed

text \<open>
  C29: when every read brings at least one line end, is no longer than half the buffer and holds no
  zero byte, grep writes exactly the complete lines of the input that match the pattern, in their
  order, whatever way the reads cut the input.
\<close>

theorem grep_prints_matching_lines:
  assumes "length buf = bufsz" "list_all (\<lambda>d. 0x0a \<in> set d \<and> 0 \<notin> set d \<and> length d \<le> 512) ds"
  shows "grep pat buf (map Data ds) = lines_out pat (fst (split_nl (concat ds)))"
  using grep_loop_lines [of buf "[]" ds pat] assms by (simp add: grep_def)

lemmas match_eval = match_def matchhere_shapes matchstar.simps fits_def

theorem grep_prints_matching_lines_witness:
  "grep [0x61, 0x2e] (replicate bufsz 0) (map Data [[0x62, 0x0a, 0x62], [0x61, 0x62, 0x0a], [0x61, 0x0a]]) =
    [0x62, 0x61, 0x62, 0x0a]"
  using grep_prints_matching_lines [of "replicate bufsz 0" "[[0x62, 0x0a, 0x62], [0x61, 0x62, 0x0a], [0x61, 0x0a]]" "[0x61, 0x2e]"]
  by (simp add: match_eval)

text \<open>
  C30: a read that brings no line end is dropped together with what was carried over: the start of
  the line it holds is lost, and only the rest of that line is matched and printed.
\<close>

theorem grep_forgets_unfinished_line:
  assumes "length buf = bufsz" "list_all (\<lambda>d. 0x0a \<in> set d \<and> 0 \<notin> set d \<and> length d \<le> 512) ds"
    "d \<noteq> []" "0x0a \<notin> set d" "0 \<notin> set d" "length d < bufsz"
  shows "grep pat buf (map Data (d # ds)) = lines_out pat (fst (split_nl (concat ds)))"
proof -
  have rd: "read_fd (bufsz - length [] - 1) (Data d # map Data ds) = (Some d, map Data ds)"
    using assms(6) by (intro read_fd_whole) (auto simp: bufsz_def)
  obtain buf' where b: "grep_loop pat buf 0 (Data d # map Data ds) = grep_loop pat buf' 0 (map Data ds)"
    "length buf' = bufsz"
    using grep_loop_step [OF assms(1) _ rd assms(3) _ _ assms(5), of "[]" d pat] assms(4,6)
    by (auto simp: carry_def split_nl_none)
  then show ?thesis using grep_loop_lines [of buf' "[]" ds pat] assms(2) by (simp add: grep_def)
qed

theorem grep_forgets_unfinished_line_witness:
  "grep [0x61, 0x62] (replicate bufsz 0) (map Data [[0x61], [0x62, 0x0a]]) = [] \<and>
    grep [0x61, 0x62] (replicate bufsz 0) (map Data [[0x61, 0x62, 0x0a]]) = [0x61, 0x62, 0x0a]"
  using grep_forgets_unfinished_line [of "replicate bufsz 0" "[[0x62, 0x0a]]" "[0x61]" "[0x61, 0x62]"]
    grep_loop_lines [of "replicate bufsz 0" "[]" "[[0x61, 0x62, 0x0a]]" "[0x61, 0x62]"]
  by (simp add: match_eval grep_def bufsz_def)

end
