(* ===== verification/Xv6_Umalloc.thy ===== *)
theory Xv6_Umalloc
  imports Xv6_Prelude
begin

text \<open>
  The allocator of user programs (umalloc.c).  A header is a union of eight bytes; blocks are
  aligned, so the two fields of the header at an address are two maps.  The break of the process
  is what \<open>sbrk\<close> (sysproc.c) returns and moves.
\<close>

record umem =
  hptr :: "uint \<Rightarrow> uint"
  hsize :: "uint \<Rightarrow> uint"
  base :: uint
  freep :: uint
  brk :: uint

definition sbrk :: "uint \<Rightarrow> umem \<Rightarrow> uint \<times> umem" where
  "sbrk n s = (brk s, s\<lparr>brk := brk s + n\<rparr>)"

subsection \<open>Operations\<close>

definition here :: "umem \<Rightarrow> uint \<Rightarrow> uint \<Rightarrow> bool" where
  "here s bp p \<longleftrightarrow> (bp > p \<and> bp < hptr s p) \<or> (p \<ge> hptr s p \<and> (bp > p \<or> bp < hptr s p))"

partial_function (option) free_find :: "umem \<Rightarrow> uint \<Rightarrow> uint \<Rightarrow> uint option" where
  "free_find s bp p = (if here s bp p then Some p else free_find s bp (hptr s p))"

definition join_next :: "uint \<Rightarrow> uint \<Rightarrow> umem \<Rightarrow> umem" where
  "join_next bp p s =
    (if bp + 8 * hsize s bp = hptr s p
     then s\<lparr>hsize := (hsize s)(bp := hsize s bp + hsize s (hptr s p)), hptr := (hptr s)(bp := hptr s (hptr s p))\<rparr>
     else s\<lparr>hptr := (hptr s)(bp := hptr s p)\<rparr>)"

definition join_prev :: "uint \<Rightarrow> uint \<Rightarrow> umem \<Rightarrow> umem" where
  "join_prev bp p s =
    (if p + 8 * hsize s p = bp
     then s\<lparr>hsize := (hsize s)(p := hsize s p + hsize s bp), hptr := (hptr s)(p := hptr s bp)\<rparr>
     else s\<lparr>hptr := (hptr s)(p := bp)\<rparr>)"

definition free :: "uint \<Rightarrow> umem \<Rightarrow> umem option" where
  "free ap s =
    (let bp = ap - 8
     in map_option (\<lambda>p. (join_prev bp p (join_next bp p s))\<lparr>freep := p\<rparr>) (free_find s bp (freep s)))"

definition morecore :: "uint \<Rightarrow> umem \<Rightarrow> (uint \<times> umem) option" where
  "morecore nu s =
    (let nu = (if nu < 4096 then 4096 else nu); (p, s) = sbrk (nu * 8) s
     in if p = - 1 then Some (0, s)
        else map_option (\<lambda>s. (freep s, s)) (free (p + 8) (s\<lparr>hsize := (hsize s)(p := nu)\<rparr>)))"

definition carve :: "uint \<Rightarrow> uint \<Rightarrow> uint \<Rightarrow> umem \<Rightarrow> uint \<times> umem" where
  "carve nunits prevp p s =
    (if hsize s p = nunits then (p + 8, s\<lparr>hptr := (hptr s)(prevp := hptr s p), freep := prevp\<rparr>)
     else let sz = hsize s p - nunits; q = p + 8 * sz
          in (q + 8, s\<lparr>hsize := (hsize s)(p := sz, q := nunits), freep := prevp\<rparr>))"

partial_function (option) malloc_loop :: "uint \<Rightarrow> uint \<Rightarrow> uint \<Rightarrow> umem \<Rightarrow> (uint \<times> umem) option" where
  "malloc_loop nunits prevp p s =
    (if hsize s p \<ge> nunits then Some (carve nunits prevp p s)
     else if p = freep s then
       (case morecore nunits s of
          None \<Rightarrow> None
        | Some (p, s) \<Rightarrow> if p = 0 then Some (0, s) else malloc_loop nunits p (hptr s p) s)
     else malloc_loop nunits p (hptr s p) s)"

definition units :: "uint \<Rightarrow> uint" where
  "units nbytes = (nbytes + 8 - 1) div 8 + 1"

definition ensure_base :: "umem \<Rightarrow> umem" where
  "ensure_base s =
    (if freep s = 0
     then s\<lparr>freep := base s, hptr := (hptr s)(base s := base s), hsize := (hsize s)(base s := 0)\<rparr>
     else s)"

definition malloc :: "uint \<Rightarrow> umem \<Rightarrow> (uint \<times> umem) option" where
  "malloc nbytes s =
    (let nunits = units nbytes; s = ensure_base s; prevp = freep s
     in malloc_loop nunits prevp (hptr s prevp) s)"

subsection \<open>The free list\<close>

text \<open>
  The list of free blocks \<open>L\<close>, in the order of addresses: it starts at the base header, is linked
  in a circle, and no two blocks touch; every block lies below the break.
\<close>

fun linked :: "(uint \<Rightarrow> uint) \<Rightarrow> uint list \<Rightarrow> uint \<Rightarrow> bool" where
  "linked h [] z = True"
| "linked h (x # xs) z = (h x = hd (xs @ [z]) \<and> linked h xs z)"

definition stop :: "(uint \<Rightarrow> uint) \<Rightarrow> uint \<Rightarrow> nat" where
  "stop sz x = unat x + 8 * unat (sz x)"

fun apart :: "(uint \<Rightarrow> uint) \<Rightarrow> uint list \<Rightarrow> nat \<Rightarrow> bool" where
  "apart sz [] hi = True"
| "apart sz (x # xs) hi = (stop sz x < hd (map unat xs @ [hi]) \<and> apart sz xs hi)"

definition seg :: "(uint \<Rightarrow> uint) \<Rightarrow> uint \<Rightarrow> nat set" where
  "seg sz x = {unat x ..< stop sz x}"

definition free_bytes :: "umem \<Rightarrow> uint list \<Rightarrow> nat set" where
  "free_bytes s L = (\<Union>x\<in>set L. seg (hsize s) x)"

definition ulist :: "umem \<Rightarrow> uint list \<Rightarrow> bool" where
  "ulist s L \<longleftrightarrow> base s \<noteq> 0 \<and> hsize s (base s) = 0 \<and> L \<noteq> [] \<and> hd L = base s \<and> freep s \<in> set L \<and>
    linked (hptr s) L (base s) \<and> apart (hsize s) L (unat (brk s) + 1) \<and>
    list_all (\<lambda>x. 0 < unat (hsize s x)) (tl L) \<and> unat (base s) < unat (brk s)"

lemma linked_append [simp]: "linked h (xs @ ys) z \<longleftrightarrow> linked h xs (hd (ys @ [z])) \<and> linked h ys z"
  by (induction xs) (auto simp: hd_append)

lemma linked_upd [simp]: "x \<notin> set xs \<Longrightarrow> linked (h(x := v)) xs z \<longleftrightarrow> linked h xs z"
  by (induction xs) auto

lemma apart_append [simp]:
  "apart sz (xs @ ys) hi \<longleftrightarrow> apart sz xs (hd (map unat ys @ [hi])) \<and> apart sz ys hi"
  by (induction xs) (auto simp: hd_append)

lemma stop_upd [simp]: "stop (sz(x := v)) y = (if x = y then unat x + 8 * unat v else stop sz y)"
  by (simp add: stop_def)

lemma seg_upd [simp]: "x \<noteq> y \<Longrightarrow> seg (sz(x := v)) y = seg sz y"
  by (simp add: seg_def)

lemma segs_upd [simp]: "x \<notin> X \<Longrightarrow> (\<Union>y\<in>X. seg (sz(x := v)) y) = (\<Union>y\<in>X. seg sz y)"
  by (intro SUP_cong refl seg_upd) blast

lemma apart_upd [simp]: "x \<notin> set xs \<Longrightarrow> apart (sz(x := v)) xs hi \<longleftrightarrow> apart sz xs hi"
  by (induction xs) auto

lemma stop_ge: "unat x \<le> stop sz x"
  by (simp add: stop_def)

lemma apart_less: "apart sz xs hi \<Longrightarrow> x \<in> set xs \<Longrightarrow> stop sz x < hi"
proof (induction xs arbitrary: x)
  case (Cons y ys)
  show ?case
  proof (cases ys)
    case (Cons z zs)
    have "stop sz z < hi" using Cons.IH [of z] Cons.prems \<open>ys = z # zs\<close> by simp
    with Cons.prems Cons.IH [of x] \<open>ys = z # zs\<close> stop_ge [of z sz] show ?thesis by auto
  qed (use Cons.prems in auto)
qed simp

lemma apart_after: "apart sz (x # xs) hi \<Longrightarrow> y \<in> set xs \<Longrightarrow> stop sz x < unat y"
proof (induction xs arbitrary: x)
  case (Cons z zs)
  then show ?case by (auto intro: less_trans le_less_trans [OF stop_ge])
qed simp


lemma apart_order:
  assumes "apart sz (C @ x # D) hi"
  shows "y \<in> set C \<Longrightarrow> stop sz y < unat x" "y \<in> set D \<Longrightarrow> stop sz x < unat y" "stop sz x < hi"
  using assms apart_less [of sz C "unat x" y] apart_after [of sz x D hi y] apart_less [of sz "x # D" hi x] by auto

lemma ulist_hptr: "ulist s (C @ x # D) \<Longrightarrow> hptr s x = hd (D @ [base s])"
  by (simp add: ulist_def)

lemma ulist_apart: "ulist s L \<Longrightarrow> apart (hsize s) L (unat (brk s) + 1)"
  by (simp add: ulist_def)

lemma ulist_base_first:
  assumes "ulist s L" "x \<in> set L"
  shows "unat (base s) \<le> unat x" "x \<noteq> base s \<Longrightarrow> 0 < unat (hsize s x)" "x \<noteq> base s \<Longrightarrow> unat (base s) < unat x"
proof -
  obtain xs where L: "L = base s # xs" using assms(1) by (cases L) (auto simp: ulist_def)
  have "x \<in> set xs \<Longrightarrow> unat (base s) < unat x"
    using apart_after [of "hsize s" "base s" xs _ x] ulist_apart [OF assms(1)] L stop_ge [of "base s" "hsize s"]
    by (metis le_less_trans)
  then show "unat (base s) \<le> unat x" "x \<noteq> base s \<Longrightarrow> unat (base s) < unat x" using assms(2) L by auto
  show "x \<noteq> base s \<Longrightarrow> 0 < unat (hsize s x)" using assms L by (auto simp: ulist_def list_all_iff)
qed

text \<open>
  Where a block goes: \<open>bp\<close> lies after the free block \<open>q\<close> and before the following ones.
\<close>

definition gap :: "umem \<Rightarrow> uint \<Rightarrow> uint list \<Rightarrow> uint \<Rightarrow> uint list \<Rightarrow> bool" where
  "gap s bp A q B \<longleftrightarrow> ulist s (A @ q # B) \<and> 0 < unat (hsize s bp) \<and> bp \<noteq> base s \<and>
    stop (hsize s) q \<le> unat bp \<and> stop (hsize s) bp < hd (map unat B @ [unat (brk s)]) + 1"

lemma gap_order:
  assumes "gap s bp A q B"
  shows "x \<in> set A \<Longrightarrow> unat x < unat q" "unat q < unat bp" "y \<in> set B \<Longrightarrow> stop (hsize s) bp \<le> unat y"
    "unat (base s) < unat bp" "stop (hsize s) bp \<le> unat (brk s)" "unat bp < stop (hsize s) bp"
proof -
  have u: "ulist s (A @ q # B)" and pos: "0 < unat (hsize s bp)" and nb: "bp \<noteq> base s"
    and q: "stop (hsize s) q \<le> unat bp" and e: "stop (hsize s) bp < hd (map unat B @ [unat (brk s)]) + 1"
    using assms by (auto simp: gap_def)
  note o = apart_order [OF ulist_apart [OF u]]
  show "x \<in> set A \<Longrightarrow> unat x < unat q" using o(1) [of x] stop_ge [of x "hsize s"] by simp
  have qb: "unat q \<le> unat bp" using q stop_ge [of q "hsize s"] by simp
  show "unat q < unat bp"
  proof (cases "q = base s")
    case True
    then have "unat q \<noteq> unat bp" using nb by (simp add: word_unat_eq_iff)
    with qb show ?thesis by simp
  next
    case False
    then show ?thesis using ulist_base_first(2) [OF u, of q] q by (simp add: stop_def)
  qed
  then show "unat (base s) < unat bp" using ulist_base_first(1) [OF u, of q] by simp
  show "unat bp < stop (hsize s) bp" using pos by (simp add: stop_def)
  show y: "stop (hsize s) bp \<le> unat y" if "y \<in> set B" for y
  proof (cases B)
    case (Cons b B')
    have ap: "apart (hsize s) (b # B') (unat (brk s) + 1)" using ulist_apart [OF u] Cons by simp
    have "unat b \<le> unat y"
      using that apart_after [OF ap, of y] stop_ge [of b "hsize s"] Cons by auto
    with e Cons show ?thesis by simp
  qed (use that in simp)
  show "stop (hsize s) bp \<le> unat (brk s)"
  proof (cases B)
    case (Cons b B')
    have "stop (hsize s) b < unat (brk s) + 1" 
      using apart_less [OF ulist_apart [OF u], of b] Cons by simp
    with y [of b] Cons stop_ge [of b "hsize s"] show ?thesis by simp
  qed (use e in simp)
qed

lemma free_find_skip:
  "list_all (\<lambda>x. \<not> here s bp x) xs \<Longrightarrow> linked (hptr s) xs z \<Longrightarrow>
    free_find s bp (hd (xs @ [z])) = free_find s bp z"
proof (induction xs)
  case (Cons x xs)
  then show ?case by (simp add: free_find.simps [of s bp x])
qed simp

lemma gap_here: "gap s bp A q B \<Longrightarrow> here s bp q"
  using gap_order [of s bp A q B] ulist_hptr [of s A q B] ulist_base_first(1) [of s "A @ q # B" q]
  by (cases B) (auto simp: here_def gap_def word_less_nat_alt word_le_nat_alt)

lemma gap_not_here:
  assumes g: "gap s bp A q B" and x: "x \<in> set A \<union> set B"
  shows "\<not> here s bp x"
proof -
  have u: "ulist s (A @ q # B)" using g by (simp add: gap_def)
  from x show ?thesis
  proof
    assume "x \<in> set A"
    then obtain C D where A: "A = C @ x # D" by (meson split_list)
    define y where "y = hd ((D @ q # B) @ [base s])"
    have y: "hptr s x = y" using ulist_hptr [of s C x "D @ q # B"] u A unfolding y_def by simp
    have yq: "y \<in> set D \<union> {q}" unfolding y_def by (cases D) auto
    have "unat x < unat y"
      using apart_order(2) [of "hsize s" C x "D @ q # B" _ y] ulist_apart [OF u] A yq stop_ge [of x "hsize s"]
      by fastforce
    moreover have "unat y \<le> unat q" using yq A gap_order(1) [OF g, of y] by auto
    ultimately show ?thesis using gap_order(2) [OF g] y by (simp add: here_def word_less_nat_alt word_le_nat_alt)
  next
    assume "x \<in> set B"
    then obtain C D where B: "B = C @ x # D" by (meson split_list)
    have y: "hptr s x = hd (D @ [base s])" using ulist_hptr [of s "A @ q # C" x D] u B by simp
    have bx: "unat bp < unat x" using gap_order(3) [OF g \<open>x \<in> set B\<close>] gap_order(6) [OF g] by simp
    show ?thesis
    proof (cases D)
      case Nil
      then show ?thesis using y bx gap_order(4) [OF g] by (simp add: here_def word_less_nat_alt word_le_nat_alt)
    next
      case (Cons d D')
      then have "unat x < unat d"
        using apart_order(2) [of "hsize s" "A @ q # C" x D _ d] ulist_apart [OF u] B stop_ge [of x "hsize s"] by fastforce
      then show ?thesis using y bx Cons by (simp add: here_def word_less_nat_alt word_le_nat_alt)
    qed
  qed
qed

lemma gap_find:
  assumes g: "gap s bp A q B" and p: "p \<in> set (A @ q # B)"
  shows "free_find s bp p = Some q"
proof -
  have u: "ulist s (A @ q # B)" using g by (simp add: gap_def)
  have here: "free_find s bp q = Some q" using gap_here [OF g] by (simp add: free_find.simps [of s bp q])
  have skip: "free_find s bp (hd (xs @ [z])) = free_find s bp z" if "set xs \<subseteq> set A \<union> set B" "linked (hptr s) xs z" for xs z
    using that gap_not_here [OF g] by (intro free_find_skip) (auto simp: list_all_iff)
  have A: "free_find s bp x = Some q" if x: "x \<in> set A" for x
  proof -
    obtain C D where A: "A = C @ x # D" using split_list [OF x] by blast
    have "free_find s bp (hd ((x # D) @ [q])) = free_find s bp q"
      using u A by (intro skip) (auto simp: ulist_def hd_append split: if_splits)
    with here show ?thesis by simp
  qed
  have B: "free_find s bp x = Some q" if x: "x \<in> set B" for x
  proof -
    obtain C D where B: "B = C @ x # D" using split_list [OF x] by blast
    have "free_find s bp (hd ((x # D) @ [base s])) = free_find s bp (base s)"
      using u B by (intro skip) (auto simp: ulist_def)
    moreover have "base s \<in> set A \<union> {q}" using u by (cases A) (auto simp: ulist_def)
    ultimately show ?thesis using A here by auto
  qed
  show ?thesis using p A B here by auto
qed

subsection \<open>Freeing\<close>

lemma stop_word:
  assumes "stop sz x < 2 ^ 32"
  shows "x + 8 * sz x = y \<longleftrightarrow> stop sz x = unat y"
proof -
  have "unat (8 * sz x) = 8 * unat (sz x)"
    using assms by (simp add: stop_def unat_mult_lem [THEN iffD1])
  then have "unat (x + 8 * sz x) = stop sz x"
    using assms by (simp add: stop_def unat_add_lem [THEN iffD1])
  then show ?thesis by (metis word_unat_eq_iff)
qed

text \<open>The list while the freed block hangs on it: linked to what follows, not yet from \<open>q\<close>.\<close>

definition hang :: "umem \<Rightarrow> uint \<Rightarrow> uint list \<Rightarrow> uint \<Rightarrow> uint list \<Rightarrow> bool" where
  "hang s bp A q B \<longleftrightarrow> base s \<noteq> 0 \<and> hsize s (base s) = 0 \<and> hd (A @ [q]) = base s \<and>
    linked (hptr s) A q \<and> linked (hptr s) (bp # B) (base s) \<and>
    apart (hsize s) A (unat q) \<and> stop (hsize s) q \<le> unat bp \<and> unat q < unat bp \<and>
    apart (hsize s) (bp # B) (unat (brk s) + 1) \<and>
    list_all (\<lambda>x. 0 < unat (hsize s x)) (tl (A @ [q]) @ bp # B) \<and> unat (base s) < unat (brk s)"

lemma gap_notin:
  assumes g: "gap s bp A q B"
  shows "bp \<notin> set A" "bp \<noteq> q" "bp \<notin> set B" "q \<notin> set A" "q \<notin> set B" "base s \<notin> set B"
proof -
  note o = gap_order [OF g]
  show "bp \<notin> set A" using o(1) [of bp] o(2) by fastforce
  show "bp \<noteq> q" using o(2) by blast
  show "bp \<notin> set B" using o(3) [of bp] o(6) by fastforce
  show "q \<notin> set A" using o(1) [of q] by blast
  show "q \<notin> set B" using o(3) [of q] o(2,6) by fastforce
  show "base s \<notin> set B" using o(3) [of "base s"] o(4,6) by fastforce
qed

lemma gap_parts:
  assumes g: "gap s bp A q B"
  shows "base s \<noteq> 0" "hsize s (base s) = 0" "hd (A @ [q]) = base s" "linked (hptr s) A q"
    "hptr s q = hd (B @ [base s])" "linked (hptr s) B (base s)"
    "apart (hsize s) A (unat q)" "stop (hsize s) q \<le> unat bp" "apart (hsize s) B (unat (brk s) + 1)"
    "list_all (\<lambda>x. 0 < unat (hsize s x)) (tl (A @ [q]) @ bp # B)" "stop (hsize s) bp < 2 ^ 32"
    "unat (base s) < unat (brk s)"
proof -
  have u: "ulist s (A @ q # B)" and e: "stop (hsize s) q \<le> unat bp" "0 < unat (hsize s bp)" using g by (auto simp: gap_def)
  show "base s \<noteq> 0" "hsize s (base s) = 0" "hd (A @ [q]) = base s" "unat (base s) < unat (brk s)" using u by (auto simp: ulist_def hd_append)
  show "linked (hptr s) A q" "hptr s q = hd (B @ [base s])" "linked (hptr s) B (base s)" using u by (auto simp: ulist_def)
  show "apart (hsize s) A (unat q)" "apart (hsize s) B (unat (brk s) + 1)" using ulist_apart [OF u] by auto
  show "stop (hsize s) q \<le> unat bp" by (rule e)
  have "list_all (\<lambda>x. 0 < unat (hsize s x)) (tl (A @ q # B))" using u by (simp add: ulist_def)
  then show "list_all (\<lambda>x. 0 < unat (hsize s x)) (tl (A @ [q]) @ bp # B)" using e(2) by (cases A) auto
  show "stop (hsize s) bp < 2 ^ 32" using le_less_trans [OF gap_order(5) [OF g] unat_less_2p32 [of "brk s"]] by simp
qed

lemma gap_next:
  assumes g: "gap s bp A q B" and e: "bp + 8 * hsize s bp \<noteq> hptr s q"
  shows "stop (hsize s) bp < hd (map unat B @ [unat (brk s) + 1])"
proof (cases B)
  case Nil
  then show ?thesis using gap_order(5) [OF g] by simp
next
  case (Cons b B')
  then have "stop (hsize s) bp \<noteq> unat b" using e gap_parts(5) [OF g] stop_word [OF gap_parts(11) [OF g], of b] by simp
  then show ?thesis using gap_order(3) [OF g, of b] Cons by simp
qed

lemma gap_touch:
  assumes g: "gap s bp A q B" and e: "bp + 8 * hsize s bp = hptr s q"
  obtains b B' where "B = b # B'" "stop (hsize s) bp = unat b"
proof (cases B)
  case Nil
  then have "stop (hsize s) bp = unat (base s)" using e gap_parts(5) [OF g] stop_word [OF gap_parts(11) [OF g]] by simp
  then show ?thesis using gap_order(4,6) [OF g] by simp
next
  case (Cons b B')
  then show ?thesis using that [of b B'] e gap_parts(5) [OF g] stop_word [OF gap_parts(11) [OF g], of b] by simp
qed

text \<open>Two blocks that touch make one.\<close>

lemma stop_join:
  assumes "stop sz x = unat y" "stop sz y < 2 ^ 32"
  shows "unat x + 8 * unat (sz x + sz y) = stop sz y" "unat (sz x + sz y) = unat (sz x) + unat (sz y)"
proof -
  show "unat (sz x + sz y) = unat (sz x) + unat (sz y)"
    using assms by (simp add: stop_def unat_add_lem [THEN iffD1])
  then show "unat x + 8 * unat (sz x + sz y) = stop sz y" using assms by (simp add: stop_def)
qed

lemma seg_join:
  assumes "stop sz x = unat y" "stop sz y < 2 ^ 32" "x \<noteq> y"
  shows "seg (sz(x := sz x + sz y)) x = seg sz x \<union> seg sz y"
  using assms stop_join(1) [OF assms(1,2)] stop_ge [of y sz] stop_ge [of x sz] by (auto simp: seg_def)

lemma join_next_hang:
  assumes g: "gap s bp A q B"
  shows "\<exists>B'. hang (join_next bp q s) bp A q B' \<and>
    free_bytes (join_next bp q s) (A @ q # bp # B') = free_bytes s (A @ q # B) \<union> seg (hsize s) bp \<and>
    unat (hsize s bp) \<le> unat (hsize (join_next bp q s) bp)"
proof (cases "bp + 8 * hsize s bp = hptr s q")
  case False
  have "hang (join_next bp q s) bp A q B"
    using False gap_notin [OF g] gap_order(2) [OF g] gap_parts [OF g] gap_next [OF g False]
    by (simp add: hang_def join_next_def)
  then show ?thesis using False by (intro exI [of _ B]) (auto simp: free_bytes_def join_next_def)
next
  case True
  then obtain b B' where B: "B = b # B'" "stop (hsize s) bp = unat b" using gap_touch [OF g True] by blast
  have b: "stop (hsize s) b < hd (map unat B' @ [unat (brk s) + 1])" "hptr s b = hd (B' @ [base s])"
    using gap_parts(6,9) [OF g] B by auto
  have lim: "stop (hsize s) b < 2 ^ 32"
    using apart_less [OF gap_parts(9) [OF g], of b] B le_less_trans [OF _ unat_less_2p32 [of "brk s"], of "stop (hsize s) b"] by simp
  note j = stop_join [OF B(2) lim] seg_join [OF B(2) lim]
  have s': "join_next bp q s = s\<lparr>hsize := (hsize s)(bp := hsize s bp + hsize s b), hptr := (hptr s)(bp := hptr s b)\<rparr>"
    using True gap_parts(5) [OF g] B by (simp add: join_next_def)
  have nb: "bp \<notin> set B'" "b \<noteq> bp" "bp \<noteq> base s" using gap_notin [OF g] B gap_order(4) [OF g] by auto
  have "hang (join_next bp q s) bp A q B'"
    using gap_notin [OF g] gap_order(2) [OF g] gap_parts [OF g] b j(1,2) nb B(1)
    by (auto simp: hang_def s' list_all_iff)
  moreover have "free_bytes (join_next bp q s) (A @ q # bp # B') = free_bytes s (A @ q # B) \<union> seg (hsize s) bp"
    using gap_notin [OF g] nb j(3) B(1) by (auto simp: free_bytes_def s')
  moreover have "unat (hsize s bp) \<le> unat (hsize (join_next bp q s) bp)" using j(2) by (simp add: s')
  ultimately show ?thesis by blast
qed

lemma join_prev_ulist:
  assumes h: "hang s bp A q B"
  shows "\<exists>L. ulist ((join_prev bp q s)\<lparr>freep := q\<rparr>) L \<and>
    free_bytes ((join_prev bp q s)\<lparr>freep := q\<rparr>) L = free_bytes s (A @ q # bp # B) \<and>
    (\<exists>x\<in>set L. unat (hsize s bp) \<le> unat (hsize (join_prev bp q s) x))"
proof -
  have p: "base s \<noteq> 0" "hsize s (base s) = 0" "hd (A @ [q]) = base s"
    "linked (hptr s) A q" "hptr s bp = hd (B @ [base s])" "linked (hptr s) B (base s)"
    "apart (hsize s) A (unat q)" "stop (hsize s) q \<le> unat bp" "unat q < unat bp"
    "stop (hsize s) bp < hd (map unat B @ [unat (brk s) + 1])" "apart (hsize s) B (unat (brk s) + 1)"
    "list_all (\<lambda>x. 0 < unat (hsize s x)) (tl (A @ [q]) @ bp # B)" "apart (hsize s) (bp # B) (unat (brk s) + 1)"
    "unat (base s) < unat (brk s)"
    using h by (auto simp: hang_def)
  have lim: "stop (hsize s) bp < 2 ^ 32"
    using apart_less [OF p(13), of bp] le_less_trans [OF _ unat_less_2p32 [of "brk s"], of "stop (hsize s) bp"] by simp
  have nA: "q \<notin> set A" "bp \<notin> set A"
    using apart_less [OF p(7), of q] apart_less [OF p(7), of bp] p(9) stop_ge [of q "hsize s"] stop_ge [of bp "hsize s"] by auto
  have nB: "q \<notin> set B" "bp \<notin> set B" "q \<noteq> bp"
    using apart_after [OF p(13), of q] apart_after [OF p(13), of bp] p(9) stop_ge [of bp "hsize s"] by auto
  have bb: "base s \<noteq> bp" using p(3) nA(2) nB(3) by (cases A) auto
  show ?thesis
  proof (cases "q + 8 * hsize s q = bp")
    case False
    then have "stop (hsize s) q < unat bp"
      using p(8) stop_word [of "hsize s" q bp] le_less_trans [OF p(8) unat_less_2p32] by fastforce
    with False have "ulist ((join_prev bp q s)\<lparr>freep := q\<rparr>) (A @ q # bp # B)"
      using p nA nB by (cases A) (auto simp: ulist_def join_prev_def hd_append)
    then show ?thesis using False by (intro exI [of _ "A @ q # bp # B"]) (simp add: join_prev_def free_bytes_def)
  next
    case True
    have st: "stop (hsize s) q = unat bp"
      using True stop_word [of "hsize s" q bp] le_less_trans [OF p(8) unat_less_2p32] by simp
    note j = stop_join [OF st lim] seg_join [OF st lim nB(3)]
    have qb: "q \<noteq> base s" using st p(2,9) by (auto simp: stop_def)
    have "ulist ((join_prev bp q s)\<lparr>freep := q\<rparr>) (A @ q # B)"
      using p nA nB True j(1,2) qb
      by (cases A) (auto simp: ulist_def join_prev_def list_all_iff hd_append)
    moreover have "free_bytes ((join_prev bp q s)\<lparr>freep := q\<rparr>) (A @ q # B) = free_bytes s (A @ q # bp # B)"
      using True nA nB j(3) by (auto simp: free_bytes_def join_prev_def)
    moreover have "unat (hsize s bp) \<le> unat (hsize (join_prev bp q s) q)" using True j(2) by (simp add: join_prev_def)
    ultimately show ?thesis by (intro exI [of _ "A @ q # B"]) auto
  qed
qed

lemma join_keeps [simp]:
  "brk (join_prev bp q s) = brk s" "brk (join_next bp q s) = brk s"
  "base (join_prev bp q s) = base s" "base (join_next bp q s) = base s"
  by (simp_all add: join_prev_def join_next_def)

lemma gap_free:
  assumes g: "gap s bp A q B"
  shows "\<exists>s' L. free (bp + 8) s = Some s' \<and> ulist s' L \<and> brk s' = brk s \<and> base s' = base s \<and>
    free_bytes s' L = free_bytes s (A @ q # B) \<union> seg (hsize s) bp \<and>
    (\<exists>x\<in>set L. unat (hsize s bp) \<le> unat (hsize s' x))"
proof -
  have "freep s \<in> set (A @ q # B)" using g by (simp add: gap_def ulist_def)
  from gap_find [OF g this] have f: "free (bp + 8) s = Some ((join_prev bp q (join_next bp q s))\<lparr>freep := q\<rparr>)"
    by (simp add: free_def)
  obtain B' where B: "hang (join_next bp q s) bp A q B'"
    "free_bytes (join_next bp q s) (A @ q # bp # B') = free_bytes s (A @ q # B) \<union> seg (hsize s) bp"
    "unat (hsize s bp) \<le> unat (hsize (join_next bp q s) bp)"
    using join_next_hang [OF g] by blast
  from join_prev_ulist [OF B(1)] obtain L x where
    "ulist ((join_prev bp q (join_next bp q s))\<lparr>freep := q\<rparr>) L" "x \<in> set L"
    "free_bytes ((join_prev bp q (join_next bp q s))\<lparr>freep := q\<rparr>) L = free_bytes (join_next bp q s) (A @ q # bp # B')"
    "unat (hsize (join_next bp q s) bp) \<le> unat (hsize (join_prev bp q (join_next bp q s)) x)" by blast
  moreover from this(4) B(3) have "unat (hsize s bp) \<le> unat (hsize (join_prev bp q (join_next bp q s)) x)" by simp
  ultimately show ?thesis using B(2) f by (intro exI [of _ L] exI) auto
qed

text \<open>A block that overlaps no free block has its place in the list.\<close>

lemma gap_exists:
  assumes u: "ulist s L" and pos: "0 < unat (hsize s bp)" and above: "unat (base s) < unat bp"
    and lim: "stop (hsize s) bp \<le> unat (brk s)" and dis: "seg (hsize s) bp \<inter> free_bytes s L = {}"
  shows "\<exists>A q B. L = A @ q # B \<and> gap s bp A q B"
proof -
  define P where "P x \<longleftrightarrow> unat x < unat bp" for x :: uint
  have L: "L \<noteq> []" "P (hd L)" using u above by (auto simp: ulist_def P_def)
  then have "takeWhile P L \<noteq> []" by (cases L) auto
  then obtain A q where A: "takeWhile P L = A @ [q]" by (metis rev_exhaust)
  define B where "B = dropWhile P L"
  have LB: "L = A @ q # B" using takeWhile_dropWhile_id [of P L] A B_def by simp
  have q: "P q" using A by (metis in_set_conv_decomp set_takeWhileD)
  have d: "seg (hsize s) bp \<inter> seg (hsize s) x = {}" if "x \<in> set L" for x
    using dis that by (auto simp: free_bytes_def)
  have bin: "unat bp \<in> seg (hsize s) bp" using pos by (simp add: seg_def stop_def)
  have "unat bp \<notin> seg (hsize s) q" using d [of q] bin LB by auto
  then have sq: "stop (hsize s) q \<le> unat bp" using q by (simp add: seg_def P_def)
  have sb: "stop (hsize s) bp < hd (map unat B @ [unat (brk s)]) + 1"
  proof (cases B)
    case (Cons b B')
    have "\<not> P b" using Cons B_def by (metis dropWhile_eq_Cons_conv)
    then have le: "unat bp \<le> unat b" by (simp add: P_def)
    have "b \<noteq> base s" using le above by auto
    then have "0 < unat (hsize s b)" using ulist_base_first(2) [OF u, of b] LB Cons by simp
    then have "unat b \<in> seg (hsize s) b" by (simp add: seg_def stop_def)
    then have "unat b \<notin> seg (hsize s) bp" using d [of b] LB Cons by auto
    with le Cons show ?thesis by (simp add: seg_def)
  qed (use lim in simp)
  have "bp \<noteq> base s" using above by auto
  then have "gap s bp A q B" unfolding gap_def using u LB pos sq sb by simp
  with LB show ?thesis by blast
qed

definition umem_zero :: umem where
  "umem_zero = \<lparr>hptr = \<lambda>_. 0, hsize = \<lambda>_. 0, base = 0x1000, freep = 0, brk = 0x4000\<rparr>"



text \<open>
  C37: \<^term>\<open>free\<close> of a block that overlaps no free block returns, keeps the free list well formed
  (circular, in address order, no two blocks touching) and adds exactly the bytes of the block to
  the free memory.
\<close>

theorem free_returns_block:
  assumes "ulist s L" "0 < unat (hsize s (ap - 8))" "unat (base s) < unat (ap - 8)"
    "stop (hsize s) (ap - 8) \<le> unat (brk s)" "seg (hsize s) (ap - 8) \<inter> free_bytes s L = {}"
  shows "\<exists>s' L'. free ap s = Some s' \<and> ulist s' L' \<and> free_bytes s' L' = free_bytes s L \<union> seg (hsize s) (ap - 8)"
proof -
  obtain A q B where "L = A @ q # B" "gap s (ap - 8) A q B" using gap_exists [OF assms] by blast
  with gap_free [of s "ap - 8" A q B] show ?thesis by auto
qed

theorem free_returns_block_witness:
  "\<exists>s' L'. free 0x2008 ((ensure_base umem_zero)\<lparr>hsize := (\<lambda>_. 0)(0x2000 := 4)\<rparr>) = Some s' \<and> ulist s' L' \<and>
    free_bytes s' L' = {0x2000 ..< 0x2020}"
  using free_returns_block [of "(ensure_base umem_zero)\<lparr>hsize := (\<lambda>_. 0)(0x2000 := 4)\<rparr>" "[0x1000]" "0x2008"]
  by (simp add: ulist_def ensure_base_def umem_zero_def stop_def seg_def free_bytes_def)

subsection \<open>Allocating\<close>

















text \<open>
  C40: the size computation of \<^term>\<open>malloc\<close> wraps: the seven largest requests are served like an empty
  one, with a block that holds no byte for the caller.
\<close>

theorem malloc_size_wraps:
  assumes "2 ^ 32 - 7 \<le> unat nbytes"
  shows "malloc nbytes s = malloc 0 s \<and> units nbytes = 1"
proof -
  obtain k where k: "unat nbytes + 7 = 4294967296 + k" using assms le_Suc_ex [of 4294967296 "unat nbytes + 7"] by auto
  then have "k < 7" using unat_less_2p32 [of nbytes] by arith
  moreover have "unat (nbytes + 7) = (4294967296 + k) mod 2 ^ 32" unfolding k [symmetric] by (simp add: unat_word_ariths)
  ultimately have "unat (nbytes + 7) < 7" by simp
  then have "unat ((nbytes + 7) div 8) = 0" by (simp add: unat_div_distrib)
  then have "(nbytes + 7) div 8 = 0" by (simp add: unat_eq_zero)
  then have "units nbytes = 1" by (simp add: units_def add.commute [of 7])
  moreover have "units 0 = 1" by (simp add: units_def)
  ultimately show ?thesis by (simp add: malloc_def)
qed

theorem malloc_size_wraps_witness: "malloc 0xfffffffc umem_zero = malloc 0 umem_zero"
  using malloc_size_wraps [of "0xfffffffc" umem_zero] by simp

end
