(* ===== verification/Xv6_Shell.thy ===== *)
theory Xv6_Shell
  imports Xv6_Ulib Xv6_Sysfile
begin

text \<open>
  The shell (sh.c): the parser over the line buffer, and what the processes it forks do.  A line is
  the bytes before the terminating zero; \<open>ps\<close> is an offset into it and \<open>es\<close> its length, so a word
  of the line is the pair of the offsets \<open>q\<close> and \<open>eq\<close>.
\<close>

definition MAXARGS :: nat where
  "MAXARGS = 10"

text \<open>Commands, over the representation of words.\<close>

datatype 'w cmd =
    EXEC "'w list"
  | REDIR "'w cmd" 'w uint nat
  | PIPE "'w cmd" "'w cmd"
  | LIST "'w cmd" "'w cmd"
  | BACK "'w cmd"

type_synonym span = "nat \<times> nat"

text \<open>A parse ends in \<open>panic\<close>, or gives a value and the new offset; \<open>P_fuel\<close> marks a bound that was too small.\<close>

datatype perr = P_panic string | P_fuel

type_synonym 'a pres = "perr + 'a \<times> nat"

definition pbind :: "'a pres \<Rightarrow> ('a \<Rightarrow> nat \<Rightarrow> 'b pres) \<Rightarrow> 'b pres" where
  "pbind r f = (case r of Inl e \<Rightarrow> Inl e | Inr (x, s) \<Rightarrow> f x s)"

lemma pbind_simps [simp]: "pbind (Inl e) f = Inl e" "pbind (Inr (x, s)) f = f x s"
  by (simp_all add: pbind_def)

lemma pbind_cong [fundef_cong]:
  "r = r' \<Longrightarrow> (\<And>x s. r' = Inr (x, s) \<Longrightarrow> f x s = g x s) \<Longrightarrow> pbind r f = pbind r' g"
  by (auto simp: pbind_def split: sum.split)

lemma pbind_Inr: "pbind r f = Inr y \<longleftrightarrow> (\<exists>x s. r = Inr (x, s) \<and> f x s = Inr y)"
  by (auto simp: pbind_def split: sum.split)

subsection \<open>Tokens\<close>

definition whitespace :: "byte list" where
  "whitespace = [0x20, 0x09, 0x0d, 0x0a, 0x0b]"

definition symbols :: "byte list" where
  "symbols = [0x3c, 0x7c, 0x3e, 0x26, 0x3b, 0x28, 0x29]"

definition at :: "byte list \<Rightarrow> nat \<Rightarrow> byte" where
  "at b s = (if s < length b then b ! s else 0)"

definition is_ws :: "byte \<Rightarrow> bool" where
  "is_ws c \<longleftrightarrow> strchr whitespace c \<noteq> None"

definition is_word :: "byte \<Rightarrow> bool" where
  "is_word c \<longleftrightarrow> strchr whitespace c = None \<and> strchr symbols c = None"

function advance :: "(byte \<Rightarrow> bool) \<Rightarrow> byte list \<Rightarrow> nat \<Rightarrow> nat" where
  "advance P b s = (if s < length b \<and> P (at b s) then advance P b (s + 1) else s)"
  by auto
termination by (relation "measure (\<lambda>(P, b, s). length b - s)") auto

declare advance.simps [simp del]

text \<open>The kind of token (\<open>0x61\<close> for a word, \<open>0x2b\<close> for \<open>>>\<close>, 0 at the end), its span, the new offset.\<close>

definition gettoken :: "byte list \<Rightarrow> nat \<Rightarrow> byte \<times> span \<times> nat" where
  "gettoken b s =
    (let q = advance is_ws b s; c = at b q;
         (ret, eq) =
           (if c = 0 then (0, q)
            else if c \<in> {0x7c, 0x28, 0x29, 0x3b, 0x26, 0x3c} then (c, q + 1)
            else if c = 0x3e then (if at b (q + 1) = 0x3e then (0x2b, q + 2) else (c, q + 1))
            else (0x61, advance is_word b q))
     in (ret, (q, eq), advance is_ws b eq))"

definition peek :: "byte list \<Rightarrow> nat \<Rightarrow> byte list \<Rightarrow> bool \<times> nat" where
  "peek b s toks =
    (let s = advance is_ws b s in (at b s \<noteq> 0 \<and> strchr toks (at b s) \<noteq> None, s))"

lemma advance_takeWhile: "advance P b s = s + length (takeWhile P (drop s b))"
proof (induction P b s rule: advance.induct)
  case (1 P b s)
  show ?case
  proof (cases "s < length b")
    case True
    then have "drop s b = b ! s # drop (Suc s) b" by (simp add: Cons_nth_drop_Suc)
    with 1 True show ?thesis by (subst advance.simps) (simp add: at_def)
  qed (simp add: advance.simps [of P b s])
qed

lemma advance_ge: "s \<le> advance P b s"
  by (simp add: advance_takeWhile)

lemma advance_le: "s \<le> length b \<Longrightarrow> advance P b s \<le> length b"
  using length_takeWhile_le [of P "drop s b"] by (simp add: advance_takeWhile)

lemma advance_stop: "advance P b s < length b \<Longrightarrow> \<not> P (at b (advance P b s))"
  by (induction P b s rule: advance.induct) (subst (asm) advance.simps, subst advance.simps, simp split: if_splits)

lemma advance_step: "s < length b \<Longrightarrow> P (at b s) \<Longrightarrow> s < advance P b s"
  by (subst advance.simps) (simp add: advance_takeWhile)

lemma at_nonzero: "at b s \<noteq> 0 \<Longrightarrow> s < length b"
  by (simp add: at_def split: if_splits)

lemma is_word_default:
  "\<not> is_ws c \<Longrightarrow> c \<notin> {0x7c, 0x28, 0x29, 0x3b, 0x26, 0x3c} \<Longrightarrow> c \<noteq> 0x3e \<Longrightarrow> is_word c"
  by (auto simp: is_ws_def is_word_def strchr_None symbols_def)

lemma gettoken_ge: "gettoken b s = (t, sp, s') \<Longrightarrow> s \<le> s'"
  by (auto simp: gettoken_def Let_def advance_takeWhile split: if_splits)

lemma gettoken_progress:
  assumes "gettoken b s = (t, sp, s')" "t \<noteq> 0"
  shows "s < s'" "s' \<le> length b"
proof -
  define q where "q = advance is_ws b s"
  have c: "at b q \<noteq> 0" using assms by (auto simp: gettoken_def Let_def q_def)
  then have q: "q < length b" "s \<le> q" "\<not> is_ws (at b q)"
    using at_nonzero advance_ge [of s] advance_stop [of is_ws b s] by (auto simp: q_def)
  obtain e where e: "q < e" "e \<le> length b" "s' = advance is_ws b e"
  proof (cases "at b q \<in> {0x7c, 0x28, 0x29, 0x3b, 0x26, 0x3c}")
    case True
    then show ?thesis using that [of "q + 1"] assms c q by (auto simp: gettoken_def Let_def q_def)
  next
    case f: False
    show ?thesis
    proof (cases "at b q = 0x3e")
      case True
      then show ?thesis
        using that [of "q + 1"] that [of "q + 2"] assms c q at_nonzero [of b "q + 1"]
        by (cases "at b (q + 1) = 0x3e") (auto simp: gettoken_def Let_def q_def)
    next
      case False
      then have "is_word (at b q)" using is_word_default q(3) f by blast
      then show ?thesis
        using that [of "advance is_word b q"] advance_step [OF q(1)] advance_le [of q b is_word] q f False c assms
        by (auto simp: gettoken_def Let_def q_def)
    qed
  qed
  then show "s < s'" "s' \<le> length b" using q(2) advance_ge [of e is_ws b] advance_le [of e b is_ws] by auto
qed

lemma peek_ge: "peek b s toks = (r, s') \<Longrightarrow> s \<le> s'"
  using advance_ge by (auto simp: peek_def Let_def)

lemma peek_true:
  assumes "peek b s toks = (True, s')"
  shows "s' < length b" "at b s' \<in> set toks" "\<not> is_ws (at b s')"
  using assms at_nonzero [of b s'] advance_stop [of is_ws b s] by (auto simp: peek_def Let_def strchr_None)

text \<open>A token that was peeked is not the end of the line.\<close>

lemma gettoken_peeked:
  assumes "peek b s toks = (True, s')" "gettoken b s' = (t, sp, s'')"
  shows "s < s''" "s'' \<le> length b"
proof -
  have q: "advance is_ws b s' = s'" using peek_true [OF assms(1)] by (subst advance.simps) simp
  have "at b s' \<noteq> 0" using assms(1) by (auto simp: peek_def Let_def)
  then have "t \<noteq> 0" using assms(2) q by (auto simp: gettoken_def Let_def split: if_splits)
  from gettoken_progress [OF assms(2) this] peek_ge [OF assms(1)] show "s < s''" "s'' \<le> length b" by auto
qed

subsection \<open>The parser\<close>

text \<open>\<open>parseexec\<close> fills the innermost command while \<open>ret\<close> already points to redirections around it.\<close>

fun add_arg :: "'w \<Rightarrow> 'w cmd \<Rightarrow> 'w cmd" where
  "add_arg w (EXEC ws) = EXEC (ws @ [w])"
| "add_arg w (REDIR c f m fd) = REDIR (add_arg w c) f m fd"
| "add_arg w c = c"

function parseredirs :: "span cmd \<Rightarrow> byte list \<Rightarrow> nat \<Rightarrow> span cmd pres" where
  "parseredirs c b s =
    (case peek b s [0x3c, 0x3e] of
       (False, s) \<Rightarrow> Inr (c, s)
     | (True, s) \<Rightarrow>
        case gettoken b s of (tok, _, s) \<Rightarrow>
        case gettoken b s of (t, sp, s) \<Rightarrow>
          if t \<noteq> 0x61 then Inl (P_panic ''missing file for redirection'')
          else parseredirs
            (if tok = 0x3c then REDIR c sp O_RDONLY 0
             else if tok = 0x3e then REDIR c sp (O_WRONLY OR O_CREATE) 1
             else if tok = 0x2b then REDIR c sp (O_WRONLY OR O_CREATE) 1
             else c) b s)"
  by auto
termination
proof (relation "measure (\<lambda>(c, b, s). length b - s)", simp, goal_cases)
  case (1 c b s x y xa ya xb yb xc yc xd yd)
  have "s < yb" using gettoken_peeked(1) [of b s _ y xa xb yb] 1 by simp
  moreover have "yb < yd" "yd \<le> length b" using gettoken_progress [of b yb xc xd yd] 1 by auto
  ultimately show ?case by auto
qed

declare parseredirs.simps [simp del]

lemma parseredirs_ge: "parseredirs c b s = Inr (c', s') \<Longrightarrow> s \<le> s' \<and> (s \<le> length b \<longrightarrow> s' \<le> length b)"
proof (induction c b s rule: parseredirs.induct)
  case (1 c b s)
  obtain r s1 where p: "peek b s [0x3c, 0x3e] = (r, s1)" by fastforce
  obtain t sp1 s2 where g: "gettoken b s1 = (t, sp1, s2)" by (metis surj_pair)
  obtain u sp2 s3 where h: "gettoken b s2 = (u, sp2, s3)" by (metis surj_pair)
  show ?case
  proof (cases r)
    case True
    then have u: "u = 0x61" using 1(2) p g h by (subst (asm) parseredirs.simps) (simp split: if_splits)
    have "s < s2" using gettoken_peeked(1) [of b s _ s1 t sp1 s2] p True g by simp
    moreover have "s2 < s3" "s3 \<le> length b" using gettoken_progress [OF h] u by auto
    moreover have "s3 \<le> s' \<and> (s3 \<le> length b \<longrightarrow> s' \<le> length b)"
      by (rule 1(1) [OF p [symmetric] _ g [symmetric] refl h [symmetric] refl])
        (use 1(2) p g h True u in \<open>simp_all add: parseredirs.simps [of c b s]\<close>)
    ultimately show ?thesis by simp
  next
    case False
    then show ?thesis
      using 1(2) p peek_ge [OF p] advance_le [of s b is_ws]
      by (subst (asm) parseredirs.simps) (auto simp: peek_def Let_def)
  qed
qed

function args_loop :: "span cmd \<Rightarrow> nat \<Rightarrow> byte list \<Rightarrow> nat \<Rightarrow> span cmd pres" where
  "args_loop ret argc b s =
    (case peek b s [0x7c, 0x29, 0x26, 0x3b] of
       (True, s) \<Rightarrow> Inr (ret, s)
     | (False, s) \<Rightarrow>
        case gettoken b s of (tok, sp, s) \<Rightarrow>
          if tok = 0 then Inr (ret, s)
          else if tok \<noteq> 0x61 then Inl (P_panic ''syntax'')
          else if argc + 1 \<ge> MAXARGS then Inl (P_panic ''too many args'')
          else pbind (parseredirs (add_arg sp ret) b s) (\<lambda>ret s. args_loop ret (argc + 1) b s))"
  by auto
termination
proof (relation "measure (\<lambda>(ret, argc, b, s). length b - s)", simp, goal_cases)
  case (1 ret argc b s x y xa ya xb yb ret' s')
  have "s \<le> y" using peek_ge [of b s _ x y] 1 by simp
  moreover have "y < yb" "yb \<le> length b" using gettoken_progress [of b y xa xb yb] 1 by auto
  moreover have "yb \<le> s'" using parseredirs_ge 1 by blast
  ultimately show ?case by auto
qed

declare args_loop.simps [simp del]

function back_loop :: "span cmd \<Rightarrow> byte list \<Rightarrow> nat \<Rightarrow> span cmd \<times> nat" where
  "back_loop c b s =
    (case peek b s [0x26] of
       (False, s) \<Rightarrow> (c, s)
     | (True, s) \<Rightarrow> case gettoken b s of (_, _, s) \<Rightarrow> back_loop (BACK c) b s)"
  by auto
termination
proof (relation "measure (\<lambda>(c, b, s). length b - s)", simp, goal_cases)
  case (1 c b s x y xa ya xb yb)
  have "s < yb" "yb \<le> length b" using gettoken_peeked [of b s _ y xa xb yb] 1 by auto
  then show ?case by auto
qed

declare back_loop.simps [simp del]

text \<open>The recursive descent; \<open>n\<close> bounds its depth.\<close>

fun parseline :: "nat \<Rightarrow> byte list \<Rightarrow> nat \<Rightarrow> span cmd pres"
  and parsepipe :: "nat \<Rightarrow> byte list \<Rightarrow> nat \<Rightarrow> span cmd pres"
  and parseexec :: "nat \<Rightarrow> byte list \<Rightarrow> nat \<Rightarrow> span cmd pres"
  and parseblock :: "nat \<Rightarrow> byte list \<Rightarrow> nat \<Rightarrow> span cmd pres" where
  "parseline 0 b s = Inl P_fuel"
| "parseline (Suc n) b s =
    pbind (parsepipe n b s) (\<lambda>c s.
      case back_loop c b s of (c, s) \<Rightarrow>
      case peek b s [0x3b] of
        (False, s) \<Rightarrow> Inr (c, s)
      | (True, s) \<Rightarrow> case gettoken b s of (_, _, s) \<Rightarrow> pbind (parseline n b s) (\<lambda>r s. Inr (LIST c r, s)))"
| "parsepipe 0 b s = Inl P_fuel"
| "parsepipe (Suc n) b s =
    pbind (parseexec n b s) (\<lambda>c s.
      case peek b s [0x7c] of
        (False, s) \<Rightarrow> Inr (c, s)
      | (True, s) \<Rightarrow> case gettoken b s of (_, _, s) \<Rightarrow> pbind (parsepipe n b s) (\<lambda>r s. Inr (PIPE c r, s)))"
| "parseexec 0 b s = Inl P_fuel"
| "parseexec (Suc n) b s =
    (case peek b s [0x28] of
       (True, s) \<Rightarrow> parseblock n b s
     | (False, s) \<Rightarrow> pbind (parseredirs (EXEC []) b s) (\<lambda>ret s. args_loop ret 0 b s))"
| "parseblock 0 b s = Inl P_fuel"
| "parseblock (Suc n) b s =
    (case peek b s [0x28] of
       (False, s) \<Rightarrow> Inl (P_panic ''parseblock'')
     | (True, s) \<Rightarrow>
        case gettoken b s of (_, _, s) \<Rightarrow>
        pbind (parseline n b s) (\<lambda>c s.
          case peek b s [0x29] of
            (False, s) \<Rightarrow> Inl (P_panic ''syntax - missing )'')
          | (True, s) \<Rightarrow> case gettoken b s of (_, _, s) \<Rightarrow> parseredirs c b s))"

text \<open>Zeroes after the words of a command; the zero at the end of the line is there already.\<close>

fun nulterminate :: "span cmd \<Rightarrow> byte list \<Rightarrow> byte list" where
  "nulterminate (EXEC ws) b = fold (\<lambda>(q, eq) b. b[eq := 0]) ws b"
| "nulterminate (REDIR c (q, eq) m fd) b = (nulterminate c b)[eq := 0]"
| "nulterminate (PIPE l r) b = nulterminate r (nulterminate l b)"
| "nulterminate (LIST l r) b = nulterminate r (nulterminate l b)"
| "nulterminate (BACK c) b = nulterminate c b"

definition parse_fuel :: "byte list \<Rightarrow> nat" where
  "parse_fuel b = 4 * length b + 4"

definition parsecmd :: "byte list \<Rightarrow> (span cmd \<times> byte list) pres" where
  "parsecmd b =
    pbind (parseline (parse_fuel b) b 0) (\<lambda>c s.
      case peek b s [] of (_, s) \<Rightarrow>
        if s \<noteq> length b then Inl (P_panic ''syntax'') else Inr ((c, nulterminate c b), s))"

subsection \<open>The parser returns\<close>

text \<open>Where a step leaves the offset: not before where it was, and within the line.\<close>

definition moves :: "byte list \<Rightarrow> nat \<Rightarrow> 'a pres \<Rightarrow> bool" where
  "moves b s r \<longleftrightarrow> r \<noteq> Inl P_fuel \<and> (\<forall>c s'. r = Inr (c, s') \<longrightarrow> s \<le> s' \<and> s' \<le> length b)"

lemma moves_Inr [simp]: "moves b s (Inr (c, s')) \<longleftrightarrow> s \<le> s' \<and> s' \<le> length b"
  by (auto simp: moves_def)

lemma moves_panic [simp]: "moves b s (Inl (P_panic e))"
  by (simp add: moves_def)

lemma moves_pbind:
  assumes "moves b s r" "\<And>c s'. r = Inr (c, s') \<Longrightarrow> s \<le> s' \<Longrightarrow> s' \<le> length b \<Longrightarrow> moves b s' (f c s')"
  shows "moves b s (pbind r f)"
proof (cases r)
  case (Inl e)
  then show ?thesis using assms(1) by (simp add: moves_def)
next
  case (Inr p)
  obtain c s' where p: "p = (c, s')" by fastforce
  then have "s \<le> s'" "s' \<le> length b" using assms(1) Inr by auto
  with assms(2) [of c s'] Inr p show ?thesis by (auto simp: moves_def intro: order_trans)
qed

lemma moves_le: "moves b s' r \<Longrightarrow> s \<le> s' \<Longrightarrow> moves b s r"
  by (auto simp: moves_def intro: order_trans)

lemma peek_le: "s \<le> length b \<Longrightarrow> peek b s toks = (r, s') \<Longrightarrow> s' \<le> length b"
  using advance_le [of s b is_ws] by (auto simp: peek_def Let_def)

lemma gettoken_le: "s \<le> length b \<Longrightarrow> gettoken b s = (t, sp, s') \<Longrightarrow> s' \<le> length b"
  using gettoken_progress(2) [of b s t sp s'] advance_le [of s b is_ws]
  by (cases "t = 0") (auto simp: gettoken_def Let_def advance_le split: if_splits)

lemma parseredirs_moves: "s \<le> length b \<Longrightarrow> moves b s (parseredirs c b s)"
proof (induction c b s rule: parseredirs.induct)
  case (1 c b s)
  obtain r s1 where p: "peek b s [0x3c, 0x3e] = (r, s1)" by fastforce
  obtain t sp1 s2 where g: "gettoken b s1 = (t, sp1, s2)" by (metis surj_pair)
  obtain u sp2 s3 where h: "gettoken b s2 = (u, sp2, s3)" by (metis surj_pair)
  note le = peek_le [OF 1(2) p] gettoken_le [OF peek_le [OF 1(2) p] g]
  note ge = peek_ge [OF p] gettoken_ge [OF g] gettoken_ge [OF h]
  have le3: "s3 \<le> length b" by (rule gettoken_le [OF le(2) h])
  note IH = 1(1) [OF p [symmetric] _ g [symmetric] refl h [symmetric] refl _ le3]
  show ?case
  proof (cases "r \<and> u = 0x61")
    case True
    then show ?thesis
      using p g h moves_le [OF IH, of s] ge by (subst parseredirs.simps) simp
  next
    case False
    then show ?thesis using p g h le ge by (subst parseredirs.simps) (cases r; simp)
  qed
qed

lemma args_loop_moves: "s \<le> length b \<Longrightarrow> moves b s (args_loop ret argc b s)"
proof (induction ret argc b s rule: args_loop.induct)
  case (1 ret argc b s)
  obtain r s1 where p: "peek b s [0x7c, 0x29, 0x26, 0x3b] = (r, s1)" by fastforce
  obtain t sp s2 where g: "gettoken b s1 = (t, sp, s2)" by (metis surj_pair)
  note le = peek_le [OF 1(2) p] gettoken_le [OF peek_le [OF 1(2) p] g]
  note ge = peek_ge [OF p] gettoken_ge [OF g]
  have rec: "moves b s2 (pbind (parseredirs (add_arg sp ret) b s2) (\<lambda>ret s. args_loop ret (argc + 1) b s))"
    if "\<not> r" "t = 0x61" "\<not> MAXARGS \<le> argc + 1"
    by (rule moves_pbind [OF parseredirs_moves [OF le(2)]])
      (rule 1(1) [OF p [symmetric] _ g [symmetric] refl], use that in auto)
  show ?case
  proof (cases "\<not> r \<and> t = 0x61 \<and> \<not> MAXARGS \<le> argc + 1")
    case True
    then show ?thesis using p g moves_le [OF rec, of s] ge by (subst args_loop.simps) simp
  next
    case False
    then show ?thesis using p g le ge by (subst args_loop.simps) (cases r; auto)
  qed
qed

lemma back_loop_moves: "s \<le> length b \<Longrightarrow> back_loop c b s = (c', s') \<Longrightarrow> s \<le> s' \<and> s' \<le> length b"
proof (induction c b s rule: back_loop.induct)
  case (1 c b s)
  obtain r s1 where p: "peek b s [0x26] = (r, s1)" by fastforce
  obtain t sp s2 where g: "gettoken b s1 = (t, sp, s2)" by (metis surj_pair)
  note le = peek_le [OF 1(2) p] gettoken_le [OF peek_le [OF 1(2) p] g]
  note ge = peek_ge [OF p] gettoken_ge [OF g]
  note IH = 1(1) [OF p [symmetric] _ g [symmetric] refl le(2)]
  show ?case
  proof (cases r)
    case True
    then show ?thesis using IH 1(3) p g ge by (subst (asm) (2) back_loop.simps) auto
  next
    case False
    then show ?thesis using 1(3) p le ge by (subst (asm) back_loop.simps) auto
  qed
qed

text \<open>A peeked symbol is taken by the next token, so what follows starts later.\<close>

lemma peek_next:
  assumes "s \<le> length b" "peek b s toks = (r, s1)" r "gettoken b s1 = (t, sp, s2)"
  shows "s < s2" "s2 \<le> length b" "s1 < length b" "s \<le> s1"
  using gettoken_peeked [of b s toks s1 t sp s2] peek_true [of b s toks s1] peek_ge [of b s toks r s1] assms by simp_all

lemma parse_moves:
  "s \<le> length b \<Longrightarrow> (4 * (length b - s) + 4 \<le> n \<longrightarrow> moves b s (parseline n b s)) \<and>
    (4 * (length b - s) + 3 \<le> n \<longrightarrow> moves b s (parsepipe n b s)) \<and>
    (4 * (length b - s) + 2 \<le> n \<longrightarrow> moves b s (parseexec n b s)) \<and>
    (4 * (length b - s) + 1 \<le> n \<longrightarrow> moves b s (parseblock n b s))"
proof (induction n arbitrary: s)
  case 0
  then show ?case by simp
next
  case (Suc n)
  note IH = Suc.IH [THEN conjunct1, rule_format] Suc.IH [THEN conjunct2, THEN conjunct1, rule_format]
    Suc.IH [THEN conjunct2, THEN conjunct2, THEN conjunct1, rule_format]
    Suc.IH [THEN conjunct2, THEN conjunct2, THEN conjunct2, rule_format]
  have line: "moves b s (parseline (Suc n) b s)" if n: "4 * (length b - s) + 4 \<le> Suc n"
    unfolding parseline.simps
  proof (rule moves_pbind, goal_cases)
    case 1
    then show ?case using IH(2) [OF Suc.prems] n by simp
  next
    case (2 c s')
    obtain c1 s1 where k: "back_loop c b s' = (c1, s1)" by fastforce
    obtain r s2 where p: "peek b s1 [0x3b] = (r, s2)" by fastforce
    obtain t sp s3 where g: "gettoken b s2 = (t, sp, s3)" by (metis surj_pair)
    have s1: "s' \<le> s1" "s1 \<le> length b" using back_loop_moves [OF 2(3) k] by auto
    show ?case
    proof (cases r)
      case True
      note x = peek_next [OF s1(2) p True g]
      have "moves b s3 (parseline n b s3)" by (rule IH(1)) (use x s1 2 n in auto)
      then have "moves b s3 (pbind (parseline n b s3) (\<lambda>r s. Inr (LIST c1 r, s)))" by (rule moves_pbind) auto
      then show ?thesis using k p g True x s1 by (auto intro: moves_le)
    next
      case False
      then show ?thesis using k p s1 peek_ge [OF p] peek_le [OF s1(2) p] by simp
    qed
  qed
  have pipe: "moves b s (parsepipe (Suc n) b s)" if n: "4 * (length b - s) + 3 \<le> Suc n"
    unfolding parsepipe.simps
  proof (rule moves_pbind, goal_cases)
    case 1
    then show ?case using IH(3) [OF Suc.prems] n by simp
  next
    case (2 c s')
    obtain r s2 where p: "peek b s' [0x7c] = (r, s2)" by fastforce
    obtain t sp s3 where g: "gettoken b s2 = (t, sp, s3)" by (metis surj_pair)
    show ?case
    proof (cases r)
      case True
      note x = peek_next [OF 2(3) p True g]
      have "moves b s3 (parsepipe n b s3)" by (rule IH(2)) (use x 2 n in auto)
      then have "moves b s3 (pbind (parsepipe n b s3) (\<lambda>r s. Inr (PIPE c r, s)))" by (rule moves_pbind) auto
      then show ?thesis using p g True x by (auto intro: moves_le)
    next
      case False
      then show ?thesis using p 2 peek_ge [OF p] peek_le [OF 2(3) p] by simp
    qed
  qed
  have exec: "moves b s (parseexec (Suc n) b s)" if n: "4 * (length b - s) + 2 \<le> Suc n"
  proof -
    obtain r s1 where p: "peek b s [0x28] = (r, s1)" by fastforce
    have s1: "s \<le> s1" "s1 \<le> length b" using peek_ge [OF p] peek_le [OF Suc.prems p] by auto
    have "moves b s1 (parseblock n b s1)" by (rule IH(4)) (use s1 n in auto)
    moreover have "moves b s1 (pbind (parseredirs (EXEC []) b s1) (\<lambda>ret s. args_loop ret 0 b s))"
      by (rule moves_pbind [OF parseredirs_moves [OF s1(2)]]) (rule args_loop_moves)
    ultimately show ?thesis using p s1 by (cases r) (auto intro: moves_le)
  qed
  have block: "moves b s (parseblock (Suc n) b s)" if n: "4 * (length b - s) + 1 \<le> Suc n"
  proof -
    obtain r s1 where p: "peek b s [0x28] = (r, s1)" by fastforce
    obtain t sp s2 where g: "gettoken b s1 = (t, sp, s2)" by (metis surj_pair)
    show ?thesis
    proof (cases r)
      case True
      note x = peek_next [OF Suc.prems p True g]
      have "moves b s2 (parseline n b s2)" by (rule IH(1)) (use x n in auto)
      then have "moves b s2 (pbind (parseline n b s2) (\<lambda>c s. case peek b s [0x29] of
          (False, s) \<Rightarrow> Inl (P_panic ''syntax - missing )'')
        | (True, s) \<Rightarrow> case gettoken b s of (_, _, s) \<Rightarrow> parseredirs c b s))"
      proof (rule moves_pbind, goal_cases)
        case (1 c s')
        obtain r' s3 where p': "peek b s' [0x29] = (r', s3)" by fastforce
        obtain t' sp' s4 where g': "gettoken b s3 = (t', sp', s4)" by (metis surj_pair)
        show ?case
        proof (cases r')
          case True
          note y = peek_next [OF 1(3) p' True g']
          then show ?thesis using p' g' True moves_le [OF parseredirs_moves [OF y(2)], of s'] by simp
        qed (use p' in simp)
      qed
      then show ?thesis using p g True x by (auto intro: moves_le)
    qed (use p in simp)
  qed
  from line pipe exec block show ?case by blast
qed

text \<open>
  C38: the parser of the shell always returns: on every line it gives a command or reports a syntax
  error, and the bound on the depth of its recursion, linear in the length of the line, is never
  the reason to stop.
\<close>

theorem parsecmd_terminates: "parsecmd b \<noteq> Inl P_fuel"
proof -
  have "moves b 0 (parseline (parse_fuel b) b 0)" using parse_moves [of 0 b "parse_fuel b"] by (simp add: parse_fuel_def)
  then show ?thesis
    by (cases "parseline (parse_fuel b) b 0") (auto simp: parsecmd_def moves_def split: prod.splits if_splits)
qed

subsection \<open>The words of a command\<close>

definition span_str :: "byte list \<Rightarrow> span \<Rightarrow> cstring" where
  "span_str b w = (case w of (q, eq) \<Rightarrow> take (eq - q) (drop q b))"

text \<open>A word ends before the end of the line or a byte that belongs to no word.\<close>

definition word_span :: "byte list \<Rightarrow> span \<Rightarrow> bool" where
  "word_span b w = (case w of (q, eq) \<Rightarrow> q < eq \<and> eq \<le> length b \<and> list_all is_word (span_str b w) \<and>
    (eq = length b \<or> \<not> is_word (b ! eq)))"

lemma advance_run: "list_all P (take (advance P b s - s) (drop s b))"
  using set_takeWhileD [of _ P "drop s b"] takeWhile_eq_take [of P "drop s b"]
  by (auto simp: advance_takeWhile list_all_iff)

lemma gettoken_word:
  assumes "gettoken b s = (0x61, w, s')"
  shows "word_span b w"
proof -
  define q where "q = advance is_ws b s"
  have q: "at b q \<noteq> 0" "at b q \<notin> {0x7c, 0x28, 0x29, 0x3b, 0x26, 0x3c}" "at b q \<noteq> 0x3e" "w = (q, advance is_word b q)"
    using assms by (auto simp: gettoken_def Let_def q_def split: if_splits)
  have ql: "q < length b" by (rule at_nonzero [OF q(1)])
  then have "\<not> is_ws (at b q)" using advance_stop [of is_ws b s] by (simp add: q_def)
  then have "is_word (at b q)" using is_word_default q(2,3) by blast
  then have "q < advance is_word b q" by (rule advance_step [OF ql])
  moreover have "advance is_word b q \<le> length b" using ql by (intro advance_le) simp
  ultimately show ?thesis
    using q(4) advance_run [of is_word b q] advance_stop [of is_word b q]
    by (auto simp: word_span_def span_str_def at_def)
qed

abbreviation words_ok :: "byte list \<Rightarrow> span cmd \<Rightarrow> bool" where
  "words_ok b c \<equiv> (\<forall>w\<in>set_cmd c. word_span b w)"

lemma set_cmd_add_arg: "set_cmd (add_arg w c) \<subseteq> insert w (set_cmd c)"
  by (induction w c rule: add_arg.induct) auto

lemma parseredirs_words: "words_ok b c \<Longrightarrow> parseredirs c b s = Inr (c', s') \<Longrightarrow> words_ok b c'"
proof (induction c b s rule: parseredirs.induct)
  case (1 c b s)
  obtain r s1 where p: "peek b s [0x3c, 0x3e] = (r, s1)" by fastforce
  obtain t sp1 s2 where g: "gettoken b s1 = (t, sp1, s2)" by (metis surj_pair)
  obtain u sp2 s3 where h: "gettoken b s2 = (u, sp2, s3)" by (metis surj_pair)
  show ?case
  proof (cases r)
    case True
    then have u: "u = 0x61" using 1(3) p g h by (subst (asm) parseredirs.simps) (simp split: if_splits)
    then have w: "word_span b sp2" using gettoken_word h by simp
    show ?thesis
      by (rule 1(1) [OF p [symmetric] _ g [symmetric] refl h [symmetric] refl])
        (use 1(2,3) p g h True u w in \<open>simp_all add: parseredirs.simps [of c b s]\<close>)
  next
    case False
    then show ?thesis using 1(2,3) p by (simp add: parseredirs.simps [of c b s])
  qed
qed

lemma args_loop_words: "words_ok b ret \<Longrightarrow> args_loop ret argc b s = Inr (c', s') \<Longrightarrow> words_ok b c'"
proof (induction ret argc b s rule: args_loop.induct)
  case (1 ret argc b s)
  obtain r s1 where p: "peek b s [0x7c, 0x29, 0x26, 0x3b] = (r, s1)" by fastforce
  obtain t sp s2 where g: "gettoken b s1 = (t, sp, s2)" by (metis surj_pair)
  show ?case
  proof (cases "r \<or> t = 0")
    case True
    then show ?thesis using 1(2,3) p g by (cases r) (simp_all add: args_loop.simps [of ret argc b s])
  next
    case False
    then have t: "t = 0x61" "\<not> MAXARGS \<le> argc + 1"
      using 1(3) p g by (simp_all add: args_loop.simps [of ret argc b s] split: if_splits)
    then obtain c1 s3 where d: "parseredirs (add_arg sp ret) b s2 = Inr (c1, s3)" "args_loop c1 (argc + 1) b s3 = Inr (c', s')"
      using 1(3) p g False by (auto simp: args_loop.simps [of ret argc b s] pbind_Inr)
    have "words_ok b (add_arg sp ret)" using gettoken_word g t(1) 1(2) set_cmd_add_arg [of sp ret] by blast
    then have "words_ok b c1" by (rule parseredirs_words [OF _ d(1)])
    then show ?thesis
      using 1(1) [OF p [symmetric] _ g [symmetric] refl _ _ _ d(1) _ d(2)] False t by simp
  qed
qed

lemma back_loop_words: "words_ok b c \<Longrightarrow> back_loop c b s = (c', s') \<Longrightarrow> words_ok b c'"
proof (induction c b s rule: back_loop.induct)
  case (1 c b s)
  obtain r s1 where p: "peek b s [0x26] = (r, s1)" by fastforce
  obtain t sp s2 where g: "gettoken b s1 = (t, sp, s2)" by (metis surj_pair)
  show ?case
    using 1(1) [OF p [symmetric] _ g [symmetric] refl] 1(2,3) p g
    by (cases r) (simp_all add: back_loop.simps [of c b s])
qed

definition yields :: "('a \<Rightarrow> bool) \<Rightarrow> 'a pres \<Rightarrow> bool" where
  "yields P r \<longleftrightarrow> (\<forall>c s. r = Inr (c, s) \<longrightarrow> P c)"

lemma yields_simps [simp]: "yields P (Inl e)" "yields P (Inr (c, s)) \<longleftrightarrow> P c"
  by (simp_all add: yields_def)

lemma yields_pbind: "yields P r \<Longrightarrow> (\<And>c s. P c \<Longrightarrow> yields Q (f c s)) \<Longrightarrow> yields Q (pbind r f)"
  by (fastforce simp: yields_def pbind_Inr)

lemma parseredirs_yields: "words_ok b c \<Longrightarrow> yields (words_ok b) (parseredirs c b s)"
  using parseredirs_words unfolding yields_def by blast

lemma args_loop_yields: "words_ok b c \<Longrightarrow> yields (words_ok b) (args_loop c k b s)"
  using args_loop_words unfolding yields_def by blast

lemma parse_words:
  "yields (words_ok b) (parseline n b s) \<and> yields (words_ok b) (parsepipe n b s) \<and>
    yields (words_ok b) (parseexec n b s) \<and> yields (words_ok b) (parseblock n b s)"
proof (induction n arbitrary: s)
  case (Suc n)
  note IH = Suc [THEN conjunct1] Suc [THEN conjunct2, THEN conjunct1]
    Suc [THEN conjunct2, THEN conjunct2, THEN conjunct1] Suc [THEN conjunct2, THEN conjunct2, THEN conjunct2]
  have "yields (words_ok b) (parseline (Suc n) b s)"
    unfolding parseline.simps
    by (rule yields_pbind [OF IH(2)])
      (auto split: prod.split bool.split intro!: yields_pbind [OF IH(1)] dest: bspec [OF back_loop_words [rotated]])
  moreover have "yields (words_ok b) (parsepipe (Suc n) b s)"
    unfolding parsepipe.simps
    by (rule yields_pbind [OF IH(3)]) (auto split: prod.split bool.split intro!: yields_pbind [OF IH(2)])
  moreover have "yields (words_ok b) (parseexec (Suc n) b s)"
    unfolding parseexec.simps
    by (auto split: prod.split bool.split intro!: IH(4) yields_pbind [OF parseredirs_yields] args_loop_yields)
  moreover have "yields (words_ok b) (parseblock (Suc n) b s)"
    unfolding parseblock.simps
    by (auto split: prod.split bool.split intro!: yields_pbind [OF IH(1)] parseredirs_yields)
  ultimately show ?case by blast
qed simp

lemma fold_zero:
  "length (fold (\<lambda>(q, eq) b. b[eq := 0]) ws b) = length b"
  "i < length b \<Longrightarrow> fold (\<lambda>(q, eq) b. b[eq := 0]) ws b ! i = (if \<exists>q. (q, i) \<in> set ws then 0 else b ! i)"
  by (induction ws arbitrary: b) (auto simp: nth_update)

lemma nulterminate_nth:
  "length (nulterminate c b) = length b \<and>
    (\<forall>i < length b. nulterminate c b ! i = (if \<exists>q. (q, i) \<in> set_cmd c then 0 else b ! i))"
  by (induction c b rule: nulterminate.induct) (auto simp: fold_zero nth_update)

lemma terminated_word:
  assumes ok: "words_ok b c" and nul: "0 \<notin> set b" and w: "(q, eq) \<in> set_cmd c"
  shows "cstr (drop q (nulterminate c b)) = span_str b (q, eq)"
proof -
  define b' where "b' = nulterminate c b"
  note n = nulterminate_nth [of c b, folded b'_def]
  have s: "q < eq" "eq \<le> length b" "list_all is_word (span_str b (q, eq))" using ok w by (auto simp: word_span_def)
  have keep: "b' ! i = b ! i" if i: "q \<le> i" "i < eq" for i
  proof -
    have "is_word (b ! i)"
      using s i by (auto simp: span_str_def list_all_length dest: spec [of _ "i - q"])
    then have "\<not> (\<exists>q. (q, i) \<in> set_cmd c)" using ok i s(2) by (auto simp: word_span_def)
    then show ?thesis using n i s(2) by simp
  qed
  have t: "take (eq - q) (drop q b') = span_str b (q, eq)"
    using s n keep by (intro nth_equalityI) (auto simp: span_str_def)
  have "drop q b' = span_str b (q, eq) @ drop eq b'"
    using append_take_drop_id [of "eq - q" "drop q b'"] s t by simp
  moreover have "0 \<notin> set (span_str b (q, eq))"
    using nul set_take_subset [of "eq - q" "drop q b"] set_drop_subset [of q b] by (auto simp: span_str_def)
  moreover have "drop eq b' = [] \<or> (\<exists>r. drop eq b' = 0 # r)"
  proof (cases "eq < length b")
    case True
    then have z: "b' ! eq = 0" using n w by auto
    have "drop eq b' = b' ! eq # drop (Suc eq) b'" using True n Cons_nth_drop_Suc [of eq b'] by simp
    then show ?thesis unfolding z by blast
  qed (use n in simp)
  ultimately show ?thesis
    unfolding b'_def [symmetric] by (auto simp: cstr_zero) (auto simp: cstr_def takeWhile_eq_all_conv)
qed

end
