(* ===== verification/Xv6_Shparse.thy ===== *)
theory Xv6_Shparse
  imports Xv6_Shell
begin

text \<open>
  The parser of the shell against the syntax of commands: a printer for all commands, with
  parentheses where the grammar needs them, and the proof that the parser inverts it.
\<close>

subsection \<open>Printing\<close>

fun level :: "'w cmd \<Rightarrow> nat" where
  "level (LIST l r) = 0"
| "level (BACK c) = 1"
| "level (PIPE l r) = 2"
| "level c = 3"

definition par :: "nat \<Rightarrow> 'w cmd \<Rightarrow> byte list \<Rightarrow> byte list" where
  "par k c t = (if level c < k then 0x28 # t @ [0x29] else t)"

fun show_cmd :: "cstring cmd \<Rightarrow> byte list" where
  "show_cmd (EXEC ws) = concat (map (\<lambda>w. w @ [0x20]) ws)"
| "show_cmd (REDIR c w m fd) = par 3 c (show_cmd c) @ (if fd = 0 then 0x3c else 0x3e) # w @ [0x20]"
| "show_cmd (PIPE l r) = par 3 l (show_cmd l) @ 0x7c # par 2 r (show_cmd r)"
| "show_cmd (LIST l r) = par 1 l (show_cmd l) @ 0x3b # show_cmd r"
| "show_cmd (BACK c) = par 1 c (show_cmd c) @ [0x26]"

definition word_ok :: "cstring \<Rightarrow> bool" where
  "word_ok w \<longleftrightarrow> w \<noteq> [] \<and> list_all is_word w \<and> 0 \<notin> set w"

text \<open>The commands of the language: words of word bytes, fewer than ten of them, the two redirections.\<close>

fun wf_cmd :: "cstring cmd \<Rightarrow> bool" where
  "wf_cmd (EXEC ws) \<longleftrightarrow> length ws < MAXARGS \<and> list_all word_ok ws"
| "wf_cmd (REDIR c w m fd) \<longleftrightarrow> wf_cmd c \<and> word_ok w \<and> (m, fd) \<in> {(O_RDONLY, 0), (O_WRONLY OR O_CREATE, 1)}"
| "wf_cmd (PIPE l r) \<longleftrightarrow> wf_cmd l \<and> wf_cmd r"
| "wf_cmd (LIST l r) \<longleftrightarrow> wf_cmd l \<and> wf_cmd r"
| "wf_cmd (BACK c) \<longleftrightarrow> wf_cmd c"

subsection \<open>Tokens of a printed command\<close>

text \<open>Text that does not start with white space, so that no token skips over its start.\<close>

definition clean :: "byte list \<Rightarrow> bool" where
  "clean t \<longleftrightarrow> (t = [] \<or> \<not> is_ws (hd t))"

definition rest_at :: "byte list \<Rightarrow> nat \<Rightarrow> byte list \<Rightarrow> bool" where
  "rest_at b s t \<longleftrightarrow> s \<le> length b \<and> drop s b = t"

lemma rest_at_append: "rest_at b s (u @ t) \<Longrightarrow> rest_at b (s + length u) t"
proof -
  assume r: "rest_at b s (u @ t)"
  then have d: "drop s b = u @ t" and l: "length b - s = length u + length t" "s \<le> length b"
    by (auto simp: rest_at_def dest: arg_cong [of _ _ length])
  have "drop (s + length u) b = drop (length u) (drop s b)" by (simp add: add.commute)
  then show ?thesis using d l by (simp add: rest_at_def)
qed

lemma rest_at_Cons: "rest_at b s (c # t) \<Longrightarrow> rest_at b (Suc s) t"
  using rest_at_append [of b s "[c]" t] by simp

lemma rest_at_at: "rest_at b s t \<Longrightarrow> at b s = first t"
  by (cases t) (auto simp: rest_at_def at_def first_def nth_via_drop drop_eq_Nil)

lemma rest_at_length: "rest_at b s t \<Longrightarrow> length t = length b - s"
  by (auto simp: rest_at_def)

lemma advance_clean: "rest_at b s t \<Longrightarrow> clean t \<Longrightarrow> advance is_ws b s = s"
  by (cases t) (auto simp: rest_at_def advance_takeWhile clean_def)

lemma peek_clean:
  "rest_at b s t \<Longrightarrow> clean t \<Longrightarrow> peek b s toks = (first t \<noteq> 0 \<and> first t \<in> set toks, s)"
  by (simp add: peek_def advance_clean rest_at_at strchr_None)

lemma gettoken_symbol:
  assumes "rest_at b s (c # t)" "c \<in> {0x7c, 0x28, 0x29, 0x3b, 0x26, 0x3c}" "clean t"
  shows "gettoken b s = (c, (s, Suc s), Suc s)"
proof -
  have "clean (c # t)" using assms(2) by (auto simp: clean_def is_ws_def strchr_None whitespace_def)
  then show ?thesis
    using assms(2) advance_clean [OF assms(1)] rest_at_at [OF assms(1)] advance_clean [OF rest_at_Cons [OF assms(1)] assms(3)]
    by (auto simp: gettoken_def first_def)
qed

lemma gettoken_gt:
  assumes "rest_at b s (0x3e # t)" "first t \<noteq> 0x3e" "clean t"
  shows "gettoken b s = (0x3e, (s, Suc s), Suc s)"
proof -
  have "clean (0x3e # t)" by (auto simp: clean_def is_ws_def strchr_None whitespace_def)
  then show ?thesis
    using assms(2) advance_clean [OF assms(1)] rest_at_at [OF assms(1)] rest_at_at [OF rest_at_Cons [OF assms(1)]]
      advance_clean [OF rest_at_Cons [OF assms(1)] assms(3)]
    by (auto simp: gettoken_def first_def)
qed

lemma is_word_not: "is_word c \<Longrightarrow> \<not> is_ws c \<and> c \<notin> {0x7c, 0x28, 0x29, 0x3b, 0x26, 0x3c, 0x3e}"
  by (auto simp: is_word_def is_ws_def strchr_None symbols_def)

lemma gettoken_wd:
  assumes r: "rest_at b s (w @ 0x20 # t)" and w: "word_ok w" and t: "clean t"
  shows "gettoken b s = (0x61, (s, s + length w), Suc (s + length w)) \<and> span_str b (s, s + length w) = w \<and>
    rest_at b (Suc (s + length w)) t"
proof -
  obtain c v where cv: "w = c # v" "is_word c" "c \<noteq> 0" using w by (cases w) (auto simp: word_ok_def)
  have cl: "clean (w @ 0x20 # t)" using cv is_word_not by (auto simp: clean_def)
  have sp: "\<not> is_word 0x20" "is_ws 0x20" by (simp_all add: is_word_def is_ws_def whitespace_def)
  have d: "drop s b = w @ 0x20 # t" using r by (simp add: rest_at_def)
  have e: "advance is_word b s = s + length w"
    using w sp(1) by (simp add: advance_takeWhile d word_ok_def list_all_iff)
  have r1: "rest_at b (s + length w) (0x20 # t)" by (rule rest_at_append [OF r])
  have r2: "rest_at b (Suc (s + length w)) t" by (rule rest_at_Cons [OF r1])
  have "advance is_ws b (s + length w) = Suc (s + length w)"
  proof -
    have "drop (s + length w) b = 0x20 # t" using r1 by (simp add: rest_at_def)
    then show ?thesis using sp(2) t by (cases t) (auto simp: advance_takeWhile clean_def)
  qed
  then have "gettoken b s = (0x61, (s, s + length w), Suc (s + length w))"
    using advance_clean [OF r cl] rest_at_at [OF r] e is_word_not [OF cv(2)] cv
    by (auto simp: gettoken_def first_def)
  then show ?thesis using r2 d by (simp add: span_str_def)
qed

lemma clean_word: "word_ok w \<Longrightarrow> clean (w @ t)"
  using is_word_not by (cases w) (auto simp: word_ok_def clean_def)

lemma first_word: "word_ok w \<Longrightarrow> is_word (first (w @ t)) \<and> first (w @ t) \<noteq> 0"
  by (cases w) (auto simp: word_ok_def first_def)

lemma clean_symbol: "c \<in> set symbols \<Longrightarrow> clean (c # t)"
  by (auto simp: clean_def is_ws_def strchr_None whitespace_def symbols_def)

lemma clean_words: "list_all word_ok ws \<Longrightarrow> clean t \<Longrightarrow> clean (concat (map (\<lambda>w. w @ [0x20]) ws) @ t)"
  by (cases ws) (auto intro: clean_word)

lemma clean_show: "wf_cmd c \<Longrightarrow> clean t \<Longrightarrow> clean (par k c (show_cmd c) @ t)"
proof (induction c arbitrary: k t)
  case (EXEC ws)
  then show ?case by (auto simp: par_def clean_words intro!: clean_symbol simp: symbols_def)
next
  case (REDIR c w m fd)
  then show ?case by (auto simp: par_def [of _ "REDIR _ _ _ _"] intro!: REDIR.IH clean_symbol simp: symbols_def)
next
  case (PIPE l r)
  then show ?case by (auto simp: par_def [of _ "PIPE _ _"] intro!: PIPE.IH clean_symbol simp: symbols_def)
next
  case (LIST l r)
  then show ?case by (auto simp: par_def [of _ "LIST _ _"] intro!: LIST.IH clean_symbol simp: symbols_def)
next
  case (BACK c)
  then show ?case by (auto simp: par_def [of _ "BACK _"] intro!: BACK.IH clean_symbol simp: symbols_def)
qed

subsection \<open>Redirections and arguments\<close>

text \<open>What may follow a printed command at each level, up to the end of the line.\<close>

definition follows :: "byte list \<Rightarrow> byte list \<Rightarrow> bool" where
  "follows S t \<longleftrightarrow> (t = [] \<or> hd t \<in> set S)"

lemma follows_clean: "follows S t \<Longrightarrow> set S \<subseteq> set symbols \<Longrightarrow> clean t"
  by (cases t) (simp add: clean_def, auto simp: follows_def intro!: clean_symbol)

lemma follows_first: "follows S t \<Longrightarrow> first t = 0 \<or> first t \<in> set S"
  by (cases t) (auto simp: follows_def first_def)

abbreviation "X_sym \<equiv> [0x7c, 0x29, 0x26, 0x3b, 0x3c, 0x3e] :: byte list"
abbreviation "E_sym \<equiv> [0x7c, 0x29, 0x26, 0x3b] :: byte list"
abbreviation "P_sym \<equiv> [0x29, 0x26, 0x3b] :: byte list"
abbreviation "L_sym \<equiv> [0x29] :: byte list"

lemma parseredirs_none:
  assumes "rest_at b s t" "clean t" "first t \<notin> {0x3c, 0x3e}"
  shows "parseredirs c b s = Inr (c, s)"
  using peek_clean [OF assms(1,2)] assms(3) by (subst parseredirs.simps) auto

lemma parseredirs_one:
  assumes r: "rest_at b s ((if fd = 0 then 0x3c else 0x3e) # w @ 0x20 # t)" and w: "word_ok w" and t: "clean t"
    and m: "(m, fd) \<in> {(O_RDONLY, 0), (O_WRONLY OR O_CREATE, 1)}"
  shows "\<exists>sp s'. parseredirs c b s = parseredirs (REDIR c sp m fd) b s' \<and> span_str b sp = w \<and> rest_at b s' t"
proof -
  let ?c = "if fd = 0 then 0x3c else 0x3e :: byte"
  have cw: "clean (w @ 0x20 # t)" by (rule clean_word [OF w])
  have f: "first (w @ 0x20 # t) \<noteq> 0x3e" using first_word [OF w, of "0x20 # t"] is_word_not by auto
  have p: "peek b s [0x3c, 0x3e] = (True, s)"
    using peek_clean [OF r, of "[0x3c, 0x3e]"] clean_symbol [of ?c] by (auto simp: first_def symbols_def)
  have g: "gettoken b s = (?c, (s, Suc s), Suc s)"
    using r gettoken_symbol [of b s "0x3c" "w @ 0x20 # t"] gettoken_gt [of b s "w @ 0x20 # t"] cw f by auto
  define sp where "sp = (Suc s, Suc s + length w)"
  have h: "gettoken b (Suc s) = (0x61, sp, Suc (Suc s + length w))" "span_str b sp = w" "rest_at b (Suc (Suc s + length w)) t"
    using gettoken_wd [OF rest_at_Cons [OF r] w t] unfolding sp_def by auto
  have "parseredirs c b s = parseredirs (REDIR c sp m fd) b (Suc (Suc s + length w))"
    using p g h(1) m by (subst parseredirs.simps) auto
  with h(2,3) show ?thesis by blast
qed

definition exec_tail :: "span cmd \<Rightarrow> nat \<Rightarrow> byte list \<Rightarrow> nat \<Rightarrow> span cmd pres" where
  "exec_tail c k b s = pbind (parseredirs c b s) (\<lambda>c s. args_loop c k b s)"

lemma exec_tail_words:
  assumes "rest_at b s (concat (map (\<lambda>w. w @ [0x20]) ws) @ t)" "clean t" "list_all word_ok ws"
    "length vs + length ws < MAXARGS"
  shows "\<exists>us s'. exec_tail (EXEC vs) (length vs) b s = exec_tail (EXEC (vs @ us)) (length vs + length ws) b s' \<and>
    map (span_str b) us = ws \<and> rest_at b s' t"
  using assms
proof (induction ws arbitrary: vs s)
  case Nil
  then show ?case by (intro exI [of _ "[]"] exI [of _ s]) simp
next
  case (Cons w ws)
  define t' where "t' = concat (map (\<lambda>w. w @ [0x20]) ws) @ t"
  have r: "rest_at b s (w @ 0x20 # t')" and w: "word_ok w" and ct: "clean t'"
    using Cons.prems clean_words [of ws t] by (auto simp: t'_def)
  have cw: "clean (w @ 0x20 # t')" by (rule clean_word [OF w])
  note fw = first_word [OF w, of "0x20 # t'"]
  define sp where "sp = (s, s + length w)"
  have g: "gettoken b s = (0x61, sp, Suc (s + length w))" "span_str b sp = w" "rest_at b (Suc (s + length w)) t'"
    using gettoken_wd [OF r w ct] unfolding sp_def by auto
  have "parseredirs (EXEC vs) b s = Inr (EXEC vs, s)"
    by (rule parseredirs_none [OF r cw]) (use fw is_word_not in auto)
  moreover have "peek b s E_sym = (False, s)" using peek_clean [OF r cw, of E_sym] fw is_word_not by auto
  ultimately have "exec_tail (EXEC vs) (length vs) b s = exec_tail (EXEC (vs @ [sp])) (length (vs @ [sp])) b (Suc (s + length w))"
    using g(1) Cons.prems(4) by (simp add: exec_tail_def args_loop.simps [of _ _ b s])
  moreover obtain us s' where
    "exec_tail (EXEC (vs @ [sp])) (length (vs @ [sp])) b (Suc (s + length w)) =
      exec_tail (EXEC ((vs @ [sp]) @ us)) (length (vs @ [sp]) + length ws) b s'"
    "map (span_str b) us = ws" "rest_at b s' t"
    using Cons.IH [of "Suc (s + length w)" "vs @ [sp]"] g(3) Cons.prems by (auto simp: t'_def)
  ultimately show ?case using g(2) by (intro exI [of _ "sp # us"] exI [of _ s']) simp
qed

subsection \<open>The levels of the grammar\<close>

text \<open>
  What each routine does on a printed command: it takes exactly the command and stops before what
  follows.  At the level of \<open>parseexec\<close> and of the background loop, redirections and ampersands may
  still come, so the claim is about the rest of the loop.
\<close>

fun base_args :: "'w cmd \<Rightarrow> nat option" where
  "base_args (EXEC ws) = Some (length ws)"
| "base_args (REDIR c w m fd) = base_args c"
| "base_args c = None"

definition cont :: "span cmd \<Rightarrow> byte list \<Rightarrow> nat \<Rightarrow> span cmd pres" where
  "cont c b s = (case base_args c of Some k \<Rightarrow> exec_tail c k b s | None \<Rightarrow> parseredirs c b s)"

definition need :: "byte list \<Rightarrow> nat \<Rightarrow> nat" where
  "need b s = 4 * (length b - s)"

definition X_ok :: "cstring cmd \<Rightarrow> bool" where
  "X_ok c \<longleftrightarrow> (\<forall>b s n t. rest_at b s (par 3 c (show_cmd c) @ t) \<longrightarrow> follows X_sym t \<longrightarrow> need b s + 2 \<le> n \<longrightarrow>
    (\<exists>c' s'. parseexec n b s = cont c' b s' \<and> map_cmd (span_str b) c' = c \<and> rest_at b s' t))"

definition P_ok :: "cstring cmd \<Rightarrow> bool" where
  "P_ok c \<longleftrightarrow> (\<forall>b s n t. rest_at b s (par 2 c (show_cmd c) @ t) \<longrightarrow> follows P_sym t \<longrightarrow> need b s + 3 \<le> n \<longrightarrow>
    (\<exists>c' s'. parsepipe n b s = Inr (c', s') \<and> map_cmd (span_str b) c' = c \<and> rest_at b s' t))"

definition B_ok :: "cstring cmd \<Rightarrow> bool" where
  "B_ok c \<longleftrightarrow> (\<forall>b s n t. rest_at b s (par 1 c (show_cmd c) @ t) \<longrightarrow> follows P_sym t \<longrightarrow> need b s + 3 \<le> n \<longrightarrow>
    (\<exists>c' s'. pbind (parsepipe n b s) (\<lambda>c s. Inr (back_loop c b s)) = Inr (back_loop c' b s') \<and>
      map_cmd (span_str b) c' = c \<and> rest_at b s' t))"

definition L_ok :: "cstring cmd \<Rightarrow> bool" where
  "L_ok c \<longleftrightarrow> (\<forall>b s n t. rest_at b s (show_cmd c @ t) \<longrightarrow> follows L_sym t \<longrightarrow> need b s + 4 \<le> n \<longrightarrow>
    (\<exists>c' s'. parseline n b s = Inr (c', s') \<and> map_cmd (span_str b) c' = c \<and> rest_at b s' t))"

lemma need_Cons: "rest_at b s (c # t) \<Longrightarrow> rest_at b s' t \<Longrightarrow> need b s' + 4 = need b s"
  using rest_at_length [of b s "c # t"] rest_at_length [of b s' t] by (simp add: need_def rest_at_def)

lemma need_append: "rest_at b s (u @ t) \<Longrightarrow> rest_at b s' t \<Longrightarrow> need b s' \<le> need b s"
  using rest_at_length [of b s "u @ t"] rest_at_length [of b s' t] by (simp add: need_def)

lemma cont_stops:
  assumes r: "rest_at b s t" and f: "follows E_sym t"
  shows "cont c b s = Inr (c, s)"
proof -
  have ct: "clean t" by (rule follows_clean [OF f]) (simp add: symbols_def)
  have n: "parseredirs c b s = Inr (c, s)" by (rule parseredirs_none [OF r ct]) (use follows_first [OF f] in auto)
  have "args_loop c k b s = Inr (c, s)" for k
  proof (cases t)
    case Nil
    then have "gettoken b s = (0, (s, s), s)" "peek b s E_sym = (False, s)"
      using r ct peek_clean [OF r ct] rest_at_at [OF r] advance_clean [OF r] by (auto simp: gettoken_def first_def)
    then show ?thesis by (subst args_loop.simps) simp
  next
    case (Cons x u)
    then have "peek b s E_sym = (True, s)" using peek_clean [OF r ct] f by (auto simp: follows_def first_def)
    then show ?thesis by (subst args_loop.simps) simp
  qed
  with n show ?thesis by (simp add: cont_def exec_tail_def split: option.split)
qed

lemma P_from_X:
  assumes X: "X_ok c" and l: "level c \<noteq> 2"
  shows "P_ok c"
  unfolding P_ok_def
proof (intro allI impI)
  fix b s n t
  assume r: "rest_at b s (par 2 c (show_cmd c) @ t)" and f: "follows P_sym t" and n: "need b s + 3 \<le> n"
  obtain m where m: "n = Suc m" using n by (cases n) auto
  have e: "par 2 c (show_cmd c) = par 3 c (show_cmd c)" using l by (cases c) (auto simp: par_def)
  obtain c' s' where x: "parseexec m b s = cont c' b s'" "map_cmd (span_str b) c' = c" "rest_at b s' t"
    using X [unfolded X_ok_def, rule_format, of b s t m] r f n m e by (auto simp: follows_def)
  have "cont c' b s' = Inr (c', s')" by (rule cont_stops [OF x(3)]) (use f in \<open>auto simp: follows_def\<close>)
  moreover have "peek b s' [0x7c] = (False, s')"
    using peek_clean [OF x(3) follows_clean [OF f]] follows_first [OF f] by (auto simp: symbols_def)
  ultimately show "\<exists>c' s'. parsepipe n b s = Inr (c', s') \<and> map_cmd (span_str b) c' = c \<and> rest_at b s' t"
    using x m by auto
qed

lemma B_from_P:
  assumes P: "P_ok c" and l: "level c \<noteq> 1"
  shows "B_ok c"
  unfolding B_ok_def
proof (intro allI impI)
  fix b s n t
  assume r: "rest_at b s (par 1 c (show_cmd c) @ t)" and f: "follows P_sym t" and n: "need b s + 3 \<le> n"
  have e: "par 1 c (show_cmd c) = par 2 c (show_cmd c)" using l by (cases c) (auto simp: par_def)
  from P [unfolded P_ok_def, rule_format, of b s t n] r f n e
  show "\<exists>c' s'. pbind (parsepipe n b s) (\<lambda>c s. Inr (back_loop c b s)) = Inr (back_loop c' b s') \<and>
      map_cmd (span_str b) c' = c \<and> rest_at b s' t" by fastforce
qed

lemma back_loop_stops:
  assumes r: "rest_at b s t" and f: "follows [0x29, 0x3b] t"
  shows "back_loop c b s = (c, s)"
proof -
  have "peek b s [0x26] = (False, s)"
    using peek_clean [OF r follows_clean [OF f]] follows_first [OF f] by (auto simp: symbols_def)
  then show ?thesis by (subst back_loop.simps) simp
qed

lemma parseline_head:
  assumes "pbind (parsepipe n b s) (\<lambda>c s. Inr (back_loop c b s)) = Inr (back_loop c' b s')"
    "rest_at b s' t" "follows [0x29, 0x3b] t"
  shows "parseline (Suc n) b s =
    (case peek b s' [0x3b] of (False, s) \<Rightarrow> Inr (c', s)
     | (True, s) \<Rightarrow> case gettoken b s of (_, _, s) \<Rightarrow> pbind (parseline n b s) (\<lambda>r s. Inr (LIST c' r, s)))"
proof -
  obtain c0 s0 where "parsepipe n b s = Inr (c0, s0)" "back_loop c0 b s0 = (c', s')"
    using assms(1) back_loop_stops [OF assms(2,3)] by (auto simp: pbind_Inr)
  then show ?thesis by simp
qed

lemma L_from_B:
  assumes B: "B_ok c" and l: "level c \<noteq> 0"
  shows "L_ok c"
  unfolding L_ok_def
proof (intro allI impI)
  fix b s n t
  assume r: "rest_at b s (show_cmd c @ t)" and f: "follows L_sym t" and n: "need b s + 4 \<le> n"
  obtain m where m: "n = Suc m" using n by (cases n) auto
  have e: "par 1 c (show_cmd c) = show_cmd c" using l by (simp add: par_def)
  obtain c' s' where x: "pbind (parsepipe m b s) (\<lambda>c s. Inr (back_loop c b s)) = Inr (back_loop c' b s')"
      "map_cmd (span_str b) c' = c" "rest_at b s' t"
    using B [unfolded B_ok_def, rule_format, of b s t m] r f n m e by (auto simp: follows_def)
  have "peek b s' [0x3b] = (False, s')"
    using peek_clean [OF x(3) follows_clean [OF f]] follows_first [OF f] by (auto simp: symbols_def)
  then have "parseline n b s = Inr (c', s')"
    using parseline_head [OF x(1,3)] f m by (auto simp: follows_def)
  with x(2,3) show "\<exists>c' s'. parseline n b s = Inr (c', s') \<and> map_cmd (span_str b) c' = c \<and> rest_at b s' t" by blast
qed

lemma base_args_map [simp]: "base_args (map_cmd f c) = base_args c"
  by (induction c) auto

lemma X_from_L:
  assumes L: "L_ok c" and l: "level c < 3" and wf: "wf_cmd c"
  shows "X_ok c"
  unfolding X_ok_def
proof (intro allI impI)
  fix b s n t
  assume r0: "rest_at b s (par 3 c (show_cmd c) @ t)" and f: "follows X_sym t" and n: "need b s + 2 \<le> n"
  have r: "rest_at b s (0x28 # show_cmd c @ 0x29 # t)" using r0 l by (simp add: par_def)
  obtain m where m: "n = Suc (Suc m)" using n by (cases n; cases "n - 1") auto
  have ct: "clean t" by (rule follows_clean [OF f]) (simp add: symbols_def)
  have c0: "clean (0x28 # show_cmd c @ 0x29 # t)" by (rule clean_symbol) (simp add: symbols_def)
  have c1: "clean (0x29 # t)" by (rule clean_symbol) (simp add: symbols_def)
  then have c2: "clean (show_cmd c @ 0x29 # t)" using clean_show [OF wf, of _ 0] by (simp add: par_def)
  have p: "peek b s [0x28] = (True, s)" using peek_clean [OF r c0] by (simp add: first_def)
  have g: "gettoken b s = (0x28, (s, Suc s), Suc s)" by (rule gettoken_symbol [OF r _ c2]) simp
  have r1: "rest_at b (Suc s) (show_cmd c @ 0x29 # t)" by (rule rest_at_Cons [OF r])
  obtain c' s' where x: "parseline m b (Suc s) = Inr (c', s')" "map_cmd (span_str b) c' = c" "rest_at b s' (0x29 # t)"
    using L [unfolded L_ok_def, rule_format, of b "Suc s" "0x29 # t" m] r1 n m need_Cons [OF r r1]
    by (auto simp: follows_def)
  have p': "peek b s' [0x29] = (True, s')" using peek_clean [OF x(3) c1] by (simp add: first_def)
  have g': "gettoken b s' = (0x29, (s', Suc s'), Suc s')" by (rule gettoken_symbol [OF x(3) _ ct]) simp
  have "base_args c' = None" using x(2) l base_args_map [of "span_str b" c'] by (cases c) auto
  then have "parseexec n b s = cont c' b (Suc s')" using m p g x(1) p' g' by (simp add: cont_def)
  with x(2) rest_at_Cons [OF x(3)]
  show "\<exists>c' s'. parseexec n b s = cont c' b s' \<and> map_cmd (span_str b) c' = c \<and> rest_at b s' t" by blast
qed

lemma X_exec:
  assumes "wf_cmd (EXEC ws)"
  shows "X_ok (EXEC ws)"
  unfolding X_ok_def
proof (intro allI impI)
  fix b s n t
  assume r: "rest_at b s (par 3 (EXEC ws) (show_cmd (EXEC ws)) @ t)" and f: "follows X_sym t" and n: "need b s + 2 \<le> n"
  obtain m where m: "n = Suc m" using n by (cases n) auto
  have ct: "clean t" by (rule follows_clean [OF f]) (simp add: symbols_def)
  have r1: "rest_at b s (concat (map (\<lambda>w. w @ [0x20]) ws) @ t)" using r by (simp add: par_def)
  have "first (concat (map (\<lambda>w. w @ [0x20]) ws) @ t) \<noteq> 0x28"
  proof (cases ws)
    case Nil
    then show ?thesis using follows_first [OF f] by auto
  next
    case (Cons w ws')
    then show ?thesis using first_word [of w] is_word_not assms by fastforce
  qed
  then have p: "peek b s [0x28] = (False, s)"
    using peek_clean [OF r1 clean_words [OF _ ct]] assms by auto
  obtain us s' where x: "exec_tail (EXEC []) 0 b s = exec_tail (EXEC us) (length ws) b s'" "map (span_str b) us = ws" "rest_at b s' t"
    using exec_tail_words [OF r1 ct, of "[]"] assms by auto
  have "length us = length ws" using x(2) by auto
  then have "parseexec n b s = cont (EXEC us) b s'" using m p x(1) by (simp add: cont_def exec_tail_def)
  with x(2,3) show "\<exists>c' s'. parseexec n b s = cont c' b s' \<and> map_cmd (span_str b) c' = EXEC ws \<and> rest_at b s' t"
    by (intro exI [of _ "EXEC us"] exI [of _ s']) simp
qed

lemma X_redir:
  assumes X: "X_ok c" and wf: "wf_cmd (REDIR c w m fd)"
  shows "X_ok (REDIR c w m fd)"
  unfolding X_ok_def
proof (intro allI impI)
  fix b s n t
  assume r: "rest_at b s (par 3 (REDIR c w m fd) (show_cmd (REDIR c w m fd)) @ t)" and f: "follows X_sym t"
    and n: "need b s + 2 \<le> n"
  define t' where "t' = (if fd = 0 then 0x3c else 0x3e) # w @ 0x20 # t"
  have ct: "clean t" by (rule follows_clean [OF f]) (simp add: symbols_def)
  have f': "follows X_sym t'" by (simp add: follows_def t'_def)
  have r1: "rest_at b s (par 3 c (show_cmd c) @ t')" using r by (simp add: par_def [of _ "REDIR _ _ _ _"] t'_def)
  obtain c' s' where x: "parseexec n b s = cont c' b s'" "map_cmd (span_str b) c' = c" "rest_at b s' t'"
    using X [unfolded X_ok_def, rule_format, OF r1 f' n] by blast
  have "(m, fd) \<in> {(O_RDONLY, 0), (O_WRONLY OR O_CREATE, 1)}" "word_ok w" using wf by auto
  then obtain sp s'' where y: "parseredirs c' b s' = parseredirs (REDIR c' sp m fd) b s''" "span_str b sp = w" "rest_at b s'' t"
    using parseredirs_one [OF x(3) [unfolded t'_def] _ ct, of m c'] by auto
  have "cont c' b s' = cont (REDIR c' sp m fd) b s''" using y(1) by (simp add: cont_def exec_tail_def split: option.split)
  with x y show "\<exists>c' s'. parseexec n b s = cont c' b s' \<and> map_cmd (span_str b) c' = REDIR c w m fd \<and> rest_at b s' t"
    by (intro exI [of _ "REDIR c' sp m fd"] exI [of _ s'']) simp
qed

lemma P_pipe:
  assumes X: "X_ok l" and P: "P_ok r" and wf: "wf_cmd (PIPE l r)"
  shows "P_ok (PIPE l r)"
  unfolding P_ok_def
proof (intro allI impI)
  fix b s n t
  assume r0: "rest_at b s (par 2 (PIPE l r) (show_cmd (PIPE l r)) @ t)" and f: "follows P_sym t" and n: "need b s + 3 \<le> n"
  obtain m where m: "n = Suc m" using n by (cases n) auto
  define t1 where "t1 = par 2 r (show_cmd r) @ t"
  have ct: "clean t1" unfolding t1_def
    by (rule clean_show) (use wf follows_clean [OF f] in \<open>auto simp: symbols_def\<close>)
  have r1: "rest_at b s (par 3 l (show_cmd l) @ 0x7c # t1)" using r0 by (simp add: par_def [of _ "PIPE _ _"] t1_def)
  have f1: "follows X_sym (0x7c # t1)" by (simp add: follows_def)
  obtain l' s' where x: "parseexec m b s = cont l' b s'" "map_cmd (span_str b) l' = l" "rest_at b s' (0x7c # t1)"
    using X [unfolded X_ok_def, rule_format, OF r1 f1, of m] n m by auto
  have c': "cont l' b s' = Inr (l', s')" by (rule cont_stops [OF x(3)]) (simp add: follows_def)
  have p: "peek b s' [0x7c] = (True, s')"
    using peek_clean [OF x(3) clean_symbol] by (simp add: first_def symbols_def)
  have g: "gettoken b s' = (0x7c, (s', Suc s'), Suc s')" by (rule gettoken_symbol [OF x(3) _ ct]) simp
  have r2: "rest_at b (Suc s') (par 2 r (show_cmd r) @ t)" using rest_at_Cons [OF x(3)] by (simp add: t1_def)
  have n2: "need b (Suc s') + 3 \<le> m"
    using need_append [OF r1 x(3)] need_Cons [OF x(3) rest_at_Cons [OF x(3)]] n m by simp
  obtain r' s'' where y: "parsepipe m b (Suc s') = Inr (r', s'')" "map_cmd (span_str b) r' = r" "rest_at b s'' t"
    using P [unfolded P_ok_def, rule_format, OF r2 f n2] by blast
  have "parsepipe n b s = Inr (PIPE l' r', s'')" using m x(1) c' p g y(1) by simp
  with x(2) y show "\<exists>c' s'. parsepipe n b s = Inr (c', s') \<and> map_cmd (span_str b) c' = PIPE l r \<and> rest_at b s' t"
    by (intro exI [of _ "PIPE l' r'"] exI [of _ s'']) simp
qed

lemma B_back:
  assumes B: "B_ok c" and wf: "wf_cmd c"
  shows "B_ok (BACK c)"
  unfolding B_ok_def
proof (intro allI impI)
  fix b s n t
  assume r: "rest_at b s (par 1 (BACK c) (show_cmd (BACK c)) @ t)" and f: "follows P_sym t" and n: "need b s + 3 \<le> n"
  have ct: "clean t" by (rule follows_clean [OF f]) (simp add: symbols_def)
  have r1: "rest_at b s (par 1 c (show_cmd c) @ 0x26 # t)" using r by (simp add: par_def [of _ "BACK _"])
  have f1: "follows P_sym (0x26 # t)" by (simp add: follows_def)
  obtain c' s' where x: "pbind (parsepipe n b s) (\<lambda>c s. Inr (back_loop c b s)) = Inr (back_loop c' b s')"
      "map_cmd (span_str b) c' = c" "rest_at b s' (0x26 # t)"
    using B [unfolded B_ok_def, rule_format, OF r1 f1 n] by blast
  have p: "peek b s' [0x26] = (True, s')"
    using peek_clean [OF x(3) clean_symbol] by (simp add: first_def symbols_def)
  have g: "gettoken b s' = (0x26, (s', Suc s'), Suc s')" by (rule gettoken_symbol [OF x(3) _ ct]) simp
  have "back_loop c' b s' = back_loop (BACK c') b (Suc s')" using p g by (subst back_loop.simps) simp
  with x rest_at_Cons [OF x(3)]
  show "\<exists>c' s'. pbind (parsepipe n b s) (\<lambda>c s. Inr (back_loop c b s)) = Inr (back_loop c' b s') \<and>
      map_cmd (span_str b) c' = BACK c \<and> rest_at b s' t"
    by (intro exI [of _ "BACK c'"] exI [of _ "Suc s'"]) simp
qed

lemma L_list:
  assumes B: "B_ok l" and L: "L_ok r" and wf: "wf_cmd (LIST l r)"
  shows "L_ok (LIST l r)"
  unfolding L_ok_def
proof (intro allI impI)
  fix b s n t
  assume r0: "rest_at b s (show_cmd (LIST l r) @ t)" and f: "follows L_sym t" and n: "need b s + 4 \<le> n"
  obtain m where m: "n = Suc m" using n by (cases n) auto
  define t1 where "t1 = show_cmd r @ t"
  have ct: "clean t1"
    using clean_show [of r t 0] wf follows_clean [OF f] by (simp add: t1_def par_def symbols_def)
  have r1: "rest_at b s (par 1 l (show_cmd l) @ 0x3b # t1)" using r0 by (simp add: t1_def)
  have f1: "follows P_sym (0x3b # t1)" "follows [0x29, 0x3b] (0x3b # t1)" by (simp_all add: follows_def)
  have n1: "need b s + 3 \<le> m" using n m by simp
  obtain l' s' where x: "pbind (parsepipe m b s) (\<lambda>c s. Inr (back_loop c b s)) = Inr (back_loop l' b s')"
      "map_cmd (span_str b) l' = l" "rest_at b s' (0x3b # t1)"
    using B [unfolded B_ok_def, rule_format, OF r1 f1(1) n1] by blast
  have p: "peek b s' [0x3b] = (True, s')"
    using peek_clean [OF x(3) clean_symbol] by (simp add: first_def symbols_def)
  have g: "gettoken b s' = (0x3b, (s', Suc s'), Suc s')" by (rule gettoken_symbol [OF x(3) _ ct]) simp
  have r2: "rest_at b (Suc s') (show_cmd r @ t)" using rest_at_Cons [OF x(3)] by (simp add: t1_def)
  have n2: "need b (Suc s') + 4 \<le> m"
    using need_append [OF r1 x(3)] need_Cons [OF x(3) rest_at_Cons [OF x(3)]] n m by simp
  obtain r' s'' where y: "parseline m b (Suc s') = Inr (r', s'')" "map_cmd (span_str b) r' = r" "rest_at b s'' t"
    using L [unfolded L_ok_def, rule_format, OF r2 f n2] by blast
  have "parseline n b s = Inr (LIST l' r', s'')" using parseline_head [OF x(1,3) f1(2)] m p g y(1) by simp
  with x(2) y show "\<exists>c' s'. parseline n b s = Inr (c', s') \<and> map_cmd (span_str b) c' = LIST l r \<and> rest_at b s' t"
    by (intro exI [of _ "LIST l' r'"] exI [of _ s'']) simp
qed

lemma all_ok: "wf_cmd c \<Longrightarrow> X_ok c \<and> P_ok c \<and> B_ok c \<and> L_ok c"
proof (induction c)
  case (EXEC ws)
  then have X: "X_ok (EXEC ws)" by (rule X_exec)
  then have P: "P_ok (EXEC ws)" by (rule P_from_X) simp
  then have B: "B_ok (EXEC ws)" by (rule B_from_P) simp
  then have "L_ok (EXEC ws)" by (rule L_from_B) simp
  with X P B show ?case by blast
next
  case (REDIR c w m fd)
  then have X: "X_ok (REDIR c w m fd)" by (intro X_redir) auto
  then have P: "P_ok (REDIR c w m fd)" by (rule P_from_X) simp
  then have B: "B_ok (REDIR c w m fd)" by (rule B_from_P) simp
  then have "L_ok (REDIR c w m fd)" by (rule L_from_B) simp
  with X P B show ?case by blast
next
  case (PIPE l r)
  then have P: "P_ok (PIPE l r)" by (intro P_pipe) auto
  then have B: "B_ok (PIPE l r)" by (rule B_from_P) simp
  then have L: "L_ok (PIPE l r)" by (rule L_from_B) simp
  then have "X_ok (PIPE l r)" by (rule X_from_L) (use PIPE.prems in auto)
  with P B L show ?case by blast
next
  case (LIST l r)
  then have L: "L_ok (LIST l r)" by (intro L_list) auto
  then have X: "X_ok (LIST l r)" by (rule X_from_L) (use LIST.prems in auto)
  then have P: "P_ok (LIST l r)" by (rule P_from_X) simp
  then have "B_ok (LIST l r)" by (rule B_from_P) simp
  with X P L show ?case by blast
next
  case (BACK c)
  then have B: "B_ok (BACK c)" by (intro B_back) auto
  then have L: "L_ok (BACK c)" by (rule L_from_B) simp
  then have X: "X_ok (BACK c)" by (rule X_from_L) (use BACK.prems in auto)
  then have "P_ok (BACK c)" by (rule P_from_X) simp
  with X B L show ?case by blast
qed

lemma show_nonzero: "wf_cmd c \<Longrightarrow> 0 \<notin> set (show_cmd c)"
  by (induction c) (auto simp: par_def word_ok_def list_all_iff)

text \<open>
  C34: parsing inverts printing.  Every command of the language, printed with parentheses where the
  grammar needs them, is read back by \<^term>\<open>parsecmd\<close> as the same tree; and after the zeroes of
  \<^term>\<open>nulterminate\<close> are written into the line, every word pointer of the tree is the start of
  exactly its word.
\<close>

theorem parsecmd_inverts_show:
  assumes "wf_cmd c"
  shows "\<exists>c' b'. parsecmd (show_cmd c) = Inr ((c', b'), length (show_cmd c)) \<and>
    map_cmd (\<lambda>(q, eq). cstr (drop q b')) c' = c"
proof -
  define b where "b = show_cmd c"
  have r: "rest_at b 0 (show_cmd c @ [])" by (simp add: rest_at_def b_def)
  have n: "need b 0 + 4 \<le> parse_fuel b" by (simp add: need_def parse_fuel_def)
  have f: "follows L_sym []" by (simp add: follows_def)
  have "L_ok c" using all_ok [OF assms] by blast
  then obtain c' s where x: "parseline (parse_fuel b) b 0 = Inr (c', s)" "map_cmd (span_str b) c' = c" "rest_at b s []"
    using r n f unfolding L_ok_def by blast
  have s: "s = length b" using x(3) by (simp add: rest_at_def)
  have "peek b s [] = (False, s)" using peek_clean [OF x(3)] by (simp add: clean_def)
  then have p: "parsecmd b = Inr ((c', nulterminate c' b), length b)" using x(1) s by (simp add: parsecmd_def)
  have ok: "words_ok b c'" using parse_words [of b "parse_fuel b" 0] x(1) by simp
  have nz: "0 \<notin> set b" using show_nonzero [OF assms] by (simp add: b_def)
  have "map_cmd (\<lambda>(q, eq). cstr (drop q (nulterminate c' b))) c' = map_cmd (span_str b) c'"
    by (rule cmd.map_cong0) (auto simp: terminated_word [OF ok nz])
  with p x(2) show ?thesis by (auto simp: b_def)
qed

definition cmd_example :: "cstring cmd" where
  "cmd_example = LIST (BACK (PIPE (REDIR (EXEC [[0x63], [0x61]]) [0x66] 0 0) (LIST (EXEC [[0x62]]) (EXEC [])))) (EXEC [[0x64]])"

theorem parsecmd_inverts_show_witness:
  "\<exists>c' b'. parsecmd (show_cmd cmd_example) = Inr ((c', b'), length (show_cmd cmd_example)) \<and>
    map_cmd (\<lambda>(q, eq). cstr (drop q b')) c' = cmd_example"
  by (rule parsecmd_inverts_show)
    (simp add: cmd_example_def MAXARGS_def word_ok_def is_word_def whitespace_def symbols_def)

end
