(* ===== verification/Xv6_Shrun.thy ===== *)
theory Xv6_Shrun
  imports Xv6_Shparse
begin

text \<open>
  What the shell does with a parsed command (\<open>runcmd\<close> and \<open>main\<close> of sh.c).  A process is the tree of
  the system calls it makes, with a branch for each outcome the code distinguishes; running the
  tree against a table of file descriptors tells which programs are started and what their
  descriptors refer to.
\<close>

subsection \<open>Programs as trees of system calls\<close>

text \<open>A descriptor in a call: a number, or an end of the process's last \<open>pipe\<close>: \<open>p[0]\<close>, \<open>p[1]\<close>.\<close>

datatype fdn = Fd nat | P0 | P1

datatype sysprog =
    S_exit
  | S_exec cstring "cstring list" sysprog        \<comment> \<open>what follows runs if \<open>exec\<close> returns\<close>
  | S_print nat "byte list" sysprog
  | S_close fdn sysprog
  | S_open cstring uint sysprog sysprog          \<comment> \<open>opened, and failed\<close>
  | S_fork sysprog sysprog sysprog               \<comment> \<open>child, parent, and failed\<close>
  | S_wait sysprog
  | S_pipe sysprog sysprog                       \<comment> \<open>created, and failed\<close>
  | S_dup fdn sysprog

definition sh_panic :: "string \<Rightarrow> sysprog" where
  "sh_panic s = S_print 2 (ascii s @ [0x0a]) S_exit"

definition fork1 :: "sysprog \<Rightarrow> sysprog \<Rightarrow> sysprog" where
  "fork1 child parent = S_fork child parent (sh_panic ''fork'')"

fun runcmd :: "cstring cmd \<Rightarrow> sysprog" where
  "runcmd (EXEC []) = S_exit"
| "runcmd (EXEC (a # as)) = S_exec a (a # as) (S_print 2 (ascii ''exec '' @ a @ ascii '' failed'' @ [0x0a]) S_exit)"
| "runcmd (REDIR c f m fd) =
    S_close (Fd fd) (S_open f m (runcmd c) (S_print 2 (ascii ''open '' @ f @ ascii '' failed'' @ [0x0a]) S_exit))"
| "runcmd (LIST l r) = fork1 (runcmd l) (S_wait (runcmd r))"
| "runcmd (PIPE l r) =
    S_pipe
      (fork1 (S_close (Fd 1) (S_dup P1 (S_close P0 (S_close P1 (runcmd l)))))
        (fork1 (S_close (Fd 0) (S_dup P0 (S_close P0 (S_close P1 (runcmd r)))))
          (S_close P0 (S_close P1 (S_wait (S_wait S_exit))))))
      (sh_panic ''pipe'')"
| "runcmd (BACK c) = fork1 (runcmd c) S_exit"

subsection \<open>The command loop\<close>

datatype shact = Chdir cstring | Spawn "(span cmd \<times> byte list) pres"

definition sh_line :: "byte list \<Rightarrow> shact" where
  "sh_line buf =
    (if at buf 0 = 0x63 \<and> at buf 1 = 0x64 \<and> at buf 2 = 0x20 then Chdir (drop 3 (butlast buf))
     else Spawn (parsecmd buf))"

definition getcmd :: "nat \<Rightarrow> byte list \<Rightarrow> (byte list \<times> byte list) option" where
  "getcmd nbuf inp =
    (let (buf, inp) = gets (int nbuf) inp in if cstr buf = [] then None else Some (cstr buf, inp))"

lemma gets_loop_rest: "gets_loop k inp = (l, r) \<Longrightarrow> length l + length r = length inp"
  by (induction k inp arbitrary: l rule: gets_loop.induct) (auto split: if_splits prod.splits)

lemma getcmd_shorter: "getcmd n inp = Some (buf, inp') \<Longrightarrow> length inp' < length inp"
proof -
  assume g: "getcmd n inp = Some (buf, inp')"
  obtain l r where lr: "gets_loop (nat (int n - 1)) inp = (l, r)" by fastforce
  have "l \<noteq> []" using g lr by (auto simp: getcmd_def gets_def cstr_def split: if_splits)
  then show ?thesis using g lr gets_loop_rest [OF lr] by (cases l) (auto simp: getcmd_def gets_def split: if_splits)
qed

text \<open>The commands of a whole input.\<close>

function sh_main :: "byte list \<Rightarrow> shact list" where
  "sh_main inp = (case getcmd 100 inp of None \<Rightarrow> [] | Some (buf, inp') \<Rightarrow> sh_line buf # sh_main inp')"
  by auto
termination by (relation "measure length") (auto intro: getcmd_shorter)

declare sh_main.simps [simp del]

subsection \<open>Descriptors\<close>

datatype obj = Console | File cstring uint | Pipe_read "nat list" | Pipe_write "nat list"

type_synonym fds = "nat \<Rightarrow> obj option"

definition lowest :: "fds \<Rightarrow> nat option" where
  "lowest t = find (\<lambda>i. t i = None) [0..<NOFILE]"

text \<open>The loop at the start of \<open>main\<close> that opens the console until three descriptors are taken.\<close>

function open_console :: "fds \<Rightarrow> fds" where
  "open_console t =
    (case lowest t of None \<Rightarrow> t | Some fd \<Rightarrow> if fd \<ge> 3 then t else open_console (t(fd \<mapsto> Console)))"
  by auto
termination
proof (relation "measure (\<lambda>t. card {i. i < 3 \<and> t i = None})", simp, goal_cases)
  case (1 t fd)
  then have fd: "t fd = None" "fd < 3" by (auto simp: lowest_def find_Some_iff)
  then have "{i. i < 3 \<and> (t(fd \<mapsto> Console)) i = None} \<subset> {i. i < 3 \<and> t i = None}" by auto
  then have "card {i. i < 3 \<and> (t(fd \<mapsto> Console)) i = None} < card {i. i < 3 \<and> t i = None}"
    by (rule psubset_card_mono [rotated]) simp
  then show ?case by simp
qed

declare open_console.simps [simp del]

text \<open>
  The programs started by a process and the processes it forks, each with its descriptors, when
  the forks and the files succeed.  A pipe is named by the path of forks that leads to its creator.
\<close>

fun fd_of :: "nat \<times> nat \<Rightarrow> fdn \<Rightarrow> nat" where
  "fd_of p (Fd n) = n"
| "fd_of p P0 = fst p"
| "fd_of p P1 = snd p"

fun started :: "sysprog \<Rightarrow> nat list \<Rightarrow> nat \<times> nat \<Rightarrow> fds \<Rightarrow> (cstring list \<times> fds) list" where
  "started S_exit w p t = []"
| "started (S_exec f args k) w p t = [(args, t)]"
| "started (S_print fd out k) w p t = started k w p t"
| "started (S_close fd k) w p t = started k w p (t(fd_of p fd := None))"
| "started (S_open f m k e) w p t =
    (case lowest t of None \<Rightarrow> started e w p t | Some i \<Rightarrow> started k w p (t(i \<mapsto> File f m)))"
| "started (S_fork c k e) w p t = started c (0 # w) p t @ started k (1 # w) p t"
| "started (S_wait k) w p t = started k w p t"
| "started (S_pipe k e) w p t =
    (case lowest t of None \<Rightarrow> started e w p t
     | Some i \<Rightarrow>
        let t1 = t(i \<mapsto> Pipe_read w)
        in case lowest t1 of None \<Rightarrow> started e w p t
           | Some j \<Rightarrow> started k w (i, j) (t1(j \<mapsto> Pipe_write w)))"
| "started (S_dup fd k) w p t =
    (case lowest t of None \<Rightarrow> started k w p t | Some i \<Rightarrow> started k w p (t(i := t (fd_of p fd))))"

text \<open>What the syntax says: redirections replace a descriptor, a pipe joins the two sides.\<close>

fun wires :: "cstring cmd \<Rightarrow> nat list \<Rightarrow> fds \<Rightarrow> (cstring list \<times> fds) list" where
  "wires (EXEC as) w t = (if as = [] then [] else [(as, t)])"
| "wires (REDIR c f m fd) w t = wires c w (t(fd \<mapsto> File f m))"
| "wires (LIST l r) w t = wires l (0 # w) t @ wires r (1 # w) t"
| "wires (PIPE l r) w t =
    wires l (0 # w) (t(1 \<mapsto> Pipe_write w)) @ wires r (0 # 1 # w) (t(0 \<mapsto> Pipe_read w))"
| "wires (BACK c) w t = wires c (0 # w) t"

definition std_open :: "fds \<Rightarrow> bool" where
  "std_open t \<longleftrightarrow> t 0 \<noteq> None \<and> t 1 \<noteq> None \<and>
    (\<exists>i < NOFILE. \<exists>j < NOFILE. i \<noteq> j \<and> t i = None \<and> t j = None)"

lemma lowest_Some: "lowest t = Some i \<longleftrightarrow> i < NOFILE \<and> t i = None \<and> (\<forall>j < i. t j \<noteq> None)"
  by (auto simp: lowest_def find_Some_iff)

lemma lowest_None: "lowest t = None \<longleftrightarrow> (\<forall>i < NOFILE. t i \<noteq> None)"
  by (auto simp: lowest_def find_None_iff)

lemma lowest_std [simp]:
  assumes "t 0 \<noteq> None"
  shows "lowest (t(0 := None)) = Some 0" "lowest (t(Suc 0 := None)) = Some (Suc 0)"
  using assms by (auto simp: lowest_Some less_Suc_eq)

lemma std_open_replace: "std_open t \<Longrightarrow> fd \<le> 1 \<Longrightarrow> std_open (t(fd \<mapsto> x))"
proof -
  assume s: "std_open t" and fd: "fd \<le> 1"
  obtain i j where ij: "i < NOFILE" "j < NOFILE" "i \<noteq> j" "t i = None" "t j = None" using s by (auto simp: std_open_def)
  moreover have "i \<noteq> fd" "j \<noteq> fd" using ij s fd by (auto simp: std_open_def le_Suc_eq)
  ultimately show ?thesis using s unfolding std_open_def by (intro conjI exI [of _ i] exI [of _ j]) auto
qed

lemma std_open_pipe:
  assumes "std_open t"
  obtains i j where "lowest t = Some i" "lowest (t(i \<mapsto> x)) = Some j" "1 < i" "1 < j" "i \<noteq> j" "t i = None" "t j = None"
proof -
  obtain a c where ac: "a < NOFILE" "c < NOFILE" "a \<noteq> c" "t a = None" "t c = None" using assms by (auto simp: std_open_def)
  then obtain i where i: "lowest t = Some i" using lowest_None [of t] by (cases "lowest t") auto
  have "(t(i \<mapsto> x)) a = None \<or> (t(i \<mapsto> x)) c = None" using ac by auto
  then obtain j where j: "lowest (t(i \<mapsto> x)) = Some j"
    using lowest_None [of "t(i \<mapsto> x)"] ac by (cases "lowest (t(i \<mapsto> x))") blast+
  have ti: "t i = None" and tj: "t j = None" "i \<noteq> j" using i j by (auto simp: lowest_Some split: if_splits)
  have big: "1 < k" if "t k = None" for k
    using that assms by (cases k; cases "k - 1") (auto simp: std_open_def)
  from that [OF i j big [OF ti] big [OF tj(1)] tj(2) ti tj(1)] show thesis .
qed

lemma started_wires:
  assumes "wf_cmd c" "std_open t"
  shows "started (runcmd c) w p t = wires c w t"
  using assms
proof (induction c arbitrary: w p t rule: runcmd.induct)
  case (3 c f m fd)
  have fd: "fd = 0 \<or> fd = 1" using 3(2) by auto
  have "started (runcmd (REDIR c f m fd)) w p t = started (runcmd c) w p (t(fd \<mapsto> File f m))"
    using fd 3(3) by (auto simp: std_open_def)
  also have "\<dots> = wires c w (t(fd \<mapsto> File f m))"
    by (rule 3(1) [OF _ std_open_replace [OF 3(3)]]) (use 3(2) fd in auto)
  finally show ?case by simp
next
  case (5 l r)
  obtain i j where ij: "lowest t = Some i" "lowest (t(i \<mapsto> Pipe_read w)) = Some j" "1 < i" "1 < j" "i \<noteq> j" "t i = None" "t j = None"
    by (rule std_open_pipe [OF 5(4), of "Pipe_read w"])
  define t2 where "t2 = t(i \<mapsto> Pipe_read w, j \<mapsto> Pipe_write w)"
  have z: "t2 0 \<noteq> None" using 5(4) ij by (simp add: t2_def std_open_def)
  have l: "(t2(Suc 0 := None))(Suc 0 := t2 j, i := None, j := None) = t(1 \<mapsto> Pipe_write w)"
    using ij by (auto simp: t2_def fun_eq_iff)
  have r: "(t2(0 := None))(0 := t2 i, i := None, j := None) = t(0 \<mapsto> Pipe_read w)"
    using ij by (auto simp: t2_def fun_eq_iff)
  have "started (runcmd (PIPE l r)) w p t =
      started (runcmd l) (0 # w) (i, j) (t(1 \<mapsto> Pipe_write w)) @ started (runcmd r) (0 # 1 # w) (i, j) (t(0 \<mapsto> Pipe_read w))"
    using ij z l r by (simp add: fork1_def t2_def [symmetric])
  also have "started (runcmd l) (0 # w) (i, j) (t(1 \<mapsto> Pipe_write w)) = wires l (0 # w) (t(1 \<mapsto> Pipe_write w))"
    by (rule 5(1) [OF _ std_open_replace [OF 5(4)]]) (use 5(3) in auto)
  also have "started (runcmd r) (0 # 1 # w) (i, j) (t(0 \<mapsto> Pipe_read w)) = wires r (0 # 1 # w) (t(0 \<mapsto> Pipe_read w))"
    by (rule 5(2) [OF _ std_open_replace [OF 5(4)]]) (use 5(3) in auto)
  finally show ?case unfolding wires.simps .
qed (auto simp: fork1_def)

lemma open_console_std: "dom t \<subseteq> {..<3} \<Longrightarrow> dom (open_console t) = {..<3}"
proof (induction t rule: open_console.induct)
  case (1 t)
  have t3: "t 3 = None" using 1(2) by auto
  then obtain k where k: "lowest t = Some k"
    using lowest_None [of t] by (cases "lowest t") (auto dest: spec [of _ 3])
  show ?case
  proof (cases "3 \<le> k")
    case True
    then have "\<forall>i < 3. t i \<noteq> None" using k by (auto simp: lowest_Some)
    then have "dom t = {..<3}" using 1(2) by auto
    then show ?thesis using k True by (subst open_console.simps) simp
  next
    case False
    then have "dom (open_console (t(k \<mapsto> Console))) = {..<3}" using 1(2) by (intro 1(1) [OF k]) (auto simp: dom_def split: if_splits)
    then show ?thesis using k False by (subst open_console.simps) simp
  qed
qed

lemma dom_std_open: "dom t = {..<3} \<Longrightarrow> std_open t"
proof -
  assume d: "dom t = {..<3}"
  then have "t i = None \<longleftrightarrow> 3 \<le> i" for i by (metis domIff lessThan_iff not_le)
  then show ?thesis unfolding std_open_def by (intro conjI exI [of _ 3] exI [of _ 4]) auto
qed

text \<open>
  C35: the processes of a command line are wired as its syntax says.  Once the shell has opened its
  three descriptors, running any command of the language starts exactly the programs it names,
  with their arguments: redirected descriptors refer to the files, the two sides of a pipe to the
  two ends of one pipe, every other descriptor is the shell's, and no program holds a pipe end it
  does not read or write.
\<close>

theorem runcmd_wires_descriptors:
  assumes "wf_cmd c" "dom t \<subseteq> {..<3}"
  shows "started (runcmd c) w p (open_console t) = wires c w (open_console t)"
  by (rule started_wires [OF assms(1) dom_std_open [OF open_console_std [OF assms(2)]]])

theorem runcmd_wires_descriptors_witness:
  "started (runcmd (PIPE (EXEC [[0x61]]) (EXEC [[0x62]]))) [] (0, 0) (open_console Map.empty) =
    [([[0x61]], (open_console Map.empty)(1 \<mapsto> Pipe_write [])), ([[0x62]], (open_console Map.empty)(0 \<mapsto> Pipe_read []))]"
  using runcmd_wires_descriptors [of "PIPE (EXEC [[0x61]]) (EXEC [[0x62]])" Map.empty "[]" "(0, 0)"]
  by (simp add: MAXARGS_def word_ok_def is_word_def whitespace_def symbols_def)

end
