(* ===== verification/Xv6_Kbd.thy ===== *)
theory Xv6_Kbd
  imports Xv6_Machine Xv6_Ulib
begin

unbundle bit_operations_syntax

text \<open>
  The keyboard driver (kbd.c, with the tables of kbd.h) and the input side of the serial port (uart.c): scan codes and bytes
  become characters for \<open>consoleintr\<close> of console.c.
\<close>

subsection \<open>Tables\<close>

abbreviation "KBD_SHIFT \<equiv> 1 :: uint"
abbreviation "KBD_CTL \<equiv> 2 :: uint"
abbreviation "CAPSLOCK \<equiv> 8 :: uint"
abbreviation "E0ESC \<equiv> 64 :: uint"

text \<open>A table of 256 bytes: the first entries in order, and some at given places.\<close>

definition table256 :: "byte list \<Rightarrow> (nat \<times> byte) list \<Rightarrow> byte list" where
  "table256 xs ys = fold (\<lambda>(i, c) t. t[i := c]) ys (xs @ replicate (256 - length xs) 0)"

definition shiftcode :: "byte list" where
  "shiftcode = table256 [] [(0x1D, 2), (0x2A, 1), (0x36, 1), (0x38, 4), (0x9D, 2), (0xB8, 4)]"

definition togglecode :: "byte list" where
  "togglecode = table256 [] [(0x3A, 8), (0x45, 16), (0x46, 32)]"

text \<open>The keys with a prefix that every map has, besides Enter and the slash of the keypad.\<close>

definition special_keys :: "(nat \<times> byte) list" where
  "special_keys = [(0xC8, 0xE2), (0xD0, 0xE3), (0xC9, 0xE6), (0xD1, 0xE7), (0xCB, 0xE4), (0xCD, 0xE5), (0x97, 0xE0), (0xCF, 0xE1),
     (0xD2, 0xE8), (0xD3, 0xE9)]"

definition normalmap :: "byte list" where
  "normalmap = table256
    ([0, 0x1B] @ ascii ''1234567890-='' @ [0x08, 0x09] @ ascii ''qwertyuiop[]'' @ [0x0a, 0] @ ascii ''asdfghjkl;'' @
     [0x27, 0x60, 0, 0x5c] @ ascii ''zxcvbnm,./'' @ [0, 0x2a, 0, 0x20] @ replicate 13 0 @ ascii ''789-456+1230.'' @ replicate 4 0)
    ([(0x9C, 0x0a), (0xB5, 0x2f)] @ special_keys)"

definition shiftmap :: "byte list" where
  "shiftmap = table256
    ([0, 0x1B] @ ascii ''!@#$%^&*()_+'' @ [0x08, 0x09] @ ascii ''QWERTYUIOP{}'' @ [0x0a, 0] @ ascii ''ASDFGHJKL:'' @
     [0x22, 0x7e, 0, 0x7c] @ ascii ''ZXCVBNM<>?'' @ [0, 0x2a, 0, 0x20] @ replicate 13 0 @ ascii ''789-456+1230.'' @ replicate 4 0)
    ([(0x9C, 0x0a), (0xB5, 0x2f)] @ special_keys)"

text \<open>\<open>C(x)\<close> of kbd.h, in bytes.\<close>

definition ctl :: "byte \<Rightarrow> byte" where
  "ctl x = x - 0x40"

definition ctlmap :: "byte list" where
  "ctlmap = table256
    (replicate 16 0 @ map ctl (ascii ''QWERTYUIOP'') @ [0, 0, 0x0d, 0] @ map ctl (ascii ''ASDFGHJKL'') @ [0, 0, 0, 0] @
     [ctl 0x5c] @ map ctl (ascii ''ZXCVBNM'') @ [0, 0, ctl 0x2f, 0, 0])
    ([(0x9C, 0x0d), (0xB5, ctl 0x2f)] @ special_keys)"

subsection \<open>Decoding\<close>

text \<open>The shift state and the bytes the controller has for the driver.\<close>

record kbd_st =
  kbd_shift :: uint
  kbd_port :: "byte list"

definition charcode :: "uint \<Rightarrow> byte list" where
  "charcode i = (if i = 0 then normalmap else if i = 1 then shiftmap else ctlmap)"

definition caps :: "uint \<Rightarrow> uint" where
  "caps c = (if 0x61 \<le> c \<and> c \<le> 0x7a then c + (0x41 - 0x61) else if 0x41 \<le> c \<and> c \<le> 0x5a then c + (0x61 - 0x41) else c)"

text \<open>What \<open>kbdgetc\<close> returns for a byte \<open>data\<close>, and the new shift state.\<close>

definition kbd_code :: "uint \<Rightarrow> uint \<Rightarrow> uint \<times> uint" where
  "kbd_code shift data =
    (if data = 0xE0 then (0, shift OR E0ESC)
     else if data AND 0x80 \<noteq> 0 then
       let data = (if shift AND E0ESC \<noteq> 0 then data else data AND 0x7F)
       in (0, shift AND NOT (ucast (shiftcode ! unat data) OR E0ESC))
     else
       let (data, shift) = (if shift AND E0ESC \<noteq> 0 then (data OR 0x80, shift AND NOT E0ESC) else (data, shift));
           shift = shift OR ucast (shiftcode ! unat data);
           shift = shift XOR ucast (togglecode ! unat data);
           c = ucast (charcode (shift AND (KBD_CTL OR KBD_SHIFT)) ! unat data)
       in (if shift AND CAPSLOCK \<noteq> 0 then caps c else c, shift))"

definition kbdgetc :: "kbd_st \<Rightarrow> int \<times> kbd_st" where
  "kbdgetc k =
    (case kbd_port k of [] \<Rightarrow> (- 1, k)
     | d # ds \<Rightarrow> let (c, shift) = kbd_code (kbd_shift k) (ucast d) in (sint c, \<lparr>kbd_shift = shift, kbd_port = ds\<rparr>))"

text \<open>The characters \<open>consoleintr\<close> gets by calling its argument until the result is negative.\<close>

lemma kbdgetc_shorter: "kbdgetc k = (c, k') \<Longrightarrow> 0 \<le> c \<Longrightarrow> length (kbd_port k') < length (kbd_port k)"
  by (auto simp: kbdgetc_def Let_def split: list.splits prod.splits)

function kbd_chars :: "kbd_st \<Rightarrow> uint list \<times> kbd_st" where
  "kbd_chars k =
    (case kbdgetc k of (c, k) \<Rightarrow>
       if c < 0 then ([], k) else case kbd_chars k of (cs, k) \<Rightarrow> (of_int c # cs, k))"
  by auto
termination
  by (relation "measure (\<lambda>k. length (kbd_port k))") (auto dest: kbdgetc_shorter [OF sym])

declare kbd_chars.simps [simp del]

definition kbdintr :: "kbd_st \<Rightarrow> 'z cons_st_scheme \<Rightarrow> (kbd_st, 'z cons_st_scheme) res" where
  "kbdintr k s = (case kbd_chars k of (cs, k) \<Rightarrow> rbind (consoleintr cs s) (\<lambda>_ s. Ok k s))"

subsection \<open>Serial input\<close>

definition uartgetc :: "bool \<Rightarrow> byte list \<Rightarrow> int \<times> byte list" where
  "uartgetc uart port =
    (if \<not> uart then (- 1, port) else case port of [] \<Rightarrow> (- 1, port) | b # port \<Rightarrow> (uint b, port))"

fun uart_chars :: "bool \<Rightarrow> byte list \<Rightarrow> uint list" where
  "uart_chars uart [] = []"
| "uart_chars uart (b # port) =
    (case uartgetc uart (b # port) of (c, port') \<Rightarrow> if c < 0 then [] else of_int c # uart_chars uart port)"

definition uartintr :: "byte list \<Rightarrow> 'z cons_st_scheme \<Rightarrow> (unit, 'z cons_st_scheme) res" where
  "uartintr port s = consoleintr (uart_chars (uart_present s) port) s"

subsection \<open>The decoder is well typed\<close>

lemma length_table256 [simp]: "length xs \<le> 256 \<Longrightarrow> length (table256 xs ys) = 256"
proof -
  have "length (fold (\<lambda>(i, c) t. t[i := c]) ys t) = length t" for t :: "byte list"
    by (induction ys arbitrary: t) auto
  then show "length xs \<le> 256 \<Longrightarrow> length (table256 xs ys) = 256" by (simp add: table256_def)
qed

lemma length_tables: "length shiftcode = 256" "length togglecode = 256" "length (charcode i) = 256"
  by (simp_all add: shiftcode_def togglecode_def charcode_def normalmap_def shiftmap_def ctlmap_def ascii_def)

lemma narrow: "unat x < 2 ^ n \<longleftrightarrow> take_bit n x = (x :: uint)"
  by (simp add: word_unat_eq_iff unsigned_take_bit_eq take_bit_nat_eq_self_iff)

lemma narrow_ops:
  assumes "unat x < 2 ^ n" "unat (y :: uint) < 2 ^ n"
  shows "unat (x OR y) < 2 ^ n" "unat (x XOR y) < 2 ^ n"
  using assms unfolding narrow by simp_all

lemma narrow_and: "unat x < 2 ^ n \<Longrightarrow> unat (x AND (y :: uint)) < 2 ^ n"
proof -
  have "take_bit n (x AND y) = take_bit n x AND y" by (simp only: take_bit_eq_mask ac_simps)
  then show "unat x < 2 ^ n \<Longrightarrow> unat (x AND (y :: uint)) < 2 ^ n" by (simp only: narrow)
qed

lemma code_tables: "list_all (\<lambda>b. b < 128) shiftcode" "list_all (\<lambda>b. b < 128) togglecode"
  by code_simp+

lemma unat_byte: "unat (ucast (b :: byte) :: uint) = unat b" "unat (ucast (b :: byte) :: uint) < 256"
proof -
  show e: "unat (ucast (b :: byte) :: uint) = unat b" by transfer (simp add: take_bit_take_bit)
  show "unat (ucast (b :: byte) :: uint) < 256" unfolding e using unsigned_less [of b] by simp
qed

lemma code_small:
  assumes "k < 256"
  shows "unat (ucast (shiftcode ! k) :: uint) < 128" "unat (ucast (togglecode ! k) :: uint) < 128"
proof -
  have "shiftcode ! k < 128" "togglecode ! k < 128" using code_tables assms by (simp_all add: list_all_length length_tables)
  then show "unat (ucast (shiftcode ! k) :: uint) < 128" "unat (ucast (togglecode ! k) :: uint) < 128"
    by (simp_all add: word_less_nat_alt unat_byte)
qed

lemmas narrow7 = narrow_ops [where n = 7, simplified] narrow_and [where n = 7, simplified]
lemmas narrow8 = narrow_ops [where n = 8, simplified] narrow_and [where n = 8, simplified]

lemma caps_byte: "unat c < 256 \<Longrightarrow> unat (caps c) < 256"
proof -
  assume c: "unat c < 256"
  have "c + (0x41 - 0x61) = c - 0x20" "c + (0x61 - 0x41) = c + 0x20" by simp_all
  moreover have "unat (c - 0x20) < 256" if "0x61 \<le> c" using that c by (simp add: word_le_nat_alt unat_sub)
  moreover have "unat (c + 0x20) < 256" if "c \<le> 0x5a" using that by (simp add: word_le_nat_alt unat_word_ariths)
  ultimately show ?thesis using c by (simp add: caps_def)
qed

text \<open>The shift state stays in its seven bits, every table index is below 256, and the result is a byte.\<close>

lemma kbd_code_type:
  assumes s: "unat shift < 128" and d: "unat data < 256"
  shows "unat (snd (kbd_code shift data)) < 128" "unat (fst (kbd_code shift data)) < 256"
proof -
  have d': "unat (data OR 0x80) < 256" using narrow8(1) [OF d, of "0x80"] by simp
  have e: "unat (shift OR E0ESC) < 128" using narrow7(1) [OF s, of E0ESC] by simp
  show "unat (snd (kbd_code shift data)) < 128"
    using s d d' e narrow7(3) [OF s]
    by (auto simp: kbd_code_def Let_def split: if_splits intro!: narrow7(1,2) code_small)
  show "unat (fst (kbd_code shift data)) < 256"
    using caps_byte [OF unat_byte(2)] unat_byte(2) by (simp add: kbd_code_def split_beta Let_def)
qed

lemma sint_byte: "unat (c :: uint) < 256 \<Longrightarrow> sint c = int (unat c)"
  using sint_of_nat_small [of "unat c"] by simp

lemma kbd_chars_Nil [simp]: "kbd_chars \<lparr>kbd_shift = sh, kbd_port = []\<rparr> = ([], \<lparr>kbd_shift = sh, kbd_port = []\<rparr>)"
  by (subst kbd_chars.simps) (simp add: kbdgetc_def)

lemma kbd_chars_Cons:
  assumes "unat sh < 128"
  shows "kbd_chars \<lparr>kbd_shift = sh, kbd_port = d # ds\<rparr> =
    (let (c, sh) = kbd_code sh (ucast d); (cs, k) = kbd_chars \<lparr>kbd_shift = sh, kbd_port = ds\<rparr> in (c # cs, k))"
  using sint_byte [OF kbd_code_type(2) [OF assms unat_byte(2) [of d]]]
  by (subst kbd_chars.simps) (simp add: kbdgetc_def split_beta Let_def flip: sint_uint)

lemma kbd_chars_type:
  "unat sh < 128 \<Longrightarrow> kbd_chars \<lparr>kbd_shift = sh, kbd_port = ds\<rparr> = (cs, k) \<Longrightarrow>
   unat (kbd_shift k) < 128 \<and> kbd_port k = [] \<and> length cs = length ds \<and> list_all (\<lambda>c. unat c < 256) cs"
proof (induction ds arbitrary: sh cs k)
  case Nil
  then show ?case by auto
next
  case (Cons d ds)
  obtain c sh' where c: "kbd_code sh (ucast d) = (c, sh')" by fastforce
  obtain cs' k' where cs: "kbd_chars \<lparr>kbd_shift = sh', kbd_port = ds\<rparr> = (cs', k')" by fastforce
  have "unat sh' < 128" "unat c < 256" using kbd_code_type [OF Cons.prems(1) unat_byte(2) [of d]] c by simp_all
  then show ?case using Cons.IH [OF _ cs] Cons.prems c cs kbd_chars_Cons [OF Cons.prems(1), of d ds] by auto
qed

subsection \<open>The screen\<close>

text \<open>The screen has 25 lines of 80 cells and the cursor is on one of the first 24 lines.\<close>

definition screen_ok :: "'z cons_st_scheme \<Rightarrow> bool" where
  "screen_ok s \<longleftrightarrow> length (crt s) = 2000 \<and> 0 \<le> crt_pos s \<and> crt_pos s < 1920"

definition shown :: "'z cons_st_scheme \<Rightarrow> 'z cons_st_scheme \<Rightarrow> bool" where
  "shown s s' \<longleftrightarrow> (\<exists>u t p. s' = s\<lparr>uart_out := u, crt := t, crt_pos := p\<rparr>) \<and> screen_ok s'"

lemma shown_trans: "shown s t \<Longrightarrow> shown t u \<Longrightarrow> shown s u"
  by (auto simp: shown_def) blast

lemma shown_refl: "screen_ok s \<Longrightarrow> shown s s"
  unfolding shown_def by (intro conjI exI [of _ "uart_out s"] exI [of _ "crt s"] exI [of _ "crt_pos s"]) simp_all

lemma cgaputc_ok:
  assumes "screen_ok s"
  shows "\<exists>t p. cgaputc c s = Ok () (s\<lparr>crt := t, crt_pos := p\<rparr>) \<and> length t = 2000 \<and> 0 \<le> p \<and> p < 1920"
proof -
  define p where "p = (if c = 0x0a then crt_pos s + (80 - crt_pos s mod 80) else if c = BACKSPACE then (if crt_pos s > 0 then crt_pos s - 1 else crt_pos s)
    else crt_pos s + 1)"
  define t where "t = (if c = 0x0a \<or> c = BACKSPACE then crt s else (crt s)[nat (crt_pos s) := (ucast c AND 0xff) OR 0x0700])"
  have "crt_pos s - crt_pos s mod 80 = 80 * (crt_pos s div 80)" by (simp add: minus_mod_eq_mult_div)
  moreover have "0 \<le> crt_pos s div 80" "crt_pos s div 80 \<le> 23" using assms by (auto simp: screen_ok_def)
  ultimately have p: "0 \<le> p" "p \<le> 1920" and t: "length t = 2000" using assms by (auto simp: p_def t_def screen_ok_def)
  define q where "q = (if p div 80 \<ge> 24 then p - 80 else p)"
  define u where "u = (if p div 80 \<ge> 24 then splice (nat q) (replicate (nat (24 * 80 - q)) 0) (splice 0 (slice 80 (23 * 80) t) t) else t)"
  have q: "0 \<le> q" "q < 1920" using p by (auto simp: q_def)
  have u: "length u = 2000" using t q by (auto simp: u_def)
  have "cgaputc c s = Ok () (s\<lparr>crt := u[nat q := 0x20 OR 0x0700], crt_pos := q\<rparr>)"
  proof -
    have "(if c = 0x0a then (crt_pos s + (80 - crt_pos s mod 80), crt s)
        else if c = BACKSPACE then (if crt_pos s > 0 then crt_pos s - 1 else crt_pos s, crt s)
        else (crt_pos s + 1, (crt s)[nat (crt_pos s) := (ucast c AND 0xff) OR 0x0700])) = (p, t)"
      by (simp add: p_def t_def)
    then show ?thesis using p unfolding cgaputc_def Let_def by (simp add: q_def u_def)
  qed
  then show ?thesis using q u by (intro exI [of _ "u[nat q := 0x20 OR 0x0700]"] exI [of _ q]) simp
qed


lemma uartputc_eq: "uartputc c s = s\<lparr>uart_out := uart_out s @ (if uart_present s then [ucast c] else [])\<rparr>"
  by (simp add: uartputc_def)

lemma consputc_ok:
  assumes "screen_ok s" "\<not> panicked s"
  shows "\<exists>s'. consputc c s = Ok () s' \<and> shown s s'"
proof -
  obtain u where u: "(if c = BACKSPACE then uartputc 0x08 (uartputc 0x20 (uartputc 0x08 s)) else uartputc c s) = s\<lparr>uart_out := u\<rparr>"
    by (cases "c = BACKSPACE") (auto simp: uartputc_eq)
  have "screen_ok (s\<lparr>uart_out := u\<rparr>)" using assms(1) by (simp add: screen_ok_def)
  from cgaputc_ok [OF this, of c] obtain t p where "cgaputc c (s\<lparr>uart_out := u\<rparr>) = Ok () (s\<lparr>uart_out := u, crt := t, crt_pos := p\<rparr>)"
    "length t = 2000" "0 \<le> p" "p < 1920" by auto
  then show ?thesis using assms(2) u by (auto simp: consputc_def Let_def shown_def screen_ok_def)
qed

lemma shownD:
  assumes "shown s s'"
  shows "screen_ok s'" "panicked s' = panicked s" "in_buf s' = in_buf s" "in_r s' = in_r s" "in_w s' = in_w s" "in_e s' = in_e s" "calm s' = calm s" "held s' = held s"
    "procs s' = procs s" "curp s' = curp s" "inodes s' = inodes s" "cons_locking s' = cons_locking s" "length (procs s') = length (procs s)"
  using assms by (auto simp: shown_def calm_def cli_wf_def)

lemma consputs_ok: "screen_ok s \<Longrightarrow> \<not> panicked s \<Longrightarrow> \<exists>s'. consputs cs s = Ok () s' \<and> shown s s'"
proof (induction cs arbitrary: s)
  case Nil
  then show ?case by (simp add: shown_refl)
next
  case (Cons c cs)
  obtain t where t: "consputc c s = Ok () t" "shown s t" using consputc_ok [OF Cons.prems] by blast
  then obtain u where "consputs cs t = Ok () u" "shown t u" using Cons.IH [of t] Cons.prems shownD [OF t(2)] by auto
  with t show ?case by (auto intro: shown_trans)
qed

text \<open>Formats whose directives have arguments of their kind.\<close>

fun fmt_ok :: "byte list \<Rightarrow> parg list \<Rightarrow> bool" where
  "fmt_ok (c # d # fmt) args =
    (if c \<noteq> 0x25 then fmt_ok (d # fmt) args
     else if d = 0x64 \<or> d = 0x78 \<or> d = 0x70 then (case args of PInt x # args \<Rightarrow> fmt_ok fmt args | _ \<Rightarrow> False)
     else if d = 0x73 then (case args of PStr str # args \<Rightarrow> fmt_ok fmt args | _ \<Rightarrow> False)
     else fmt_ok fmt args)"
| "fmt_ok fmt args = True"

lemma shown_bind:
  assumes "\<exists>t. m = Ok () t \<and> shown s t" "\<And>t. shown s t \<Longrightarrow> \<exists>u. f () t = Ok () u \<and> shown t u"
  shows "\<exists>u. rbind m f = Ok () u \<and> shown s u"
proof -
  obtain t where t: "m = Ok () t" "shown s t" using assms(1) by blast
  then obtain u where "f () t = Ok () u" "shown t u" using assms(2) by blast
  with t show ?thesis by (auto intro: shown_trans)
qed

lemma cprintf_loop_ok:
  fixes s :: "'z cons_st_scheme"
  shows "fmt_ok fmt args \<Longrightarrow> screen_ok s \<Longrightarrow> \<not> panicked s \<Longrightarrow> \<exists>s'. cprintf_loop fmt args s = Ok () s' \<and> shown s s'"
proof (induction fmt args arbitrary: s rule: fmt_ok.induct)
  case hyp: (1 c d fmt args)
  have nx: "\<exists>u. cprintf_loop fmt' args' t = Ok () u \<and> shown t u"
    if "\<And>s :: 'z cons_st_scheme. screen_ok s \<Longrightarrow> \<not> panicked s \<Longrightarrow> \<exists>s'. cprintf_loop fmt' args' s = Ok () s' \<and> shown s s'" "shown s t" for fmt' args' t
    using that(1) [of t] shownD(1,2) [OF that(2)] hyp(7) by simp
  have pc: "\<exists>u. consputc e t = Ok () u \<and> shown t u" if "shown s t" for e t
    using consputc_ok [of t] shownD(1,2) [OF that] hyp(7) by simp
  have ps: "\<exists>u. consputs es s = Ok () u \<and> shown s u" for es by (rule consputs_ok [OF hyp(6,7)])
  note s0 = shown_refl [OF hyp(6)]
  consider "c \<noteq> 0x25" | "c = 0x25" "d = 0x64 \<or> d = 0x78 \<or> d = 0x70" | "c = 0x25" "d = 0x73"
    | "c = 0x25" "d \<noteq> 0x64" "d \<noteq> 0x78" "d \<noteq> 0x70" "d \<noteq> 0x73" by metis
  then show ?case
  proof cases
    case c: 1
    then have "fmt_ok (d # fmt) args" using hyp(5) by simp
    note IH = hyp(1) [OF c this]
    have "\<exists>u. rbind (consputc (ucast c) s) (\<lambda>_ s. cprintf_loop (d # fmt) args s) = Ok () u \<and> shown s u"
      by (rule shown_bind [OF pc [OF s0]], rule nx [OF IH])
    then show ?thesis using c by simp
  next
    case c: 2
    then obtain x args' where a: "args = PInt x # args'" "fmt_ok fmt args'" using hyp(5) by (auto split: list.splits parg.splits)
    have "\<exists>u. rbind (printint x b sg s) (\<lambda>_ s. cprintf_loop fmt args' s) = Ok () u \<and> shown s u" for b sg
      unfolding printint_def using c(1) by (intro shown_bind [OF ps]) (rule nx [OF hyp(2) [OF _ c(2) a(1) refl a(2)]], simp_all)
    then show ?thesis using c a by auto
  next
    case c: 3
    then obtain x args' where a: "args = PStr x # args'" "fmt_ok fmt args'" using hyp(5) by (auto split: list.splits parg.splits)
    have "\<exists>u. rbind (consputs es s) (\<lambda>_ s. cprintf_loop fmt args' s) = Ok () u \<and> shown s u" for es
      using c by (intro shown_bind [OF ps]) (rule nx [OF hyp(3) [OF _ _ c(2) a(1) refl a(2)]], simp_all)
    then show ?thesis using c a by simp
  next
    case c: 4
    have IH: "\<exists>s'. cprintf_loop fmt args t = Ok () s' \<and> shown t s'" if "screen_ok t" "\<not> panicked t" for t :: "'z cons_st_scheme"
      using hyp(4) [OF _ _ _ _ that] hyp(5) c by simp
    have "\<exists>u. rbind (consputc 0x25 s) (\<lambda>_ s. cprintf_loop fmt args s) = Ok () u \<and> shown s u"
      by (rule shown_bind [OF pc [OF s0]], rule nx [OF IH])
    moreover have "\<exists>u. rbind (consputc 0x25 s) (\<lambda>_ s. rbind (consputc (ucast d) s) (\<lambda>_ s. cprintf_loop fmt args s)) = Ok () u \<and> shown s u"
      by (rule shown_bind [OF pc [OF s0]], rule shown_bind [OF pc], assumption, rule nx [OF IH]) (auto intro: shown_trans)
    ultimately show ?thesis using c by simp
  qed
qed (auto simp: shown_refl consputc_ok)

lemma cprintf_ok:
  assumes "fmt_ok fmt args" "screen_ok s" "\<not> panicked s" "calm s" "L_cons \<notin> set (held s)"
  shows "\<exists>s'. cprintf fmt args s = Ok () s' \<and> shown s s'"
proof (cases "cons_locking s")
  case False
  then show ?thesis using cprintf_loop_ok [OF assms(1-3)] by (auto simp: cprintf_def)
next
  case True
  have "screen_ok (enter L_cons s)" "\<not> panicked (enter L_cons s)" using assms(2,3) by (simp_all add: enter_def screen_ok_def)
  then obtain u t p where l: "cprintf_loop fmt args (enter L_cons s) = Ok () ((enter L_cons s)\<lparr>uart_out := u, crt := t, crt_pos := p\<rparr>)"
    and sc: "screen_ok ((enter L_cons s)\<lparr>uart_out := u, crt := t, crt_pos := p\<rparr>)"
    using cprintf_loop_ok [OF assms(1), of "enter L_cons s"] by (auto simp: shown_def)
  define s' where "s' = s\<lparr>uart_out := u, crt := t, crt_pos := p\<rparr>"
  have e: "(enter L_cons s)\<lparr>uart_out := u, crt := t, crt_pos := p\<rparr> = enter L_cons s'" by (simp add: s'_def enter_def)
  have sh: "shown s s'" using sc by (auto simp: shown_def s'_def enter_def screen_ok_def)
  have "calm s'" "L_cons \<notin> set (held s')" using assms(4,5) by (simp_all add: s'_def calm_def cli_wf_def)
  then have "cprintf fmt args s = Ok () s'" using l True assms(4,5) unfolding e by (simp add: cprintf_def acquire_calm release_enter)
  then show ?thesis using sh by blast
qed

subsection \<open>The input ring\<close>

text \<open>Read, committed and edited position follow each other, at most one buffer apart.\<close>

definition ring_ok :: "'z cons_st_scheme \<Rightarrow> bool" where
  "ring_ok s \<longleftrightarrow> length (in_buf s) = 128 \<and> in_w s - in_r s \<le> in_e s - in_r s \<and> in_e s - in_r s \<le> INPUT_BUF"

definition cons_wf :: "'z cons_st_scheme \<Rightarrow> bool" where
  "cons_wf s \<longleftrightarrow> screen_ok s \<and> ring_ok s \<and> \<not> panicked s"

text \<open>What input may change.\<close>

definition typed :: "'z cons_st_scheme \<Rightarrow> 'z cons_st_scheme \<Rightarrow> bool" where
  "typed s s' \<longleftrightarrow> (\<exists>u t p b w e ps. s' = s\<lparr>uart_out := u, crt := t, crt_pos := p, in_buf := b, in_w := w, in_e := e, procs := ps\<rparr>) \<and> cons_wf s'"

lemma typed_trans: "typed s t \<Longrightarrow> typed t u \<Longrightarrow> typed s u"
  by (auto simp: typed_def) blast

lemma typedI:
  "cons_wf (s\<lparr>uart_out := u, crt := t, crt_pos := p, in_buf := b, in_w := w, in_e := e, procs := ps\<rparr>) \<Longrightarrow>
    typed s (s\<lparr>uart_out := u, crt := t, crt_pos := p, in_buf := b, in_w := w, in_e := e, procs := ps\<rparr>)"
  unfolding typed_def by blast

lemma typed_refl: "cons_wf s \<Longrightarrow> typed s s"
  using typedI [where s = s and u = "uart_out s" and t = "crt s" and p = "crt_pos s" and b = "in_buf s" and w = "in_w s" and e = "in_e s" and ps = "procs s"] by simp

lemma typed_shown:
  assumes "shown (s\<lparr>in_buf := b, in_w := w, in_e := e\<rparr>) s'" "ring_ok (s\<lparr>in_buf := b, in_w := w, in_e := e\<rparr>)" "\<not> panicked s"
  shows "typed s s'"
proof -
  obtain u t p where "s' = s\<lparr>in_buf := b, in_w := w, in_e := e\<rparr>\<lparr>uart_out := u, crt := t, crt_pos := p\<rparr>"
    using assms(1) by (auto simp: shown_def)
  then have s': "s' = s\<lparr>uart_out := u, crt := t, crt_pos := p, in_buf := b, in_w := w, in_e := e, procs := procs s\<rparr>" by simp
  then have "cons_wf s'" using shownD(1) [OF assms(1)] assms(2,3) by (simp add: cons_wf_def ring_ok_def)
  then show ?thesis unfolding s' by (rule typedI)
qed

lemma typedD:
  assumes "typed s s'"
  shows "cons_wf s'" "in_r s' = in_r s" "calm s' = calm s" "held s' = held s"
  using assms by (auto simp: typed_def calm_def cli_wf_def)

lemma typed_wakeup1: "cons_wf s \<Longrightarrow> typed s (wakeup1 ch s)"
  using typedI [where s = s and u = "uart_out s" and t = "crt s" and p = "crt_pos s" and b = "in_buf s" and w = "in_w s" and e = "in_e s" and
    ps = "map (wake ch) (procs s)"]
  by (simp add: wakeup1_def cons_wf_def screen_ok_def ring_ok_def)

lemma ring_back:
  assumes "w - r \<le> e - r" "e - r \<le> (128 :: uint)" "e \<noteq> w"
  shows "w - r \<le> e - 1 - r" "e - 1 - r \<le> 128" "unat (e - 1 - w) < unat (e - w)" "unat (e - w) \<le> 128"
proof -
  have "w - r \<noteq> e - r" using assms(3) by simp
  then have l: "w - r < e - r" using assms(1) by (metis order_le_imp_less_or_eq)
  then have z: "e - r \<noteq> 0" by auto
  have b: "e - 1 - r = e - r - 1" by simp
  have u: "unat (e - r - 1) = unat (e - r) - 1" using z by (simp add: unat_minus_one)
  show "w - r \<le> e - 1 - r" "e - 1 - r \<le> 128" unfolding b using u l assms(2) by (simp_all add: word_le_nat_alt word_less_nat_alt)
  show "unat (e - w) \<le> 128" using unat_sub [OF assms(1)] assms(2) by (simp add: word_le_nat_alt)
  have "e - w \<noteq> 0" using assms(3) by simp
  then have "unat (e - w - 1) = unat (e - w) - 1" "0 < unat (e - w)" by (simp_all add: unat_minus_one unat_gt_0)
  then show "unat (e - 1 - w) < unat (e - w)" by (simp add: algebra_simps)
qed

lemma ring_forward:
  assumes "w - r \<le> e - r" "e - r < (128 :: uint)"
  shows "w - r \<le> e + 1 - r" "e + 1 - r \<le> 128"
proof -
  have b: "e + 1 - r = e - r + 1" by simp
  have "unat (e - r + 1) = unat (e - r) + 1" using assms(2) by (simp add: unat_word_ariths word_less_nat_alt)
  then show "w - r \<le> e + 1 - r" "e + 1 - r \<le> 128" unfolding b using assms by (simp_all add: word_le_nat_alt word_less_nat_alt)
qed

lemma backspace_ok:
  assumes "cons_wf s" "in_e s \<noteq> in_w s"
  shows "\<exists>s'. consputc BACKSPACE (s\<lparr>in_e := in_e s - 1\<rparr>) = Ok () s' \<and> typed s s' \<and> in_w s' = in_w s \<and> in_e s' = in_e s - 1"
proof -
  let ?t = "s\<lparr>in_buf := in_buf s, in_w := in_w s, in_e := in_e s - 1\<rparr>"
  have "screen_ok ?t" "\<not> panicked ?t" using assms(1) by (simp_all add: cons_wf_def screen_ok_def)
  then obtain s' where s': "consputc BACKSPACE ?t = Ok () s'" "shown ?t s'" using consputc_ok by blast
  moreover have "ring_ok ?t" using assms ring_back [of "in_w s" "in_r s" "in_e s"] by (simp add: cons_wf_def ring_ok_def)
  ultimately have "typed s s'" using assms(1) by (intro typed_shown [OF s'(2)]) (simp_all add: cons_wf_def)
  then show ?thesis using s' shownD(5,6) [OF s'(2)] by auto
qed

lemma kill_line_ok: "cons_wf s \<Longrightarrow> unat (in_e s - in_w s) < k \<Longrightarrow> \<exists>s'. kill_line k s = Ok () s' \<and> typed s s'"
proof (induction k arbitrary: s)
  case (Suc k)
  show ?case
  proof (cases "in_e s \<noteq> in_w s \<and> in_at (in_e s - 1) s \<noteq> 0x0a")
    case True
    obtain t where t: "consputc BACKSPACE (s\<lparr>in_e := in_e s - 1\<rparr>) = Ok () t" "typed s t" "in_w t = in_w s" "in_e t = in_e s - 1"
      using backspace_ok [OF Suc.prems(1)] True by blast
    have "unat (in_e t - in_w t) < k"
      using ring_back(3) [of "in_w s" "in_r s" "in_e s"] Suc.prems True t(3,4) by (simp add: cons_wf_def ring_ok_def)
    with Suc.IH [OF typedD(1) [OF t(2)]] obtain u where "kill_line k t = Ok () u" "typed t u" by blast
    then show ?thesis using True t(1,2) by (auto intro: typed_trans)
  qed (use Suc.prems in \<open>auto simp: typed_refl\<close>)
qed simp

lemma insert_ok:
  assumes wf: "cons_wf s" and room: "in_e s - in_r s < INPUT_BUF"
  shows "\<exists>s'. consputc c (s\<lparr>in_buf := (in_buf s)[unat (in_e s mod INPUT_BUF) := b], in_e := in_e s + 1\<rparr>) = Ok () s' \<and> typed s s' \<and>
    in_buf s' = (in_buf s)[unat (in_e s mod INPUT_BUF) := b] \<and> in_e s' = in_e s + 1 \<and> in_w s' = in_w s"
proof -
  let ?t = "s\<lparr>in_buf := (in_buf s)[unat (in_e s mod INPUT_BUF) := b], in_w := in_w s, in_e := in_e s + 1\<rparr>"
  have "screen_ok ?t" "\<not> panicked ?t" using wf by (simp_all add: cons_wf_def screen_ok_def)
  then obtain s' where s': "consputc c ?t = Ok () s'" "shown ?t s'" using consputc_ok by blast
  moreover have "ring_ok ?t" using wf ring_forward [OF _ room, of "in_w s"] by (simp add: cons_wf_def ring_ok_def)
  ultimately have "typed s s'" using wf by (intro typed_shown [OF s'(2)]) (simp_all add: cons_wf_def)
  then show ?thesis using s' shownD(3,5,6) [OF s'(2)] by auto
qed

lemma consoleintr_char_ok:
  assumes wf: "cons_wf s" and h: "calm s" "L_ptable \<notin> set (held s)"
  shows "\<exists>d' s'. consoleintr_char c d s = Ok d' s' \<and> typed s s'"
proof -
  consider "c = 0x10" | "c \<noteq> 0x10" "c = 0x15" | "c \<noteq> 0x10" "c \<noteq> 0x15" "c = 0x08 \<or> c = 0x7f" "in_e s \<noteq> in_w s"
    | "c \<noteq> 0x10" "c \<noteq> 0x15" "\<not> (c = 0x08 \<or> c = 0x7f)" "c \<noteq> 0" "in_e s - in_r s < INPUT_BUF"
    | "c \<noteq> 0x10" "c \<noteq> 0x15" "c = 0x08 \<or> c = 0x7f" "in_e s = in_w s"
    | "c \<noteq> 0x10" "c \<noteq> 0x15" "\<not> (c = 0x08 \<or> c = 0x7f)" "\<not> (c \<noteq> 0 \<and> in_e s - in_r s < INPUT_BUF)"
    by metis
  then show ?thesis
  proof cases
    case 1
    then show ?thesis using wf by (auto simp: consoleintr_char_def typed_refl)
  next
    case 2
    have "unat (in_e s - in_w s) < unat INPUT_BUF + 1"
      using ring_back(4) [of "in_w s" "in_r s" "in_e s"] wf by (cases "in_e s = in_w s") (simp_all add: cons_wf_def ring_ok_def)
    from kill_line_ok [OF wf this] obtain s' where "kill_line (unat INPUT_BUF + 1) s = Ok () s'" "typed s s'" by blast
    then show ?thesis using 2 by (simp add: consoleintr_char_def)
  next
    case 3
    then show ?thesis using backspace_ok [OF wf 3(4)] by (auto simp: consoleintr_char_def)
  next
    case 4
    define c' where "c' = (if c = 0x0d then 0x0a else c)"
    obtain t where t: "consputc c' (s\<lparr>in_buf := (in_buf s)[unat (in_e s mod INPUT_BUF) := ucast c'], in_e := in_e s + 1\<rparr>) = Ok () t" "typed s t"
      using insert_ok [OF wf 4(5)] by blast
    have wt: "cons_wf (t\<lparr>in_w := in_e t\<rparr>)" using typedD(1) [OF t(2)] by (simp add: cons_wf_def screen_ok_def ring_ok_def)
    have "typed t (t\<lparr>in_w := in_e t\<rparr>)"
      using wt typedI [where s = t and u = "uart_out t" and t = "crt t" and p = "crt_pos t" and b = "in_buf t" and w = "in_e t" and e = "in_e t" and ps = "procs t"]
      by simp
    then have ty: "typed s (wakeup1 Ch_input_r (t\<lparr>in_w := in_e t\<rparr>))" by (intro typed_trans [OF t(2)] typed_trans [OF _ typed_wakeup1 [OF wt]])
    have "wakeup Ch_input_r (t\<lparr>in_w := in_e t\<rparr>) = Ok () (wakeup1 Ch_input_r (t\<lparr>in_w := in_e t\<rparr>))"
      using h typedD(3,4) [OF t(2)] by (intro wakeup_calm) (simp_all add: calm_def cli_wf_def)
    then show ?thesis using 4 t ty by (auto simp: consoleintr_char_def c'_def [symmetric] Let_def)
  next
    case 5
    then show ?thesis using wf by (auto simp: consoleintr_char_def typed_refl)
  next
    case 6
    then show ?thesis using wf by (auto simp: consoleintr_char_def typed_refl)
  qed
qed

lemma consoleintr_loop_ok:
  "cons_wf s \<Longrightarrow> calm s \<Longrightarrow> L_ptable \<notin> set (held s) \<Longrightarrow> \<exists>d' s'. consoleintr_loop cs d s = Ok d' s' \<and> typed s s'"
proof (induction cs arbitrary: d s)
  case (Cons c cs)
  obtain d1 t where t: "consoleintr_char c d s = Ok d1 t" "typed s t" using consoleintr_char_ok [OF Cons.prems] by blast
  then obtain d2 u where "consoleintr_loop cs d1 t = Ok d2 u" "typed t u" using Cons.IH [of t d1] Cons.prems typedD [OF t(2)] by auto
  with t show ?case by (auto intro: typed_trans)
qed (simp add: typed_refl)

lemma rfor_shown:
  assumes "\<And>x t. x \<in> set xs \<Longrightarrow> shown s t \<Longrightarrow> \<exists>u. f x t = Ok () u \<and> shown t u" "screen_ok s"
  shows "\<exists>s'. rfor xs f s = Ok () s' \<and> shown s s'"
  using assms
proof (induction xs arbitrary: s)
  case (Cons x xs)
  obtain t where t: "f x s = Ok () t" "shown s t" using Cons.prems(1) [of x s] shown_refl [OF Cons.prems(2)] by auto
  then obtain u where "rfor xs f t = Ok () u" "shown t u" using Cons.IH [of t] Cons.prems(1) shownD(1) [OF t(2)] shown_trans [OF t(2)] by (metis list.set_intros(2))
  with t show ?case by (auto intro: shown_trans)
qed (simp add: shown_refl)

lemma procdump_ok:
  assumes "screen_ok s" "\<not> panicked s" "calm s" "L_cons \<notin> set (held s)"
  shows "\<exists>s'. procdump s = Ok () s' \<and> shown s s'"
proof -
  have pr: "\<exists>u. cprintf fmt args t = Ok () u \<and> shown t u" if "shown s t" "fmt_ok fmt args" for t fmt args
    using cprintf_ok [OF that(2), of t] shownD [OF that(1)] assms by simp
  have tr: "\<exists>u. rfor pcs (\<lambda>pc s. cprintf [0x20, 0x25, 0x70] [PInt pc] s) t = Ok () u \<and> shown t u" if "shown s t" for t pcs
    using shownD(1) [OF that] by (intro rfor_shown pr) (auto intro: shown_trans [OF that])
  have body: "\<exists>u. rbind (cprintf [0x25, 0x64, 0x20, 0x25, 0x73, 0x20, 0x25, 0x73] [PInt x, PStr y, PStr z] t) (\<lambda>_ s.
      rbind (if q then rfor (pcs s) (\<lambda>pc s. cprintf [0x20, 0x25, 0x70] [PInt pc] s) s else Ok () s) (\<lambda>_ s. cprintf [0x0a] [] s)) = Ok () u \<and> shown t u"
    if st: "shown s t" for t x y z q pcs
  proof (rule shown_bind)
    show "\<exists>u. cprintf [0x25, 0x64, 0x20, 0x25, 0x73, 0x20, 0x25, 0x73] [PInt x, PStr y, PStr z] t = Ok () u \<and> shown t u"
      by (rule pr [OF st]) simp
    fix u assume "shown t u"
    then have su: "shown s u" using shown_trans [OF st] by blast
    show "\<exists>v. rbind (if q then rfor (pcs u) (\<lambda>pc s. cprintf [0x20, 0x25, 0x70] [PInt pc] s) u else Ok () u) (\<lambda>_ s. cprintf [0x0a] [] s) = Ok () v \<and> shown u v"
    proof (rule shown_bind)
      show "\<exists>v. (if q then rfor (pcs u) (\<lambda>pc s. cprintf [0x20, 0x25, 0x70] [PInt pc] s) u else Ok () u) = Ok () v \<and> shown u v"
        using tr [OF su, of "pcs u"] shown_refl [OF shownD(1) [OF su]] by simp
    qed (rule pr [OF shown_trans [OF su]], assumption, simp)
  qed
  show ?thesis
    unfolding procdump_def
  proof (rule rfor_shown [OF _ assms(1)])
    fix i t assume st: "shown s t"
    then have "shown t t" using shownD(1) shown_refl by blast
    then show "\<exists>u. (let p = procs t ! i in
        if p_state p = UNUSED then Ok () t
        else
          rbind (cprintf [0x25, 0x64, 0x20, 0x25, 0x73, 0x20, 0x25, 0x73]
                   [PInt (p_pid p), PStr (Some (state_name (p_state p))), PStr (Some (cname 16 (p_name p)))] t) (\<lambda>_ s.
          rbind (if p_state p = SLEEPING
                 then rfor (takeWhile (\<lambda>pc. pc \<noteq> 0) (getcallerpcs (mem s) (ld32 (mem s) (p_context p + 12) + 8)))
                        (\<lambda>pc s. cprintf [0x20, 0x25, 0x70] [PInt pc] s) s
                 else Ok () s) (\<lambda>_ s.
          cprintf [0x0a] [] s))) = Ok () u \<and> shown t u"
      using body [OF st] by (simp add: Let_def)
  qed
qed

lemma consoleintr_ok:
  assumes wf: "cons_wf s" and h: "calm s" "held s = []"
  shows "\<exists>s'. consoleintr cs s = Ok () s' \<and> cons_wf s' \<and> calm s' \<and> held s' = []"
proof -
  have c: "calm (enter L_cons s)" "held (enter L_cons s) = [L_cons]" using h by (simp_all add: calm_enter held_enter)
  have "cons_wf (enter L_cons s)" using wf by (simp add: cons_wf_def screen_ok_def ring_ok_def enter_def)
  with c obtain d s1 where l: "consoleintr_loop cs False (enter L_cons s) = Ok d s1" "typed (enter L_cons s) s1"
    using consoleintr_loop_ok [of "enter L_cons s" cs False] by auto
  then obtain u t p b w e ps where "s1 = (enter L_cons s)\<lparr>uart_out := u, crt := t, crt_pos := p, in_buf := b, in_w := w, in_e := e, procs := ps\<rparr>"
    by (auto simp: typed_def)
  moreover define s2 where "s2 = s\<lparr>uart_out := u, crt := t, crt_pos := p, in_buf := b, in_w := w, in_e := e, procs := ps\<rparr>"
  ultimately have s1: "s1 = enter L_cons s2" by (simp add: enter_def)
  have wf2: "cons_wf s2" using typedD(1) [OF l(2)] by (simp add: s1 cons_wf_def screen_ok_def ring_ok_def enter_def)
  have h2: "calm s2" "held s2 = []" using h by (simp_all add: s2_def calm_def cli_wf_def)
  have e: "consoleintr cs s = (if d then procdump s2 else Ok () s2)"
    using l(1) h h2 by (simp add: consoleintr_def acquire_calm release_enter s1)
  show ?thesis
  proof (cases d)
    case True
    obtain s' where s': "procdump s2 = Ok () s'" "shown s2 s'" using procdump_ok [of s2] wf2 h2 by (auto simp: cons_wf_def)
    moreover have "cons_wf s'" using wf2 shownD [OF s'(2)] by (simp add: cons_wf_def ring_ok_def)
    ultimately show ?thesis using True e h2 shownD [OF s'(2)] by simp
  qed (use e wf2 h2 in simp)
qed

text \<open>
  C28: keyboard input keeps the console well formed.  Whatever bytes the keyboard delivers, \<open>kbdintr\<close> returns: the
  screen keeps its size with the cursor on it, the positions of the input ring stay in order within one
  buffer, the shift state stays within its seven bits, all bytes are taken and no lock is left held.
\<close>

theorem keyboard_input_wf:
  assumes "cons_wf s" "calm s" "held s = []" "unat (kbd_shift k) < 2 ^ 7"
  shows "\<exists>k' s'. kbdintr k s = Ok k' s' \<and> cons_wf s' \<and> unat (kbd_shift k') < 2 ^ 7 \<and> kbd_port k' = [] \<and> calm s' \<and> held s' = []"
proof -
  obtain cs k' where k': "kbd_chars k = (cs, k')" by fastforce
  have "unat (kbd_shift k') < 128 \<and> kbd_port k' = []"
    using kbd_chars_type [of "kbd_shift k" "kbd_port k" cs k'] k' assms(4) by (cases k) simp
  moreover obtain s' where "consoleintr cs s = Ok () s'" "cons_wf s'" "calm s'" "held s' = []" using consoleintr_ok [OF assms(1-3)] by blast
  ultimately show ?thesis using k' by (simp add: kbdintr_def)
qed

theorem keyboard_input_wf_witness:
  "\<exists>k' s'. kbdintr \<lparr>kbd_shift = 0, kbd_port = [0x2A, 0x1E, 0x9E, 0xAA, 0xE0, 0x48]\<rparr> cons_example = Ok k' s' \<and> cons_wf s' \<and> kbd_port k' = []"
proof -
  have "cons_wf cons_example" "calm cons_example" "held cons_example = []"
    by (simp_all add: cons_wf_def screen_ok_def ring_ok_def machine_defs calm_def cli_wf_def)
  from keyboard_input_wf [OF this, of "\<lparr>kbd_shift = 0, kbd_port = [0x2A, 0x1E, 0x9E, 0xAA, 0xE0, 0x48]\<rparr>"] show ?thesis by auto
qed

end
