(* ===== verification/Xv6_Mkfs.thy ===== *)
theory Xv6_Mkfs
  imports Xv6_Fs Xv6_Ulib
begin

text \<open>
  The program that makes the first file system image (mkfs.c).  It runs on the host, a little-endian machine whose
  reads and writes of the image succeed.  The image file is the list of its sectors.  A failed \<open>assert\<close> and an
  \<open>exit(1)\<close> are the \<open>Panic\<close> results.
\<close>

subsection \<open>Parameters and byte order\<close>

abbreviation "NINODES \<equiv> 200 :: nat"

definition nbitmap :: nat where
  "nbitmap = unat FSSIZE div (BSIZE * 8) + 1"

definition ninodeblocks :: nat where
  "ninodeblocks = NINODES div unat IPB + 1"

definition nlog :: nat where
  "nlog = nat LOGSIZE"

definition nmeta :: nat where
  "nmeta = 2 + nlog + ninodeblocks + nbitmap"

definition nblocks :: nat where
  "nblocks = unat FSSIZE - nmeta"

definition xshort :: "ushort \<Rightarrow> ushort" where
  "xshort x = get16 [ucast x, ucast (drop_bit 8 x)] 0"

definition xint :: "uint \<Rightarrow> uint" where
  "xint x = get32 [ucast x, ucast (drop_bit 8 x), ucast (drop_bit 16 x), ucast (drop_bit 24 x)] 0"

subsection \<open>Sectors\<close>

record mk =
  image :: "byte list list"
  mk_sb :: superblock
  freeinode :: uint
  freeblock :: uint

definition zeroes :: "byte list" where
  "zeroes = replicate BSIZE 0"

text \<open>The sector that \<open>lseek\<close> to \<open>sec * BSIZE\<close> reaches; the product is an \<open>unsigned int\<close>.\<close>

definition sect_pos :: "uint \<Rightarrow> nat" where
  "sect_pos sec = unat (sec * of_nat BSIZE) div BSIZE"

definition wsect :: "uint \<Rightarrow> byte list \<Rightarrow> mk \<Rightarrow> (unit, mk) res" where
  "wsect sec buf s =
    (let k = sect_pos sec; f = image s in
     Ok () (s\<lparr>image := if k < length f then f[k := buf] else f @ replicate (k - length f) zeroes @ [buf]\<rparr>))"

definition rsect :: "uint \<Rightarrow> mk \<Rightarrow> (byte list, mk) res" where
  "rsect sec s = (let k = sect_pos sec in if k < length (image s) then Ok (image s ! k) s else Panic ''read'')"

subsection \<open>Inodes\<close>

definition winode :: "uint \<Rightarrow> dinode \<Rightarrow> mk \<Rightarrow> (unit, mk) res" where
  "winode inum ip s =
    (let bn = IBLOCK inum (mk_sb s) in
     rbind (rsect bn s) (\<lambda>buf s. wsect bn (put_dinode (dinode_off inum) ip buf) s))"

definition rinode :: "uint \<Rightarrow> mk \<Rightarrow> (dinode, mk) res" where
  "rinode inum s =
    rbind (rsect (IBLOCK inum (mk_sb s)) s) (\<lambda>buf s. Ok (dinode_at buf (dinode_off inum)) s)"

definition ialloc_mk :: "ushort \<Rightarrow> mk \<Rightarrow> (uint, mk) res" where
  "ialloc_mk ty s =
    (let inum = freeinode s; s = s\<lparr>freeinode := inum + 1\<rparr>;
         din = \<lparr>d_type = xshort ty, d_major = 0, d_minor = 0, d_nlink = xshort 1, d_size = xint 0, d_addrs = replicate (NDIRECT + 1) 0\<rparr>
     in rbind (winode inum din s) (\<lambda>_ s. Ok inum s))"

definition balloc_mk :: "int \<Rightarrow> mk \<Rightarrow> (unit, mk) res" where
  "balloc_mk used s =
    (if \<not> used < int (BSIZE * 8) then Panic ''assertion failed''
     else wsect (sb_bmapstart (mk_sb s)) (fold mark_used [0..<nat used] zeroes) s)"

subsection \<open>Appending to a file\<close>

text \<open>The disk block behind block \<open>fbn\<close> of the file, allocated if it is missing.\<close>

definition iappend_block :: "uint \<Rightarrow> dinode \<Rightarrow> mk \<Rightarrow> (uint \<times> dinode, mk) res" where
  "iappend_block fbn din s =
    (if unat fbn < NDIRECT then
       let (din, s) = (if xint (d_addrs din ! unat fbn) = 0
                       then (din\<lparr>d_addrs := (d_addrs din)[unat fbn := xint (freeblock s)]\<rparr>, s\<lparr>freeblock := freeblock s + 1\<rparr>)
                       else (din, s))
       in Ok (xint (d_addrs din ! unat fbn), din) s
     else
       let (din, s) = (if xint (d_addrs din ! NDIRECT) = 0
                       then (din\<lparr>d_addrs := (d_addrs din)[NDIRECT := xint (freeblock s)]\<rparr>, s\<lparr>freeblock := freeblock s + 1\<rparr>)
                       else (din, s));
           k = 4 * (unat fbn - NDIRECT)
       in rbind (rsect (xint (d_addrs din ! NDIRECT)) s) (\<lambda>indirect s.
          if get32 indirect k = 0 then
            let indirect = put32 k (xint (freeblock s)) indirect; s = s\<lparr>freeblock := freeblock s + 1\<rparr> in
            rbind (wsect (xint (d_addrs din ! NDIRECT)) indirect s) (\<lambda>_ s. Ok (xint (get32 indirect k), din) s)
          else Ok (xint (get32 indirect k), din) s))"

definition n1_of :: "uint \<Rightarrow> nat \<Rightarrow> nat" where
  "n1_of off n = min n (unat ((off div of_nat BSIZE + 1) * of_nat BSIZE - off))"

lemma n1_of_off: "n1_of off n = min n (BSIZE - unat off mod BSIZE)"
proof -
  define q r where "q = unat off div 512" and "r = unat off mod 512"
  have "off = of_nat (unat off)" by simp
  also have "unat off = 512 * q + r" by (simp add: q_def r_def)
  finally have off: "off = of_nat 512 * of_nat q + of_nat r" by simp
  have d: "off div of_nat BSIZE = of_nat q" by (simp add: q_def word_unat_eq_iff unat_div_distrib le_less_trans [OF div_le_dividend unat_less_2p32])
  have r: "r < 512" by (simp add: r_def)
  have e: "(off div of_nat BSIZE + 1) * of_nat BSIZE - off = of_nat (512 - r)"
    unfolding d using r by (simp add: off of_nat_diff algebra_simps)
  have "unat (of_nat (512 - r) :: uint) = 512 - r" by (rule unat_of_nat_32) simp
  then show ?thesis by (simp only: n1_of_def e r_def)
qed

function iappend_loop :: "uint \<Rightarrow> byte list \<Rightarrow> dinode \<Rightarrow> mk \<Rightarrow> (uint \<times> dinode, mk) res" where
  "iappend_loop off p din s =
    (if p = [] then Ok (off, din) s
     else
       let fbn = off div of_nat BSIZE in
       if \<not> unat fbn < MAXFILE then Panic ''assertion failed''
       else
         rbind (iappend_block fbn din s) (\<lambda>(x, din) s.
         let n1 = n1_of off (length p) in
         rbind (rsect x s) (\<lambda>buf s.
         rbind (wsect x (splice (unat (off - fbn * of_nat BSIZE)) (take n1 p) buf) s) (\<lambda>_ s.
         iappend_loop (off + of_nat n1) (drop n1 p) din s))))"
  by pat_completeness auto
termination
  by (relation "measure (\<lambda>(off, p, din, s). length p)") (auto simp: n1_of_off intro!: diff_less)

definition iappend :: "uint \<Rightarrow> byte list \<Rightarrow> mk \<Rightarrow> (unit, mk) res" where
  "iappend inum p s =
    rbind (rinode inum s) (\<lambda>din s.
    rbind (iappend_loop (xint (d_size din)) p din s) (\<lambda>(off, din) s.
    winode inum (din\<lparr>d_size := xint off\<rparr>) s))"

subsection \<open>The program\<close>

text \<open>
  An argument is a name and, if the file can be opened, what the successive reads of at most \<open>BSIZE\<close> bytes
  return; an empty read ends the file.
\<close>

type_synonym mk_arg = "cstring \<times> byte list list option"

fun copy_in :: "uint \<Rightarrow> byte list list \<Rightarrow> mk \<Rightarrow> (unit, mk) res" where
  "copy_in inum [] s = Ok () s"
| "copy_in inum (buf # reads) s =
    (if buf = [] then Ok () s else rbind (iappend inum buf s) (\<lambda>_ s. copy_in inum reads s))"

fun add_files :: "uint \<Rightarrow> mk_arg list \<Rightarrow> mk \<Rightarrow> (unit, mk) res" where
  "add_files rootino [] s = Ok () s"
| "add_files rootino ((name, file) # args) s =
    (if strchr name 0x2f \<noteq> None then Panic ''assertion failed''
     else case file of None \<Rightarrow> Panic ''open''
     | Some reads \<Rightarrow>
       let name = (if first name = 0x5f then tl name else name) in
       rbind (ialloc_mk T_FILE s) (\<lambda>inum s.
       rbind (iappend rootino (de_bytes (xshort (ucast inum)) (strncpy_bytes DIRSIZ name)) s) (\<lambda>_ s.
       rbind (copy_in inum reads s) (\<lambda>_ s.
       add_files rootino args s))))"

definition sb_bytes :: "superblock \<Rightarrow> byte list" where
  "sb_bytes x = fold (\<lambda>(k, w). put32 k w) (zip [0, 4, 8, 12, 16, 20, 24]
     [sb_size x, sb_nblocks x, sb_ninodes x, sb_nlog x, sb_logstart x, sb_inodestart x, sb_bmapstart x]) zeroes"

definition mk_super :: superblock where
  "mk_super = \<lparr>sb_size = xint FSSIZE, sb_nblocks = xint (of_nat nblocks), sb_ninodes = xint (of_nat NINODES),
     sb_nlog = xint (of_nat nlog), sb_logstart = xint 2, sb_inodestart = xint (of_nat (2 + nlog)),
     sb_bmapstart = xint (of_nat (2 + nlog + ninodeblocks))\<rparr>"

definition mkfs_main :: "mk_arg list \<Rightarrow> (unit, mk) res" where
  "mkfs_main argv =
    (case argv of
       [] \<Rightarrow> Panic ''usage''
     | (_, None) # _ \<Rightarrow> Panic ''open''
     | (_, Some _) # args \<Rightarrow>
       let s = \<lparr>image = [], mk_sb = mk_super, freeinode = 1, freeblock = of_nat nmeta\<rparr> in
       rbind (rfor [0..<unat FSSIZE] (\<lambda>i. wsect (of_nat i) zeroes) s) (\<lambda>_ s.
       rbind (wsect 1 (sb_bytes (mk_sb s)) s) (\<lambda>_ s.
       rbind (ialloc_mk T_DIR s) (\<lambda>rootino s.
       if rootino \<noteq> ROOTINO then Panic ''assertion failed''
       else
         rbind (iappend rootino (de_bytes (xshort (ucast rootino)) (ascii ''.'' @ replicate 13 0)) s) (\<lambda>_ s.
         rbind (iappend rootino (de_bytes (xshort (ucast rootino)) (ascii ''..'' @ replicate 12 0)) s) (\<lambda>_ s.
         rbind (add_files rootino args s) (\<lambda>_ s.
         rbind (rinode rootino s) (\<lambda>din s.
         let off = xint (d_size din); off = (off div of_nat BSIZE + 1) * of_nat BSIZE in
         rbind (winode rootino (din\<lparr>d_size := xint off\<rparr>) s) (\<lambda>_ s.
         balloc_mk (sint (freeblock s)) s)))))))))"

end
