(* ===== verification/Xv6_Image.thy ===== *)
theory Xv6_Image
  imports Xv6_Mkfs
begin

text \<open>
  What \<open>mkfs\<close> puts on the disk: an image in which every inode has its own blocks and the blocks of a
  file hold its bytes.  The program is shown to refine the abstract file system that maps inode
  numbers to byte lists, with appending and creating as its operations.
\<close>

subsection \<open>Byte order, sectors and on-disk inodes\<close>

lemma xint_id [simp]: "xint x = x"
  by (simp add: xint_def get32_def word32_bytes)

lemma xshort_id [simp]: "xshort x = x"
  by (simp add: xshort_def get16_def word16_bytes)

lemma mk_numbers [simp]: "nbitmap = 1" "ninodeblocks = 26" "nlog = 30" "nmeta = 59" "nblocks = 941"
  by (simp_all add: nbitmap_def ninodeblocks_def nlog_def nmeta_def nblocks_def)

lemma mk_super_fields [simp]:
  "sb_size mk_super = 1000" "sb_ninodes mk_super = 200" "sb_nlog mk_super = 30" "sb_logstart mk_super = 2"
  "sb_inodestart mk_super = 32" "sb_bmapstart mk_super = 58" "sb_nblocks mk_super = 941"
  by (simp_all add: mk_super_def)

lemma length_zeroes [simp]: "length zeroes = 512"
  by (simp add: zeroes_def)

lemma zeroes_nth [simp]: "q < 512 \<Longrightarrow> zeroes ! q = 0"
  by (simp add: zeroes_def)

lemma sect_pos_small: "n < 1000 \<Longrightarrow> sect_pos (of_nat n) = n"
proof -
  assume n: "n < 1000"
  have "of_nat n * of_nat BSIZE = (of_nat (n * 512) :: uint)" by simp
  also have "unat \<dots> = n * 512" using n by (intro unat_of_nat_32) simp
  finally show ?thesis by (simp add: sect_pos_def)
qed

lemma rsect_small: "n < 1000 \<Longrightarrow> length (image s) = 1000 \<Longrightarrow> rsect (of_nat n) s = Ok (image s ! n) s"
  by (simp add: rsect_def sect_pos_small)

lemma wsect_small: "n < 1000 \<Longrightarrow> length (image s) = 1000 \<Longrightarrow> wsect (of_nat n) b s = Ok () (s\<lparr>image := (image s)[n := b]\<rparr>)"
  by (simp add: wsect_def sect_pos_small)

text \<open>The addresses of an inode on disk.\<close>

lemma put_addrs_snoc: "put_addrs k (as @ [a]) d = put32 (k + 4 * length as) a (put_addrs k as d)"
proof -
  have "fold (\<lambda>j. put32 (k + 4 * j) ((as @ [a]) ! j)) [0..<length as] d = fold (\<lambda>j. put32 (k + 4 * j) (as ! j)) [0..<length as] d"
    by (rule fold_cong) (auto simp: nth_append)
  then show ?thesis by (simp add: put_addrs_def)
qed

lemma length_put_addrs [simp]: "length (put_addrs k as d) = length d"
  by (induction as rule: rev_induct) (simp_all add: put_addrs_snoc, simp add: put_addrs_def)

lemma get32_put_addrs:
  "k + 4 * length as \<le> length d \<Longrightarrow> j < length as \<Longrightarrow> get32 (put_addrs k as d) (k + 4 * j) = as ! j"
proof (induction as rule: rev_induct)
  case (snoc a as)
  then show ?case by (cases "j = length as") (auto simp: put_addrs_snoc nth_append layout_simps)
qed simp

lemma put_addrs_other:
  "j + 2 \<le> k \<or> k + 4 * length as \<le> j \<Longrightarrow> get16 (put_addrs k as d) j = get16 d j"
  "j + 4 \<le> k \<or> k + 4 * length as \<le> j \<Longrightarrow> get32 (put_addrs k as d) j = get32 d j"
  by (induction as rule: rev_induct) (auto simp: put_addrs_snoc get16_put32_other get32_put32_other, auto simp: put_addrs_def)

lemma length_put_dinode [simp]: "length (put_dinode k i d) = length d"
  by (simp add: put_dinode_def Let_def)

lemma dinode_at_put:
  assumes "k + 64 \<le> length d" "length (d_addrs i) = 13"
  shows "dinode_at (put_dinode k i d) k = i"
proof -
  have "map (\<lambda>j. get32 (put_dinode k i d) (k + 12 + 4 * j)) [0..<NDIRECT + 1] = d_addrs i"
    using assms by (intro nth_equalityI) (auto simp: put_dinode_def Let_def get32_put_addrs)
  then show ?thesis
    using assms by (simp add: dinode_at_def) (simp add: put_dinode_def Let_def put_addrs_other layout_simps)
qed

lemma dinode_at_put_other:
  assumes "k + 64 \<le> j \<or> j + 64 \<le> k" "length (d_addrs i) = 13"
  shows "dinode_at (put_dinode k i d) j = dinode_at d j"
proof -
  have "get16 (put_dinode k i d) n = get16 d n" if "j \<le> n" "n + 2 \<le> j + 64" for n
    using assms that by (auto simp: put_dinode_def Let_def put_addrs_other layout_simps)
  moreover have "get32 (put_dinode k i d) n = get32 d n" if "j \<le> n" "n + 4 \<le> j + 64" for n
    using assms that by (auto simp: put_dinode_def Let_def put_addrs_other layout_simps)
  ultimately show ?thesis by (simp add: dinode_at_def)
qed

subsection \<open>Files in an image\<close>

text \<open>
  The block addresses of an inode: positions below 140 are the blocks of the file, position 140 is the
  indirect block.  Zero stands for no block.
\<close>

definition adr :: "byte list list \<Rightarrow> dinode \<Rightarrow> nat \<Rightarrow> nat" where
  "adr f d k = unat
    (if k < NDIRECT then d_addrs d ! k else if k = MAXFILE then d_addrs d ! NDIRECT
     else if d_addrs d ! NDIRECT = 0 then 0 else get32 (f ! unat (d_addrs d ! NDIRECT)) (4 * (k - NDIRECT)))"

text \<open>Which positions a file of \<open>n\<close> blocks uses, and how many.\<close>

definition used :: "nat \<Rightarrow> nat \<Rightarrow> bool" where
  "used n k \<longleftrightarrow> (if k < MAXFILE then k < n else k = MAXFILE \<and> NDIRECT < n)"

definition cost :: "nat \<Rightarrow> nat" where
  "cost n = n + (if NDIRECT < n then 1 else 0)"

definition byte_at :: "byte list \<Rightarrow> nat \<Rightarrow> byte" where
  "byte_at bs p = (if p < length bs then bs ! p else 0)"

definition shape :: "byte list list \<Rightarrow> nat \<Rightarrow> bool" where
  "shape f fb \<longleftrightarrow> length f = 1000 \<and> (\<forall>b < 1000. length (f ! b) = 512) \<and> 59 \<le> fb \<and> fb \<le> 1000 \<and>
    (\<forall>b < 1000. fb \<le> b \<longrightarrow> f ! b = zeroes)"

definition slots_ok :: "nat set \<Rightarrow> byte list list \<Rightarrow> (nat \<Rightarrow> dinode) \<Rightarrow> (nat \<Rightarrow> nat) \<Rightarrow> nat \<Rightarrow> bool" where
  "slots_ok I f D N fb \<longleftrightarrow>
    (\<forall>i \<in> I. length (d_addrs (D i)) = 13 \<and> N i \<le> MAXFILE) \<and>
    (\<forall>i \<in> I. \<forall>k \<le> MAXFILE. used (N i) k \<longrightarrow> 59 \<le> adr f (D i) k \<and> adr f (D i) k < fb) \<and>
    (\<forall>i \<in> I. \<forall>k \<le> MAXFILE. \<not> used (N i) k \<longrightarrow> adr f (D i) k = 0) \<and>
    (\<forall>i \<in> I. \<forall>j \<in> I. \<forall>k \<le> MAXFILE. \<forall>l \<le> MAXFILE. used (N i) k \<longrightarrow> used (N j) l \<longrightarrow>
      adr f (D i) k = adr f (D j) l \<longrightarrow> i = j \<and> k = l)"

definition bytes_ok :: "nat set \<Rightarrow> byte list list \<Rightarrow> (nat \<Rightarrow> dinode) \<Rightarrow> (nat \<Rightarrow> nat) \<Rightarrow> (nat \<Rightarrow> byte list) \<Rightarrow> bool" where
  "bytes_ok I f D N F \<longleftrightarrow>
    (\<forall>i \<in> I. length (F i) \<le> 512 * N i \<and> (\<forall>k < N i. \<forall>q < 512. f ! adr f (D i) k ! q = byte_at (F i) (512 * k + q)))"

definition files_ok :: "nat set \<Rightarrow> byte list list \<Rightarrow> (nat \<Rightarrow> dinode) \<Rightarrow> (nat \<Rightarrow> nat) \<Rightarrow> (nat \<Rightarrow> byte list) \<Rightarrow> nat \<Rightarrow> bool" where
  "files_ok I f D N F fb \<longleftrightarrow> shape f fb \<and> slots_ok I f D N fb \<and> bytes_ok I f D N F"

lemma shapeD:
  assumes "shape f fb"
  shows "length f = 1000" "b < 1000 \<Longrightarrow> length (f ! b) = 512" "59 \<le> fb" "fb \<le> 1000" "b < 1000 \<Longrightarrow> fb \<le> b \<Longrightarrow> f ! b = zeroes"
  using assms by (auto simp: shape_def)

lemma slots_okD:
  assumes "slots_ok I f D N fb" "i \<in> I"
  shows "length (d_addrs (D i)) = 13" "N i \<le> MAXFILE"
    "k \<le> MAXFILE \<Longrightarrow> used (N i) k \<Longrightarrow> 59 \<le> adr f (D i) k \<and> adr f (D i) k < fb"
    "k \<le> MAXFILE \<Longrightarrow> \<not> used (N i) k \<Longrightarrow> adr f (D i) k = 0"
    "j \<in> I \<Longrightarrow> k \<le> MAXFILE \<Longrightarrow> l \<le> MAXFILE \<Longrightarrow> used (N i) k \<Longrightarrow> used (N j) l \<Longrightarrow>
      adr f (D i) k = adr f (D j) l \<Longrightarrow> i = j \<and> k = l"
proof -
  show "length (d_addrs (D i)) = 13" "N i \<le> MAXFILE" using assms by (auto simp: slots_ok_def)
  show "59 \<le> adr f (D i) k \<and> adr f (D i) k < fb" if "k \<le> MAXFILE" "used (N i) k"
    using assms that unfolding slots_ok_def by blast
  show "adr f (D i) k = 0" if "k \<le> MAXFILE" "\<not> used (N i) k"
    using assms that unfolding slots_ok_def by blast
  show "i = j \<and> k = l" if "j \<in> I" "k \<le> MAXFILE" "l \<le> MAXFILE" "used (N i) k" "used (N j) l" "adr f (D i) k = adr f (D j) l"
    using assms that unfolding slots_ok_def by blast
qed

lemma used_block: "n \<le> MAXFILE \<Longrightarrow> k < n \<Longrightarrow> used n k" "used n MAXFILE \<longleftrightarrow> NDIRECT < n"
  by (simp_all add: used_def)

lemma adr_direct: "k < NDIRECT \<Longrightarrow> adr f d k = unat (d_addrs d ! k)" "adr f d MAXFILE = unat (d_addrs d ! NDIRECT)"
  by (simp_all add: adr_def)

lemma adr_indirect:
  "NDIRECT \<le> k \<Longrightarrow> k < MAXFILE \<Longrightarrow>
    adr f d k = (if adr f d MAXFILE = 0 then 0 else unat (get32 (f ! adr f d MAXFILE) (4 * (k - NDIRECT))))"
  by (auto simp: adr_def unat_eq_0)

lemma adr_cong: "f' ! adr f d MAXFILE = f ! adr f d MAXFILE \<Longrightarrow> adr f' d k = adr f d k"
  by (auto simp: adr_def)

text \<open>
  Giving file \<open>i\<close> one more block, of address \<open>x\<close>: the addresses in use stay, the new ones are fresh.
\<close>

lemma slots_grow:
  assumes s: "slots_ok I f D N fb" and i: "i \<in> I" "N i < MAXFILE" and fb: "fb \<le> fb'" "59 \<le> fb"
    and len: "length (d_addrs d') = 13"
    and old: "\<And>j l. j \<in> I \<Longrightarrow> j \<noteq> i \<Longrightarrow> l \<le> MAXFILE \<Longrightarrow> adr f' (D j) l = adr f (D j) l"
    and own: "\<And>l. l \<le> MAXFILE \<Longrightarrow> adr f' d' l = (if l = N i then x else if l = MAXFILE \<and> N i = NDIRECT then y else adr f (D i) l)"
    and fresh: "fb \<le> x" "x < fb'" "N i = NDIRECT \<Longrightarrow> fb \<le> y \<and> y < fb' \<and> x \<noteq> y"
  shows "slots_ok I f' (D(i := d')) (N(i := Suc (N i))) fb'"
proof -
  let ?D = "D(i := d')" and ?N = "N(i := Suc (N i))"
  note d = slots_okD [OF s]
  have keep: "adr f' (?D j) l = adr f (D j) l \<and> adr f (D j) l < fb \<and> 59 \<le> adr f (D j) l"
    if "j \<in> I" "l \<le> MAXFILE" "used (N j) l" for j l
    using that old own d(3) [OF that] i(2) by (cases "j = i") (auto simp: used_def split: if_splits)
  have new: "l \<le> MAXFILE \<Longrightarrow> used (Suc (N i)) l \<Longrightarrow> \<not> used (N i) l \<Longrightarrow> l = N i \<or> l = MAXFILE \<and> N i = NDIRECT" for l
    by (auto simp: used_def split: if_splits)
  have grown: "used (N i) l \<Longrightarrow> used (Suc (N i)) l" for l by (auto simp: used_def split: if_splits)
  have xy: "adr f' d' (N i) = x" "N i = NDIRECT \<Longrightarrow> adr f' d' MAXFILE = y" using own i(2) by auto
  have place: "used (N j) l \<and> adr f' (?D j) l = adr f (D j) l \<and> 59 \<le> adr f (D j) l \<and> adr f (D j) l < fb \<or>
      j = i \<and> l = N i \<and> adr f' (?D j) l = x \<or> j = i \<and> l = MAXFILE \<and> N i = NDIRECT \<and> adr f' (?D j) l = y"
    if "j \<in> I" "l \<le> MAXFILE" "used (?N j) l" for j l
    using keep [OF that(1,2)] new [OF that(2)] xy that by (cases "j = i") auto
  show ?thesis
    unfolding slots_ok_def
  proof (intro conjI ballI allI impI)
    fix j assume j: "j \<in> I"
    show "length (d_addrs (?D j)) = 13" "?N j \<le> MAXFILE" using d(1,2) [OF j] len i by auto
    fix l assume l: "l \<le> MAXFILE"
    show "59 \<le> adr f' (?D j) l" "adr f' (?D j) l < fb'" if u: "used (?N j) l"
      using place [OF j l u] fb fresh by auto
    show "adr f' (?D j) l = 0" if u: "\<not> used (?N j) l"
      using d(4) [OF j l] old [OF j _ l] own [OF l] u grown i by (cases "j = i") (auto simp: used_def split: if_splits)
  next
    fix j k l m assume a: "j \<in> I" "k \<in> I" "l \<le> MAXFILE" "m \<le> MAXFILE" "used (?N j) l" "used (?N k) m" "adr f' (?D j) l = adr f' (?D k) m"
    have "j = k \<and> l = m"
      using place [OF a(1,3,5)] place [OF a(2,4,6)] a(7) d(5) [OF a(1,2,3,4)] fresh by fastforce
    then show "j = k" "l = m" by auto
  qed
qed

lemma bytes_grow:
  assumes b: "bytes_ok I f D N F" and i: "i \<in> I"
    and addr: "\<And>j l. j \<in> I \<Longrightarrow> l < N j \<Longrightarrow> adr f' ((D(i := d')) j) l = adr f (D j) l"
    and keep: "\<And>j l. j \<in> I \<Longrightarrow> l < N j \<Longrightarrow> f' ! adr f (D j) l = f ! adr f (D j) l"
    and new: "f' ! adr f' d' (N i) = zeroes"
  shows "bytes_ok I f' (D(i := d')) (N(i := Suc (N i))) F"
  unfolding bytes_ok_def
proof (intro ballI conjI allI impI)
  fix j assume j: "j \<in> I"
  have old: "length (F j) \<le> 512 * N j" "\<And>k q. k < N j \<Longrightarrow> q < 512 \<Longrightarrow> f ! adr f (D j) k ! q = byte_at (F j) (512 * k + q)"
    using b j by (auto simp: bytes_ok_def)
  then show "length (F j) \<le> 512 * (N(i := Suc (N i))) j" by auto
  fix k q :: nat assume k: "k < (N(i := Suc (N i))) j" and q: "q < 512"
  show "f' ! adr f' ((D(i := d')) j) k ! q = byte_at (F j) (512 * k + q)"
  proof (cases "k < N j")
    case True
    then show ?thesis using old(2) [OF _ q] addr [OF j True] keep [OF j True] by simp
  next
    case False
    then have "j = i" "k = N i" using k by (auto split: if_splits)
    then show ?thesis using new q old(1) by (simp add: byte_at_def)
  qed
qed

lemma not_data_block:
  assumes s: "slots_ok I f D N fb" and "i \<in> I" "j \<in> I" "NDIRECT < N i" "l < N j"
  shows "adr f (D i) MAXFILE \<noteq> adr f (D j) l"
proof
  assume e: "adr f (D i) MAXFILE = adr f (D j) l"
  have l: "l < MAXFILE" using slots_okD(2) [OF s assms(3)] assms(5) by simp
  then have "used (N i) MAXFILE" "used (N j) l" using assms(4,5) by (simp_all add: used_def)
  from slots_okD(5) [OF s assms(2,3) _ _ this e] l show False by simp
qed

lemma other_indirect:
  assumes s: "slots_ok I f D N fb" and "i \<in> I" "j \<in> I" "j \<noteq> i" "NDIRECT < N i" "59 \<le> fb"
  shows "adr f (D j) MAXFILE \<noteq> adr f (D i) MAXFILE"
proof
  assume e: "adr f (D j) MAXFILE = adr f (D i) MAXFILE"
  have i: "used (N i) MAXFILE" using assms(5) by (simp add: used_def)
  show False
  proof (cases "used (N j) MAXFILE")
    case True
    from slots_okD(5) [OF s assms(3,2) _ _ True i e] assms(4) show False by simp
  next
    case False
    then have "adr f (D j) MAXFILE = 0" using slots_okD(4) [OF s assms(3)] by simp
    then show False using slots_okD(3) [OF s assms(2) _ i] e by simp
  qed
qed

text \<open>What the steps of \<open>mkfs\<close> on files leave alone: the metadata blocks and the counters of inodes.\<close>

definition mk_step :: "mk \<Rightarrow> mk \<Rightarrow> bool" where
  "mk_step s s' \<longleftrightarrow> mk_sb s' = mk_sb s \<and> freeinode s' = freeinode s \<and> (\<forall>b < 59. image s' ! b = image s ! b)"

lemma mk_step_refl [simp]: "mk_step s s"
  by (simp add: mk_step_def)

lemma mk_step_trans: "mk_step s t \<Longrightarrow> mk_step t u \<Longrightarrow> mk_step s u"
  by (simp add: mk_step_def)

lemma alloc_direct:
  assumes ok: "files_ok I f D N F fb" and i: "i \<in> I" "N i < NDIRECT" and fb: "fb < 1000"
    and d': "d' = (D i)\<lparr>d_addrs := (d_addrs (D i))[N i := of_nat fb]\<rparr>"
  shows "files_ok I f (D(i := d')) (N(i := Suc (N i))) F (Suc fb) \<and> adr f d' (N i) = fb"
proof -
  have sh: "shape f fb" and s: "slots_ok I f D N fb" and b: "bytes_ok I f D N F" using ok by (simp_all add: files_ok_def)
  have len: "length (d_addrs (D i)) = 13" by (rule slots_okD(1) [OF s i(1)])
  have own: "adr f d' l = (if l = N i then fb else adr f (D i) l)" for l
    using i(2) len fb by (auto simp: adr_def d')
  have "slots_ok I f (D(i := d')) (N(i := Suc (N i))) (Suc fb)"
    using own i fb len shapeD(3) [OF sh] by (intro slots_grow [OF s i(1), where x = fb and y = 0]) (auto simp: d')
  moreover have "bytes_ok I f (D(i := d')) (N(i := Suc (N i))) F"
    using own shapeD(5) [OF sh fb] by (intro bytes_grow [OF b i(1)]) auto
  moreover have "shape f (Suc fb)" using sh fb by (simp add: shape_def)
  ultimately show ?thesis using own by (simp add: files_ok_def)
qed

lemma low_address: "slots_ok I f D N fb \<Longrightarrow> j \<in> I \<Longrightarrow> l \<le> MAXFILE \<Longrightarrow> 59 \<le> fb \<Longrightarrow> adr f (D j) l \<noteq> fb"
  using slots_okD(3,4) [of I f D N fb j l] by (cases "used (N j) l") auto

lemma get32_fresh: "k + 4 \<le> 512 \<Longrightarrow> get32 zeroes k = 0"
  by (simp add: get32_def)

lemma alloc_first_indirect:
  assumes ok: "files_ok I f D N F fb" and i: "i \<in> I" "N i = NDIRECT" and fb: "Suc fb < 1000"
    and d': "d' = (D i)\<lparr>d_addrs := (d_addrs (D i))[NDIRECT := of_nat fb]\<rparr>"
    and f': "f' = f[fb := put32 0 (of_nat (Suc fb)) (f ! fb)]"
  shows "files_ok I f' (D(i := d')) (N(i := Suc (N i))) F (Suc (Suc fb)) \<and> adr f' d' (N i) = Suc fb"
proof -
  have sh: "shape f fb" and s: "slots_ok I f D N fb" and b: "bytes_ok I f D N F" using ok by (simp_all add: files_ok_def)
  note sd = shapeD [OF sh] and d = slots_okD [OF s]
  have len: "length (d_addrs (D i)) = 13" by (rule d(1) [OF i(1)])
  have z: "f ! fb = zeroes" using sd(5) fb by simp
  have ind: "adr f' d' MAXFILE = fb" using len fb by (simp add: adr_def d')
  have own: "adr f' d' l = (if l = N i then Suc fb else if l = MAXFILE \<and> N i = NDIRECT then fb else adr f (D i) l)" if l: "l \<le> MAXFILE" for l
  proof -
    consider "l < NDIRECT" | "l = NDIRECT" | "NDIRECT < l" "l < MAXFILE" | "l = MAXFILE" using l by linarith
    then show ?thesis
    proof cases
      case 3
      have "\<not> used (N i) l" using 3 i(2) by (simp add: used_def)
      then have "adr f (D i) l = 0" by (rule d(4) [OF i(1) l])
      then show ?thesis using 3 i(2) ind sd(1) fb by (simp add: adr_indirect f' z get32_put32_other get32_fresh)
    qed (use ind i(2) len sd(1,3) fb in \<open>simp_all add: adr_direct adr_indirect d' f' z get32_put32_same del: of_nat_Suc\<close>)
  qed
  have other: "adr f' (D j) l = adr f (D j) l" if "j \<in> I" "j \<noteq> i" for j l
    using low_address [OF s that(1), of MAXFILE] sd(3) by (intro adr_cong) (simp add: f')
  have "slots_ok I f' (D(i := d')) (N(i := Suc (N i))) (Suc (Suc fb))"
    using own other i fb len sd(3) by (intro slots_grow [OF s i(1), where x = "Suc fb" and y = fb]) (auto simp: d')
  moreover have "bytes_ok I f' (D(i := d')) (N(i := Suc (N i))) F"
  proof (rule bytes_grow [OF b i(1)])
    fix j l assume j: "j \<in> I" "l < N j"
    then have l: "l < MAXFILE" using d(2) [OF j(1)] by simp
    show "adr f' ((D(i := d')) j) l = adr f (D j) l" using own [of l] other [OF j(1), of l] j l by auto
    show "f' ! adr f (D j) l = f ! adr f (D j) l" using low_address [OF s j(1), of l] l sd(3) by (simp add: f')
  next
    show "f' ! adr f' d' (N i) = zeroes" using own [of "N i"] i(2) sd(5) [of "Suc fb"] fb by (simp add: f')
  qed
  moreover have "shape f' (Suc (Suc fb))" using sh fb by (auto simp: shape_def f' nth_list_update)
  ultimately show ?thesis using own i by (simp add: files_ok_def)
qed

lemma alloc_indirect:
  assumes ok: "files_ok I f D N F fb" and i: "i \<in> I" "NDIRECT < N i" "N i < MAXFILE" and fb: "fb < 1000"
    and y: "y = adr f (D i) MAXFILE" and f': "f' = f[y := put32 (4 * (N i - NDIRECT)) (of_nat fb) (f ! y)]"
  shows "files_ok I f' D (N(i := Suc (N i))) F (Suc fb) \<and> adr f' (D i) (N i) = fb"
proof -
  have sh: "shape f fb" and s: "slots_ok I f D N fb" and b: "bytes_ok I f D N F" using ok by (simp_all add: files_ok_def)
  note sd = shapeD [OF sh] and d = slots_okD [OF s]
  have yb: "59 \<le> y" "y < fb" using d(3) [OF i(1), of MAXFILE] i(2) by (auto simp: y used_def)
  have ind: "adr f' (D i) MAXFILE = y" by (simp add: y adr_direct)
  have own: "adr f' (D i) l = (if l = N i then fb else adr f (D i) l)" if l: "l \<le> MAXFILE" for l
  proof -
    consider "l < NDIRECT" | "NDIRECT \<le> l" "l < MAXFILE" | "l = MAXFILE" using l by linarith
    then show ?thesis
    proof cases
      case 2
      have "4 * (l - NDIRECT) + 4 \<le> 4 * (N i - NDIRECT) \<or> 4 * (N i - NDIRECT) + 4 \<le> 4 * (l - NDIRECT)" if "l \<noteq> N i"
        using 2 i that by linarith
      then show ?thesis
        using 2 i(2,3) ind yb fb sd(1,2) by (cases "l = N i") (simp_all add: adr_indirect f' get32_put32_other get32_put32_same flip: y)
    qed (use i ind y in \<open>simp_all add: adr_direct\<close>)
  qed
  have other: "adr f' (D j) l = adr f (D j) l" if "j \<in> I" "j \<noteq> i" for j l
    using other_indirect [OF s i(1) that i(2) sd(3)] by (intro adr_cong) (simp add: f' y)
  have "slots_ok I f' (D(i := D i)) (N(i := Suc (N i))) (Suc fb)"
    using own other i fb sd(3) d(1) [OF i(1)] by (intro slots_grow [OF s i(1), where x = fb and y = 0]) auto
  moreover have "bytes_ok I f' (D(i := D i)) (N(i := Suc (N i))) F"
  proof (rule bytes_grow [OF b i(1)])
    fix j l assume j: "j \<in> I" "l < N j"
    then have l: "l < MAXFILE" using d(2) [OF j(1)] by simp
    show "adr f' ((D(i := D i)) j) l = adr f (D j) l" using own [of l] other [OF j(1), of l] j l by (cases "j = i") auto
    show "f' ! adr f (D j) l = f ! adr f (D j) l" using not_data_block [OF s i(1) j(1) i(2) j(2)] by (simp add: f' y)
  next
    show "f' ! adr f' (D i) (N i) = zeroes" using own [of "N i"] i(3) sd(5) [OF fb] yb by (simp add: f')
  qed
  moreover have "shape f' (Suc fb)" using sh fb yb by (auto simp: shape_def f' nth_list_update)
  ultimately show ?thesis using own i by (simp add: files_ok_def)
qed

text \<open>Writing the next bytes of a file into a block it has.\<close>

lemma slots_cong:
  "slots_ok I f D N fb \<Longrightarrow> (\<And>j l. j \<in> I \<Longrightarrow> l \<le> MAXFILE \<Longrightarrow> adr f' (D j) l = adr f (D j) l) \<Longrightarrow> slots_ok I f' D N fb"
  by (simp add: slots_ok_def)

lemma byte_at_append: "byte_at (xs @ ys) p = (if p < length xs then byte_at xs p else byte_at ys (p - length xs))"
  by (auto simp: byte_at_def nth_append)

lemma write_data:
  assumes ok: "files_ok I f D N F fb" and i: "i \<in> I" "k < N i" and off: "length (F i) = 512 * k + n" "n + length c \<le> 512"
    and x: "x = adr f (D i) k" and f': "f' = f[x := splice n c (f ! x)]"
  shows "files_ok I f' D N (F(i := F i @ c)) fb"
proof -
  have sh: "shape f fb" and s: "slots_ok I f D N fb" and b: "bytes_ok I f D N F" using ok by (simp_all add: files_ok_def)
  note sd = shapeD [OF sh] and d = slots_okD [OF s]
  have k: "k < MAXFILE" "used (N i) k" using i(2) d(2) [OF i(1)] by (simp_all add: used_def)
  have xb: "59 \<le> x" "x < fb" "x < 1000" using d(3) [OF i(1) _ k(2)] k(1) sd(4) by (simp_all add: x)
  have same: "adr f' (D j) l = adr f (D j) l" if j: "j \<in> I" for j l
  proof (rule adr_cong)
    have "adr f (D j) MAXFILE \<noteq> x"
      using not_data_block [OF s j i(1) _ i(2)] d(4) [OF j, of MAXFILE] xb(1) by (cases "NDIRECT < N j") (auto simp: x used_def)
    then show "f' ! adr f (D j) MAXFILE = f ! adr f (D j) MAXFILE" by (simp add: f')
  qed
  have old: "length (F j) \<le> 512 * N j" "\<And>k q. k < N j \<Longrightarrow> q < 512 \<Longrightarrow> f ! adr f (D j) k ! q = byte_at (F j) (512 * k + q)"
    if "j \<in> I" for j using b that by (auto simp: bytes_ok_def)
  have "slots_ok I f' D N fb" by (rule slots_cong [OF s same])
  moreover have "bytes_ok I f' D N (F(i := F i @ c))"
    unfolding bytes_ok_def
  proof (intro ballI conjI allI impI)
    fix j assume j: "j \<in> I"
    show "length ((F(i := F i @ c)) j) \<le> 512 * N j" using old(1) [OF j] off i(2) by auto
    fix l q :: nat assume l: "l < N j" and q: "q < 512"
    show "f' ! adr f' (D j) l ! q = byte_at ((F(i := F i @ c)) j) (512 * l + q)"
    proof (cases "j = i \<and> l = k")
      case True
      have "f' ! adr f' (D j) l ! q = splice n c (f ! x) ! q" unfolding same [OF j] using True xb sd(1) by (simp add: f' x)
      also have "\<dots> = (if n \<le> q \<and> q < n + length c then c ! (q - n) else byte_at (F i) (512 * k + q))"
        using nth_splice [of n c "f ! x" q] off(2) sd(2) [OF xb(3)] q old(2) [OF i q] by (simp add: x)
      also have "\<dots> = byte_at (F i @ c) (512 * k + q)"
        unfolding byte_at_append using off by (auto simp: byte_at_def)
      finally show ?thesis using True by simp
    next
      case False
      have u: "used (N j) l" "l < MAXFILE" using l d(2) [OF j] by (simp_all add: used_def)
      then have "adr f (D j) l \<noteq> x" using d(5) [OF j i(1) _ _ u(1) k(2)] k(1) False by (auto simp: x)
      then have "f' ! adr f' (D j) l ! q = byte_at (F j) (512 * l + q)" unfolding same [OF j] using old(2) [OF j l q] by (simp add: f')
      moreover have "byte_at (F i @ c) (512 * l + q) = byte_at (F i) (512 * l + q)" if "l \<noteq> k"
        unfolding byte_at_append using that off q by (cases "l < k") (auto simp: byte_at_def)
      ultimately show ?thesis using False by auto
    qed
  qed
  moreover have "shape f' fb" using sh xb off by (auto simp: shape_def f' nth_list_update)
  ultimately show ?thesis by (simp add: files_ok_def)
qed

subsection \<open>Appending\<close>

lemma block_nonzero: "0 < y \<Longrightarrow> y < 1000 \<Longrightarrow> (of_nat y :: uint) \<noteq> 0"
proof
  assume y: "0 < y" "y < 1000" and "(of_nat y :: uint) = 0"
  then have "unat (of_nat y :: uint) = 0" by simp
  then show False using y by simp
qed

lemma iappend_block_ok:
  assumes ok: "files_ok I (image s) D N F (unat (freeblock s))" and i: "i \<in> I" "k \<le> N i" "k < MAXFILE"
    and room: "unat (freeblock s) + (cost (max (N i) (Suc k)) - cost (N i)) \<le> 1000"
  shows "\<exists>s' d'. iappend_block (of_nat k) (D i) s = Ok (of_nat (adr (image s') d' k), d') s' \<and>
    files_ok I (image s') (D(i := d')) (N(i := max (N i) (Suc k))) F (unat (freeblock s')) \<and> mk_step s s' \<and>
    unat (freeblock s') = unat (freeblock s) + (cost (max (N i) (Suc k)) - cost (N i)) \<and> d' = (D i)\<lparr>d_addrs := d_addrs d'\<rparr>"
proof -
  let ?f = "image s" and ?fb = "unat (freeblock s)"
  have sh: "shape ?f ?fb" and s: "slots_ok I ?f D N ?fb" using ok by (simp_all add: files_ok_def)
  note sd = shapeD [OF sh] and d = slots_okD [OF s i(1)]
  have K: "unat (of_nat k :: uint) = k" using i(3) by simp
  have nz: "adr ?f (D i) l \<noteq> 0 \<longleftrightarrow> used (N i) l" if "l \<le> MAXFILE" for l using d(3,4) [OF that] by force
  consider (there) "k < N i" | (direct) "k = N i" "k < NDIRECT" | (first) "k = N i" "k = NDIRECT" | (indirect) "k = N i" "NDIRECT < k"
    using i(2) by linarith
  then show ?thesis
  proof cases
    case there
    then have u: "adr ?f (D i) k \<noteq> 0" "NDIRECT \<le> k \<Longrightarrow> adr ?f (D i) MAXFILE \<noteq> 0" using nz i(3) by (auto simp: used_def)
    have "iappend_block (of_nat k) (D i) s = Ok (of_nat (adr ?f (D i) k), D i) s"
    proof (cases "k < NDIRECT")
      case True
      then show ?thesis using u(1) by (simp add: iappend_block_def K adr_direct unat_eq_0)
    next
      case False
      define y where "y = adr ?f (D i) MAXFILE"
      have y: "d_addrs (D i) ! NDIRECT = of_nat y" "y < 1000" "y \<noteq> 0"
        using u(2) False d(3) [of MAXFILE] there sd(4) by (auto simp: y_def adr_direct used_def)
      have a: "adr ?f (D i) k = unat (get32 (?f ! y) (4 * (k - NDIRECT)))"
        using False i(3) y(3) by (simp add: adr_indirect flip: y_def)
      then have "get32 (?f ! y) (4 * (k - NDIRECT)) \<noteq> 0" using u(1) by (auto simp: unat_eq_0)
      then show ?thesis using a False y block_nonzero [of y] sd(1) by (simp add: iappend_block_def K rsect_small)
    qed
    moreover have "max (N i) (Suc k) = N i" using there by simp
    ultimately show ?thesis using ok by (intro exI [of _ s] exI [of _ "D i"]) simp
  next
    case direct
    define d' where "d' = (D i)\<lparr>d_addrs := (d_addrs (D i))[k := of_nat ?fb]\<rparr>"
    have c: "cost (max (N i) (Suc k)) - cost (N i) = 1" using direct by (simp add: cost_def)
    have next': "unat (freeblock s + 1) = Suc ?fb" using room c by (simp add: unat_add_no_wrap)
    have "adr ?f (D i) k = 0" using nz [of k] direct i(3) by (simp add: used_def)
    then have "d_addrs (D i) ! k = 0" using direct(2) by (simp add: adr_direct unat_eq_0)
    then have "iappend_block (of_nat k) (D i) s = Ok (of_nat ?fb, d') (s\<lparr>freeblock := freeblock s + 1\<rparr>)"
      using direct(2) d(1) by (simp add: iappend_block_def K d'_def)
    moreover have "files_ok I ?f (D(i := d')) (N(i := Suc (N i))) F (Suc ?fb) \<and> adr ?f d' (N i) = ?fb"
      using direct room c by (intro alloc_direct [OF ok i(1)]) (simp_all add: d'_def)
    ultimately show ?thesis
      using direct c next' by (intro exI [of _ "s\<lparr>freeblock := freeblock s + 1\<rparr>"] exI [of _ d']) (simp add: mk_step_def max_def d'_def)
  next
    case first
    define d' where "d' = (D i)\<lparr>d_addrs := (d_addrs (D i))[NDIRECT := of_nat ?fb]\<rparr>"
    define f' where "f' = ?f[?fb := put32 0 (of_nat (Suc ?fb)) (?f ! ?fb)]"
    let ?s = "s\<lparr>image := f', freeblock := 2 + freeblock s\<rparr>"
    have c: "cost (max (N i) (Suc k)) - cost (N i) = 2" using first by (simp add: cost_def)
    have fb: "Suc ?fb < 1000" using room c by simp
    have next': "unat (freeblock s + 1) = Suc ?fb" "unat (2 + freeblock s) = Suc (Suc ?fb)" using fb by (simp_all add: unat_add_no_wrap)
    have z: "?f ! ?fb = zeroes" using sd(5) fb by simp
    have "adr ?f (D i) MAXFILE = 0" using nz [of MAXFILE] first by (simp add: used_def)
    then have "d_addrs (D i) ! NDIRECT = 0" by (simp add: adr_direct unat_eq_0)
    moreover have "of_nat (Suc ?fb) = freeblock s + 1" by (simp add: add.commute)
    ultimately have "iappend_block (of_nat k) (D i) s = Ok (of_nat (Suc ?fb), d') ?s"
      using first d(1) z sd(1) fb rsect_small [of ?fb "s\<lparr>freeblock := freeblock s + 1\<rparr>"] wsect_small [of ?fb "s\<lparr>freeblock := 2 + freeblock s\<rparr>"]
      by (simp add: iappend_block_def K d'_def f'_def get32_fresh get32_put32_same del: of_nat_Suc)
    moreover have "files_ok I f' (D(i := d')) (N(i := Suc (N i))) F (Suc (Suc ?fb)) \<and> adr f' d' (N i) = Suc ?fb"
      using first fb by (intro alloc_first_indirect [OF ok i(1)]) (simp_all add: d'_def f'_def)
    moreover have "mk_step s ?s" using sd(3) by (auto simp: mk_step_def f'_def)
    ultimately show ?thesis
      using first c next' by (intro exI [of _ ?s] exI [of _ d']) (simp add: max_def d'_def del: of_nat_Suc)
  next
    case indirect
    define y where "y = adr ?f (D i) MAXFILE"
    define f' where "f' = ?f[y := put32 (4 * (N i - NDIRECT)) (of_nat ?fb) (?f ! y)]"
    let ?s = "s\<lparr>image := f', freeblock := freeblock s + 1\<rparr>"
    have c: "cost (max (N i) (Suc k)) - cost (N i) = 1" using indirect by (simp add: cost_def)
    have next': "unat (freeblock s + 1) = Suc ?fb" using room c by (simp add: unat_add_no_wrap)
    have yb: "59 \<le> y" "y < 1000" using d(3) [of MAXFILE] indirect sd(4) by (simp_all add: y_def used_def)
    have y: "d_addrs (D i) ! NDIRECT = of_nat y" "of_nat y \<noteq> (0 :: uint)"
      using yb block_nonzero [of y] by (simp_all add: y_def adr_direct)
    have "adr ?f (D i) k = 0" using nz [of k] indirect i(3) by (simp add: used_def)
    then have "get32 (?f ! y) (4 * (k - NDIRECT)) = 0" using indirect i(3) yb by (simp add: adr_indirect unat_eq_0 flip: y_def)
    then have "iappend_block (of_nat k) (D i) s = Ok (of_nat ?fb, D i) ?s"
      using indirect i(3) y yb sd(1,2) rsect_small [of y s] wsect_small [of y "s\<lparr>freeblock := freeblock s + 1\<rparr>"]
      by (simp add: iappend_block_def K f'_def get32_put32_same)
    moreover have "files_ok I f' D (N(i := Suc (N i))) F (Suc ?fb) \<and> adr f' (D i) (N i) = ?fb"
      using indirect i(3) room c by (intro alloc_indirect [OF ok i(1) _ _ _ y_def f'_def]) simp_all
    moreover have "mk_step s ?s" using yb by (auto simp: mk_step_def f'_def)
    ultimately show ?thesis
      using indirect c next' by (intro exI [of _ ?s] exI [of _ "D i"]) (simp add: max_def)
  qed
qed

declare iappend_loop.simps [simp del]

text \<open>The blocks of \<open>n\<close> bytes.\<close>

definition blocks :: "nat \<Rightarrow> nat" where
  "blocks n = (n + 511) div 512"

lemma blocks_bounds: "n \<le> 512 * blocks n" "512 * blocks n < n + 512"
  unfolding blocks_def by linarith+

lemma blocks_step:
  assumes "0 < c" "n mod 512 + c \<le> 512"
  shows "blocks (n + c) = max (blocks n) (Suc (n div 512))"
proof -
  define q r where "q = n div 512" and "r = n mod 512"
  have n: "n = 512 * q + r" "r < 512" by (simp_all add: q_def r_def)
  have "(n + c + 511) div 512 = q + (r + c + 511) div 512" unfolding n(1) by simp
  moreover have "(r + c + 511) div 512 = 1" using assms r_def by (intro div_nat_eqI) auto
  moreover have "(n + 511) div 512 = q + (r + 511) div 512" unfolding n(1) by simp
  moreover have "(r + 511) div 512 \<le> 1" using n(2) by linarith
  ultimately show ?thesis by (simp add: blocks_def q_def)
qed

lemma blocks_le: "n \<le> 71680 \<Longrightarrow> blocks n \<le> MAXFILE" "m \<le> n \<Longrightarrow> blocks m \<le> blocks n"
  unfolding blocks_def by (linarith, simp add: div_le_mono)

lemma cost_mono: "m \<le> n \<Longrightarrow> cost m \<le> cost n"
  by (simp add: cost_def)

lemma files_ok_address:
  assumes "files_ok I f D' N F fb" "i \<in> I" "k < N i"
  shows "length f = 1000 \<and> 59 \<le> adr f (D' i) k \<and> adr f (D' i) k < 1000"
proof -
  have sh: "shape f fb" and s: "slots_ok I f D' N fb" using assms(1) by (simp_all add: files_ok_def)
  have "k \<le> MAXFILE" "used (N i) k" using slots_okD(2) [OF s assms(2)] assms(3) by (simp_all add: used_def)
  from slots_okD(3) [OF s assms(2) this] shapeD [OF sh] show ?thesis by simp
qed

text \<open>One round of the loop, with the block found or allocated.\<close>

lemma iappend_loop_step:
  assumes "p \<noteq> []" "n < 71680" "k < MAXFILE" "r < 512" "n = 512 * k + r" "c = min (length p) (512 - r)"
    "iappend_block (of_nat k) d s = Ok (of_nat x, d') s1" "x < 1000" "length (image s1) = 1000"
  shows "iappend_loop (of_nat n) p d s =
    iappend_loop (of_nat (n + c)) (drop c p) d' (s1\<lparr>image := (image s1)[x := splice r (take c p) (image s1 ! x)]\<rparr>)"
proof -
  have u: "unat (of_nat n :: uint) = n" using assms(2) by simp
  have "unat ((of_nat n :: uint) div of_nat BSIZE) = n div 512" by (simp add: unat_div_distrib u)
  also have "n div 512 = k" using assms(4,5) by simp
  finally have k: "(of_nat n :: uint) div of_nat BSIZE = of_nat k" using assms(3) by (simp add: word_unat_eq_iff)
  have "(of_nat n :: uint) - of_nat k * of_nat BSIZE = of_nat r" using assms(5) by simp
  then have r: "unat ((of_nat n :: uint) - of_nat k * of_nat BSIZE) = r" using assms(4) by simp
  have "n1_of (of_nat n) (length p) = min (length p) (512 - n mod 512)" by (simp add: n1_of_off u)
  also have "n mod 512 = r" using assms(4,5) by simp
  finally have n1: "n1_of (of_nat n) (length p) = c" by (simp add: assms(6))
  have k': "unat (of_nat k :: uint) < MAXFILE" using assms(3) by simp
  show ?thesis
    unfolding iappend_loop.simps [of _ p] Let_def k n1
    using assms(1,7-9) k' r by (simp add: rsect_small wsect_small)
qed

lemma iappend_loop_ok:
  assumes "files_ok I (image s) D (\<lambda>j. blocks (length (F j))) F (unat (freeblock s))" "i \<in> I"
    "length (F i) + length p \<le> 71680"
    "unat (freeblock s) + (cost (blocks (length (F i) + length p)) - cost (blocks (length (F i)))) \<le> 1000"
  shows "\<exists>s' d'. iappend_loop (of_nat (length (F i))) p (D i) s = Ok (of_nat (length (F i) + length p), d') s' \<and>
    files_ok I (image s') (D(i := d')) (\<lambda>j. blocks (length ((F(i := F i @ p)) j))) (F(i := F i @ p)) (unat (freeblock s')) \<and> mk_step s s' \<and>
    unat (freeblock s') = unat (freeblock s) + (cost (blocks (length (F i) + length p)) - cost (blocks (length (F i)))) \<and>
    d' = (D i)\<lparr>d_addrs := d_addrs d'\<rparr>"
  using assms
proof (induction "length p" arbitrary: p s D F rule: less_induct)
  case (less p s D F)
  note ok = less.prems(1) and i = less.prems(2)
  show ?case
  proof (cases "p = []")
    case True
    then show ?thesis using ok by (intro exI [of _ s] exI [of _ "D i"]) (simp add: fun_upd_idem iappend_loop.simps)
  next
    case False
    let ?n = "length (F i)"
    define k r c where "k = ?n div 512" and "r = ?n mod 512" and "c = min (length p) (512 - r)"
    have r: "r < 512" "?n = 512 * k + r" by (simp_all add: k_def r_def)
    have c: "0 < c" "c \<le> length p" "r + c \<le> 512" using False r(1) by (auto simp: c_def)
    have K: "k < MAXFILE" using less.prems(3) False r c by simp
    let ?N = "\<lambda>j. blocks (length (F j))"
    have kN: "k \<le> ?N i" using r blocks_bounds(1) [of ?n] by linarith
    have bc: "blocks (?n + c) = max (?N i) (Suc k)" using blocks_step [OF c(1), of ?n] c(3) by (simp add: k_def r_def)
    have mono: "cost (?N i) \<le> cost (blocks (?n + c))" "cost (blocks (?n + c)) \<le> cost (blocks (?n + length p))"
      using c by (auto intro!: cost_mono blocks_le)
    have room: "unat (freeblock s) + (cost (max (?N i) (Suc k)) - cost (?N i)) \<le> 1000"
      using less.prems(4) mono unfolding bc by linarith
    obtain s1 d1 where b: "iappend_block (of_nat k) (D i) s = Ok (of_nat (adr (image s1) d1 k), d1) s1"
      "files_ok I (image s1) (D(i := d1)) (?N(i := max (?N i) (Suc k))) F (unat (freeblock s1))" "mk_step s s1"
      "unat (freeblock s1) = unat (freeblock s) + (cost (max (?N i) (Suc k)) - cost (?N i))" "d1 = (D i)\<lparr>d_addrs := d_addrs d1\<rparr>"
      using iappend_block_ok [OF ok i kN K room] by blast
    define x where "x = adr (image s1) d1 k"
    define F2 where "F2 = F(i := F i @ take c p)"
    define s2 where "s2 = s1\<lparr>image := (image s1)[x := splice r (take c p) (image s1 ! x)]\<rparr>"
    have sh: "length (image s1) = 1000" and x: "59 \<le> x" "x < 1000"
      using files_ok_address [OF b(2) i, of k] K by (auto simp: x_def)
    have F2: "length (F2 i) = ?n + c" "(\<lambda>j. blocks (length (F2 j))) = ?N(i := max (?N i) (Suc k))"
      using c(2) bc by (auto simp: F2_def)
    have w: "files_ok I (image s2) (D(i := d1)) (\<lambda>j. blocks (length (F2 j))) F2 (unat (freeblock s2))"
      unfolding F2(2) using write_data [OF b(2) i, of k r "take c p" x "image s2"] r c by (simp add: s2_def x_def F2_def)
    have fb: "unat (freeblock s2) = unat (freeblock s) + (cost (blocks (?n + c)) - cost (?N i))" using b(4) bc by (simp add: s2_def)
    have len: "length (F2 i) + length (drop c p) = ?n + length p" using F2(1) c(2) by simp
    obtain s' d' where l: "iappend_loop (of_nat (?n + c)) (drop c p) d1 s2 = Ok (of_nat (?n + length p), d') s'"
      "files_ok I (image s') (D(i := d')) (\<lambda>j. blocks (length ((F(i := F i @ p)) j))) (F(i := F i @ p)) (unat (freeblock s'))"
      "mk_step s2 s'" "unat (freeblock s') = unat (freeblock s2) + (cost (blocks (?n + length p)) - cost (blocks (?n + c)))"
      "d' = d1\<lparr>d_addrs := d_addrs d'\<rparr>"
      using less.hyps [of "drop c p" s2 "D(i := d1)" F2] w i less.prems(3,4) len fb mono c(1) False F2(1)
      by (auto simp: F2_def append_assoc [symmetric])
    have "mk_step s1 s2" using x by (auto simp: mk_step_def s2_def)
    then have "mk_step s s'" using b(3) l(3) mk_step_trans by blast
    moreover have "iappend_loop (of_nat ?n) p (D i) s = Ok (of_nat (?n + length p), d') s'"
      using iappend_loop_step [OF False _ K r c_def b(1) [folded x_def] x(2) sh] l(1) less.prems(3) c(1,2) by (simp add: s2_def)
    moreover have "d' = (D i)\<lparr>d_addrs := d_addrs d'\<rparr>" using b(5) l(5) by (metis dinode.surjective dinode.update_convs(6))
    ultimately show ?thesis using l(2,4) fb mono by (intro exI [of _ s'] exI [of _ d']) simp
  qed
qed

subsection \<open>The whole image\<close>

definition disk_inode :: "byte list list \<Rightarrow> nat \<Rightarrow> dinode" where
  "disk_inode f i = dinode_at (f ! (32 + i div 8)) (64 * (i mod 8))"

text \<open>
  The abstract file system: the inodes given out so far have type \<open>T i\<close> and content \<open>F i\<close>, and the
  blocks given out are those the contents need.
\<close>

definition mk_inv :: "(nat \<Rightarrow> ushort) \<Rightarrow> (nat \<Rightarrow> byte list) \<Rightarrow> mk \<Rightarrow> bool" where
  "mk_inv T F s \<longleftrightarrow> mk_sb s = mk_super \<and> 1 \<le> unat (freeinode s) \<and> unat (freeinode s) \<le> 200 \<and>
    files_ok {1..<unat (freeinode s)} (image s) (disk_inode (image s)) (\<lambda>i. blocks (length (F i))) F (unat (freeblock s)) \<and>
    (\<forall>i \<in> {1..<unat (freeinode s)}. d_size (disk_inode (image s) i) = of_nat (length (F i)) \<and>
      d_type (disk_inode (image s) i) = T i \<and> d_nlink (disk_inode (image s) i) = 1) \<and>
    unat (freeblock s) = 59 + (\<Sum>i \<in> {1..<unat (freeinode s)}. cost (blocks (length (F i))))"

lemma mk_invD:
  assumes "mk_inv T F s"
  shows "mk_sb s = mk_super" "1 \<le> unat (freeinode s)" "unat (freeinode s) \<le> 200"
    "files_ok {1..<unat (freeinode s)} (image s) (disk_inode (image s)) (\<lambda>i. blocks (length (F i))) F (unat (freeblock s))"
    "i \<in> {1..<unat (freeinode s)} \<Longrightarrow> d_size (disk_inode (image s) i) = of_nat (length (F i)) \<and>
      d_type (disk_inode (image s) i) = T i \<and> d_nlink (disk_inode (image s) i) = 1"
    "unat (freeblock s) = 59 + (\<Sum>i \<in> {1..<unat (freeinode s)}. cost (blocks (length (F i))))"
  using assms unfolding mk_inv_def by blast+

lemma inode_place:
  assumes "i < 200"
  shows "IBLOCK (of_nat i) mk_super = of_nat (32 + i div 8)" "dinode_off (of_nat i) = 64 * (i mod 8)"
proof -
  have u: "unat (of_nat i :: uint) = i" using assms by simp
  have "unat ((of_nat i :: uint) div 8) = i div 8" by (simp add: unat_div_distrib u)
  then have "(of_nat i :: uint) div 8 = of_nat (i div 8)" using assms by (simp add: word_unat_eq_iff)
  then show "IBLOCK (of_nat i) mk_super = of_nat (32 + i div 8)" by (simp add: IBLOCK_def)
  show "dinode_off (of_nat i) = 64 * (i mod 8)" by (simp add: dinode_off_def unat_mod_distrib u)
qed

text \<open>Metadata blocks do not matter to the files.\<close>

lemma files_ok_inodes:
  assumes "files_ok I f D N F fb" "\<And>i. i \<in> I \<Longrightarrow> d_addrs (D' i) = d_addrs (D i)"
  shows "files_ok I f D' N F fb"
proof -
  have "adr f (D' i) k = adr f (D i) k" if "i \<in> I" for i k using assms(2) [OF that] by (simp add: adr_def)
  then show ?thesis using assms by (simp add: files_ok_def slots_ok_def bytes_ok_def)
qed

lemma files_ok_meta:
  assumes ok: "files_ok I f D N F fb" and len: "length f' = 1000" "\<And>b. b < 1000 \<Longrightarrow> length (f' ! b) = 512"
    and same: "\<And>b. b = 0 \<or> 59 \<le> b \<Longrightarrow> b < 1000 \<Longrightarrow> f' ! b = f ! b"
  shows "files_ok I f' D N F fb"
proof -
  have sh: "shape f fb" and s: "slots_ok I f D N fb" and b: "bytes_ok I f D N F" using ok by (simp_all add: files_ok_def)
  note sd = shapeD [OF sh] and d = slots_okD [OF s]
  have at: "adr f (D i) k = 0 \<or> 59 \<le> adr f (D i) k \<and> adr f (D i) k < 1000" if "i \<in> I" "k \<le> MAXFILE" for i k
    using d(3,4) [OF that] sd(4) by (cases "used (N i) k") auto
  have keep: "f' ! adr f (D i) k = f ! adr f (D i) k" if "i \<in> I" "k \<le> MAXFILE" for i k
    using at [OF that] by (intro same) auto
  have adr: "adr f' (D i) k = adr f (D i) k" if "i \<in> I" for i k by (rule adr_cong [OF keep [OF that]]) simp
  have "slots_ok I f' D N fb" by (rule slots_cong [OF s adr])
  moreover have "bytes_ok I f' D N F"
  proof -
    have "f' ! adr f (D i) k = f ! adr f (D i) k" if "i \<in> I" "k < N i" for i k
      using keep [OF that(1), of k] d(2) [OF that(1)] that(2) by simp
    then show ?thesis using b by (simp add: bytes_ok_def adr)
  qed
  moreover have "shape f' fb" using sh len same by (simp add: shape_def)
  ultimately show ?thesis by (simp add: files_ok_def)
qed

lemma winode_ok:
  assumes sh: "shape (image s) fb" and sb: "mk_sb s = mk_super" and i: "i < 200" and d: "length (d_addrs d) = 13"
  obtains f' where "winode (of_nat i) d s = Ok () (s\<lparr>image := f'\<rparr>)" "length f' = 1000" "\<And>b. b < 1000 \<Longrightarrow> length (f' ! b) = 512"
    "\<And>b. b < 32 \<or> 58 \<le> b \<Longrightarrow> f' ! b = image s ! b" "\<And>j. j < 200 \<Longrightarrow> disk_inode f' j = (if j = i then d else disk_inode (image s) j)"
proof -
  note sd = shapeD [OF sh]
  let ?b = "32 + i div 8" and ?k = "64 * (i mod 8)"
  define f' where "f' = (image s)[?b := put_dinode ?k d (image s ! ?b)]"
  have b: "?b < 58" using i by simp
  have m: "i mod 8 \<le> 7" by simp
  then have k: "?k + 64 \<le> 512" by linarith
  show thesis
  proof (rule that [of f'])
    show "winode (of_nat i) d s = Ok () (s\<lparr>image := f'\<rparr>)"
      using b sd(1) inode_place [OF i] by (simp add: winode_def sb rsect_small wsect_small f'_def del: of_nat_add)
    show "length f' = 1000" using sd(1) by (simp add: f'_def)
    show "length (f' ! c) = 512" if "c < 1000" for c using that sd(1,2) b by (simp add: f'_def nth_list_update)
    show "f' ! c = image s ! c" if "c < 32 \<or> 58 \<le> c" for c using that b by (auto simp: f'_def)
    show "disk_inode f' j = (if j = i then d else disk_inode (image s) j)" if j: "j < 200" for j
    proof (cases "j div 8 = i div 8")
      case True
      then have "j \<noteq> i \<Longrightarrow> j mod 8 \<noteq> i mod 8" by (metis div_mult_mod_eq)
      then have "j \<noteq> i \<Longrightarrow> ?k + 64 \<le> 64 * (j mod 8) \<or> 64 * (j mod 8) + 64 \<le> ?k" by linarith
      then show ?thesis
        using True b k sd(1,2) d by (auto simp: disk_inode_def f'_def dinode_at_put dinode_at_put_other)
    next
      case False
      then show ?thesis by (auto simp: disk_inode_def f'_def)
    qed
  qed
qed

lemma rinode_ok:
  assumes sh: "shape (image s) fb" and sb: "mk_sb s = mk_super" and i: "i < 200"
  shows "rinode (of_nat i) s = Ok (disk_inode (image s) i) s"
proof -
  have "32 + i div 8 < 1000" using i by simp
  then show ?thesis
    using shapeD(1) [OF sh] inode_place [OF i] by (simp add: rinode_def sb rsect_small disk_inode_def del: of_nat_add)
qed

lemma sum_grow:
  assumes "finite I" "i \<in> I" "g i \<le> (n :: nat)"
  shows "(\<Sum>j \<in> I. (g(i := n)) j) = (\<Sum>j \<in> I. g j) + (n - g i)"
  using assms by (simp add: sum.remove [of I i])

lemma total_grow:
  assumes "finite I" "i \<in> I"
  shows "(\<Sum>j \<in> I. cost (blocks (length ((F(i := F i @ p)) j)))) =
    (\<Sum>j \<in> I. cost (blocks (length (F j)))) + (cost (blocks (length (F i) + length p)) - cost (blocks (length (F i))))"
proof -
  let ?g = "\<lambda>j. cost (blocks (length (F j)))"
  have "(\<Sum>j \<in> I. cost (blocks (length ((F(i := F i @ p)) j)))) = (\<Sum>j \<in> I. (?g(i := cost (blocks (length (F i) + length p)))) j)"
    by (rule sum.cong) auto
  also have "\<dots> = (\<Sum>j \<in> I. ?g j) + (cost (blocks (length (F i) + length p)) - ?g i)"
    by (rule sum_grow [OF assms]) (intro cost_mono blocks_le, simp)
  finally show ?thesis .
qed

lemma iappend_ok:
  assumes inv: "mk_inv T F s" and i: "1 \<le> i" "i < unat (freeinode s)" and len: "length (F i) + length p \<le> 71680"
    and room: "unat (freeblock s) + (cost (blocks (length (F i) + length p)) - cost (blocks (length (F i)))) \<le> 1000"
  shows "\<exists>s'. iappend (of_nat i) p s = Ok () s' \<and> mk_inv T (F(i := F i @ p)) s' \<and> freeinode s' = freeinode s \<and>
    image s' ! 1 = image s ! 1"
proof -
  let ?I = "{1..<unat (freeinode s)}" and ?D = "disk_inode (image s)" and ?F = "F(i := F i @ p)"
  note ok = mk_invD(4) [OF inv] and sb = mk_invD(1) [OF inv] and n = mk_invD(3) [OF inv]
  have iI: "i \<in> ?I" using i by simp
  have sh: "shape (image s) (unat (freeblock s))" using ok by (simp add: files_ok_def)
  have D: "d_size (?D j) = of_nat (length (F j))" "d_type (?D j) = T j" "d_nlink (?D j) = 1" if "j \<in> ?I" for j
    using mk_invD(5) [OF inv that] by simp_all
  obtain s1 d' where l: "iappend_loop (of_nat (length (F i))) p (?D i) s = Ok (of_nat (length (F i) + length p), d') s1"
    "files_ok ?I (image s1) (?D(i := d')) (\<lambda>j. blocks (length (?F j))) ?F (unat (freeblock s1))" "mk_step s s1"
    "unat (freeblock s1) = unat (freeblock s) + (cost (blocks (length (F i) + length p)) - cost (blocks (length (F i))))"
    "d' = (?D i)\<lparr>d_addrs := d_addrs d'\<rparr>"
    using iappend_loop_ok [OF ok iI len room] by blast
  let ?d = "d'\<lparr>d_size := of_nat (length (F i) + length p)\<rparr>"
  have sh1: "shape (image s1) (unat (freeblock s1))" and s1: "slots_ok ?I (image s1) (?D(i := d')) (\<lambda>j. blocks (length (?F j))) (unat (freeblock s1))"
    using l(2) by (simp_all add: files_ok_def)
  have sb1: "mk_sb s1 = mk_super" "freeinode s1 = freeinode s" "\<And>b. b < 59 \<Longrightarrow> image s1 ! b = image s ! b"
    using l(3) sb by (simp_all add: mk_step_def)
  have d13: "length (d_addrs ?d) = 13" using slots_okD(1) [OF s1 iI] by simp
  have i200: "i < 200" using i n by simp
  obtain f2 where w: "winode (of_nat i) ?d s1 = Ok () (s1\<lparr>image := f2\<rparr>)" "length f2 = 1000" "\<And>b. b < 1000 \<Longrightarrow> length (f2 ! b) = 512"
    "\<And>b. b < 32 \<or> 58 \<le> b \<Longrightarrow> f2 ! b = image s1 ! b" "\<And>j. j < 200 \<Longrightarrow> disk_inode f2 j = (if j = i then ?d else disk_inode (image s1) j)"
    using winode_ok [OF sh1 sb1(1) i200 d13] by blast
  have D2: "disk_inode f2 j = (if j = i then ?d else ?D j)" if "j \<in> ?I" for j
    using w(5) [of j] that n sb1(3) [of "32 + j div 8"] by (auto simp: disk_inode_def)
  have ok2: "files_ok ?I f2 (?D(i := d')) (\<lambda>j. blocks (length (?F j))) ?F (unat (freeblock s1))"
    by (rule files_ok_meta [OF l(2) w(2,3)]) (auto intro: w(4))
  have "files_ok ?I f2 (disk_inode f2) (\<lambda>j. blocks (length (?F j))) ?F (unat (freeblock s1))"
    by (rule files_ok_inodes [OF ok2]) (auto simp: D2)
  moreover have "d_type d' = T i" "d_nlink d' = 1" 
    using arg_cong [OF l(5), of d_type] arg_cong [OF l(5), of d_nlink] D(2,3) [OF iI] by simp_all
  moreover note total = total_grow [OF _ iI, of F p]
  ultimately have "mk_inv T ?F (s1\<lparr>image := f2\<rparr>)"
    unfolding mk_inv_def using mk_invD(2,3,6) [OF inv] sb1(1,2) D l(4) by (simp add: D2)
  moreover have "iappend (of_nat i) p s = Ok () (s1\<lparr>image := f2\<rparr>)"
    using rinode_ok [OF sh sb i200] l(1) w(1) D(1) [OF iI] by (simp add: iappend_def)
  ultimately show ?thesis using sb1(2,3) w(4) by (intro exI [of _ "s1\<lparr>image := f2\<rparr>"]) auto
qed

subsection \<open>The operations of the program\<close>

lemma files_ok_new:
  assumes ok: "files_ok I f D N F fb" and n: "n \<notin> I" and d: "d_addrs d = replicate 13 0"
  shows "files_ok (insert n I) f (D(n := d)) (N(n := 0)) (F(n := [])) fb"
proof -
  have z: "adr f d k = 0" if "k \<le> MAXFILE" for k using d that by (simp add: adr_def)
  have u: "\<not> used 0 k" for k by (simp add: used_def)
  have s: "slots_ok I f D N fb" and b: "bytes_ok I f D N F" using ok by (simp_all add: files_ok_def)
  note so = slots_okD [OF s]
  have "slots_ok (insert n I) f (D(n := d)) (N(n := 0)) fb"
    unfolding slots_ok_def
  proof (intro conjI ballI allI impI)
    fix i j k l assume a: "i \<in> insert n I" "j \<in> insert n I" "k \<le> MAXFILE" "l \<le> MAXFILE" "used ((N(n := 0)) i) k" "used ((N(n := 0)) j) l"
      "adr f ((D(n := d)) i) k = adr f ((D(n := d)) j) l"
    then have "i \<noteq> n" "j \<noteq> n" using u by (auto split: if_splits)
    then show "i = j" "k = l" using so(5) [of i j k l] a by auto
  qed (use so z u n d in auto)
  moreover have "bytes_ok (insert n I) f (D(n := d)) (N(n := 0)) (F(n := []))" using b n by (auto simp: bytes_ok_def)
  ultimately show ?thesis using ok by (simp add: files_ok_def)
qed

lemma blocks_0 [simp]: "blocks 0 = 0" "cost 0 = 0"
  by (simp_all add: blocks_def cost_def)

lemma ialloc_ok:
  assumes inv: "mk_inv T F s" and n: "n = unat (freeinode s)" "n < 200"
  shows "\<exists>s'. ialloc_mk ty s = Ok (of_nat n) s' \<and> mk_inv (T(n := ty)) (F(n := [])) s' \<and> unat (freeinode s') = Suc n \<and>
    freeblock s' = freeblock s \<and> image s' ! 1 = image s ! 1"
proof -
  let ?I = "{1..<n}"
  define d where "d = \<lparr>d_type = ty, d_major = 0, d_minor = 0, d_nlink = 1, d_size = 0, d_addrs = replicate 13 0\<rparr>"
  define s1 where "s1 = s\<lparr>freeinode := freeinode s + 1\<rparr>"
  note iv = mk_invD [OF inv, folded n(1)]
  have sh: "shape (image s1) (unat (freeblock s))" using iv(4) by (simp add: files_ok_def s1_def)
  have sb: "mk_sb s1 = mk_super" using iv(1) by (simp add: s1_def)
  obtain f' where w: "winode (of_nat n) d s1 = Ok () (s1\<lparr>image := f'\<rparr>)" "length f' = 1000" "\<And>b. b < 1000 \<Longrightarrow> length (f' ! b) = 512"
    "\<And>b. b < 32 \<or> 58 \<le> b \<Longrightarrow> f' ! b = image s ! b" "\<And>j. j < 200 \<Longrightarrow> disk_inode f' j = (if j = n then d else disk_inode (image s) j)"
    by (rule winode_ok [OF sh sb n(2), of d]) (auto simp: d_def s1_def)
  have I: "insert n ?I = {1..<Suc n}" using iv(2) by auto
  have D: "disk_inode f' j = ((disk_inode (image s))(n := d)) j" if "j \<in> {1..<Suc n}" for j using w(5) [of j] that n(2) by auto
  have "files_ok ?I f' (disk_inode (image s)) (\<lambda>i. blocks (length (F i))) F (unat (freeblock s))"
    by (rule files_ok_meta [OF iv(4) w(2,3)]) (auto intro: w(4))
  then have "files_ok {1..<Suc n} f' ((disk_inode (image s))(n := d)) ((\<lambda>i. blocks (length (F i)))(n := 0)) (F(n := [])) (unat (freeblock s))"
    using files_ok_new [of ?I f' _ _ F _ n d] I by (simp add: d_def)
  then have "files_ok {1..<Suc n} f' (disk_inode f') ((\<lambda>i. blocks (length (F i)))(n := 0)) (F(n := [])) (unat (freeblock s))"
    by (rule files_ok_inodes) (simp add: D del: fun_upd_apply)
  moreover have "(\<lambda>i. blocks (length (F i)))(n := 0) = (\<lambda>i. blocks (length ((F(n := [])) i)))" by auto
  moreover have fi: "unat (freeinode s + 1) = Suc n" using n by (simp add: unat_add_no_wrap)
  moreover have "(\<Sum>i \<in> {1..<Suc n}. cost (blocks (length ((F(n := [])) i)))) = (\<Sum>i \<in> ?I. cost (blocks (length (F i))))"
    unfolding I [symmetric] by (simp add: sum.insert)
  moreover have "d_size (disk_inode f' i) = of_nat (length ((F(n := [])) i)) \<and> d_type (disk_inode f' i) = (T(n := ty)) i \<and>
      d_nlink (disk_inode f' i) = 1" if i: "i \<in> {1..<Suc n}" for i
    using D [OF i] iv(5) [of i] i by (cases "i = n") (simp_all add: d_def)
  ultimately have "mk_inv (T(n := ty)) (F(n := [])) (s1\<lparr>image := f'\<rparr>)"
    unfolding mk_inv_def using n(2) sb iv(6) by (simp add: s1_def del: fun_upd_apply sum.op_ivl_Suc)
  moreover have "ialloc_mk ty s = Ok (of_nat n) (s1\<lparr>image := f'\<rparr>)" 
    using w(1) n(1) by (simp add: ialloc_mk_def s1_def d_def Let_def)
  ultimately show ?thesis using w(4) fi by (intro exI [of _ "s1\<lparr>image := f'\<rparr>"]) (simp add: s1_def)
qed

text \<open>What the reads of an argument bring, and its directory entry.\<close>

definition arg_bytes :: "mk_arg \<Rightarrow> byte list" where
  "arg_bytes a = (case snd a of None \<Rightarrow> [] | Some reads \<Rightarrow> concat (takeWhile (\<lambda>b. b \<noteq> []) reads))"

definition arg_entry :: "nat \<Rightarrow> mk_arg \<Rightarrow> byte list" where
  "arg_entry n a = de_bytes (of_nat n) (strncpy_bytes DIRSIZ (if first (fst a) = 0x5f then tl (fst a) else fst a))"

lemma length_arg_entry [simp]: "length (arg_entry n a) = 16"
  by (simp add: arg_entry_def de_bytes_def)

lemma freeblock_grow:
  assumes "mk_inv T F s" "1 \<le> i" "i < unat (freeinode s)" "mk_inv T' (F(i := F i @ p)) s'" "freeinode s' = freeinode s"
  shows "unat (freeblock s') = unat (freeblock s) + (cost (blocks (length (F i) + length p)) - cost (blocks (length (F i))))"
  using mk_invD(6) [OF assms(4)] mk_invD(6) [OF assms(1)] total_grow [of "{1..<unat (freeinode s)}" i F p] assms(2,3,5)
  by (simp del: fun_upd_apply)

lemma copy_in_ok:
  assumes "mk_inv T F s" "1 \<le> i" "i < unat (freeinode s)" "bs = concat (takeWhile (\<lambda>b. b \<noteq> []) reads)"
    "length (F i) + length bs \<le> 71680"
    "unat (freeblock s) + (cost (blocks (length (F i) + length bs)) - cost (blocks (length (F i)))) \<le> 1000"
  shows "\<exists>s'. copy_in (of_nat i) reads s = Ok () s' \<and> mk_inv T (F(i := F i @ bs)) s' \<and> freeinode s' = freeinode s \<and>
    image s' ! 1 = image s ! 1"
  using assms
proof (induction reads arbitrary: s F bs)
  case Nil
  then show ?case by (simp add: fun_upd_idem)
next
  case (Cons b reads)
  show ?case
  proof (cases "b = []")
    case True
    then show ?thesis using Cons.prems by (simp add: fun_upd_idem)
  next
    case False
    define cs where "cs = concat (takeWhile (\<lambda>b. b \<noteq> []) reads)"
    have bs: "bs = b @ cs" using Cons.prems(4) False by (simp add: cs_def)
    have mono: "cost (blocks (length (F i))) \<le> cost (blocks (length (F i) + length b))"
      "cost (blocks (length (F i) + length b)) \<le> cost (blocks (length (F i) + length bs))"
      by (intro cost_mono blocks_le, simp add: bs)+
    have len1: "length (F i) + length b \<le> 71680" using Cons.prems(5) bs by simp
    have room1: "unat (freeblock s) + (cost (blocks (length (F i) + length b)) - cost (blocks (length (F i)))) \<le> 1000"
      using Cons.prems(6) mono by linarith
    obtain s1 where s1: "iappend (of_nat i) b s = Ok () s1" "mk_inv T (F(i := F i @ b)) s1" "freeinode s1 = freeinode s"
      "image s1 ! 1 = image s ! 1"
      using iappend_ok [OF Cons.prems(1-3) len1 room1] by blast
    have fb: "unat (freeblock s1) = unat (freeblock s) + (cost (blocks (length (F i) + length b)) - cost (blocks (length (F i))))"
      by (rule freeblock_grow [OF Cons.prems(1-3) s1(2,3)])
    have l2: "length ((F(i := F i @ b)) i) + length cs = length (F i) + length bs" by (simp add: bs)
    have room2: "unat (freeblock s1) + (cost (blocks (length ((F(i := F i @ b)) i) + length cs)) - cost (blocks (length ((F(i := F i @ b)) i)))) \<le> 1000"
      unfolding l2 using fb Cons.prems(6) mono by simp
    have i2: "i < unat (freeinode s1)" and len2: "length ((F(i := F i @ b)) i) + length cs \<le> 71680"
      using Cons.prems(3,5) s1(3) by (simp_all add: l2 del: fun_upd_apply)
    have F2: "(F(i := F i @ b))(i := (F(i := F i @ b)) i @ cs) = F(i := F i @ bs)" by (simp add: bs)
    obtain s' where "copy_in (of_nat i) reads s1 = Ok () s'" "mk_inv T (F(i := F i @ bs)) s'" "freeinode s' = freeinode s1"
      "image s' ! 1 = image s1 ! 1"
      using Cons.IH [OF s1(2) Cons.prems(2) i2 cs_def len2 room2] unfolding F2 by blast
    then show ?thesis using s1 False by (intro exI [of _ s']) (simp del: fun_upd_apply)
  qed
qed

text \<open>The abstract file system after adding the arguments from inode \<open>n\<close> on.\<close>

fun add_abs :: "nat \<Rightarrow> mk_arg list \<Rightarrow> (nat \<Rightarrow> byte list) \<Rightarrow> nat \<Rightarrow> byte list" where
  "add_abs n [] F = F"
| "add_abs n (a # as) F = add_abs (Suc n) as (F(n := arg_bytes a, 1 := F 1 @ arg_entry n a))"

fun types_abs :: "nat \<Rightarrow> mk_arg list \<Rightarrow> (nat \<Rightarrow> ushort) \<Rightarrow> nat \<Rightarrow> ushort" where
  "types_abs n [] T = T"
| "types_abs n (a # as) T = types_abs (Suc n) as (T(n := T_FILE))"

definition arg_ok :: "mk_arg \<Rightarrow> bool" where
  "arg_ok a \<longleftrightarrow> 0x2f \<notin> set (fst a) \<and> snd a \<noteq> None \<and> length (arg_bytes a) \<le> 71680"

lemma add_files_ok:
  assumes "mk_inv T F s" "n = unat (freeinode s)" "2 \<le> n" "n + length args \<le> 200" "list_all arg_ok args"
    "length (F 1) + 16 * length args \<le> 71680"
    "unat (freeblock s) + (cost (blocks (length (F 1) + 16 * length args)) - cost (blocks (length (F 1)))) +
      (\<Sum>a \<leftarrow> args. cost (blocks (length (arg_bytes a)))) \<le> 1000"
  shows "\<exists>s'. add_files 1 args s = Ok () s' \<and> mk_inv (types_abs n args T) (add_abs n args F) s' \<and>
    unat (freeinode s') = n + length args \<and> image s' ! 1 = image s ! 1"
  using assms
proof (induction args arbitrary: s T F n)
  case Nil
  then show ?case by simp
next
  case (Cons a args)
  obtain name reads where a: "a = (name, Some reads)" "0x2f \<notin> set name" and size: "length (arg_bytes a) \<le> 71680"
    using Cons.prems(5) by (cases a) (auto simp: arg_ok_def)
  note inv = Cons.prems(1) and n = Cons.prems(2)
  let ?c = "\<lambda>k. cost (blocks k)" and ?R = "\<Sum>a \<leftarrow> args. cost (blocks (length (arg_bytes a)))"
  have mono: "?c (length (F 1)) \<le> ?c (length (F 1) + 16)" "?c (length (F 1) + 16) \<le> ?c (length (F 1) + 16 * length (a # args))"
    by (intro cost_mono blocks_le, simp)+
  have room: "unat (freeblock s) + (?c (length (F 1) + 16 * length (a # args)) - ?c (length (F 1))) + ?c (length (arg_bytes a)) + ?R \<le> 1000"
    using Cons.prems(7) by simp
  obtain s1 where s1: "ialloc_mk T_FILE s = Ok (of_nat n) s1" "mk_inv (T(n := T_FILE)) (F(n := [])) s1" "unat (freeinode s1) = Suc n"
    "freeblock s1 = freeblock s" "image s1 ! 1 = image s ! 1"
    using ialloc_ok [OF inv n] Cons.prems(4) by auto
  have roomA: "unat (freeblock s) + (?c (length (F 1) + 16) - ?c (length (F 1))) \<le> 1000" using room mono by linarith
  have one: "1 < unat (freeinode s1)" "F(n := [], 1 := F 1 @ arg_entry n a) = (F(n := []))(1 := (F(n := [])) 1 @ arg_entry n a)"
    using s1(3) Cons.prems(3) by auto
  define F1 where "F1 = F(n := [], 1 := F 1 @ arg_entry n a)"
  have e: "xshort (ucast (of_nat n :: uint)) = of_nat n" using Cons.prems(4) by (simp add: unsigned_of_nat take_bit_nat_eq_self)
  obtain s2 where s2: "iappend 1 (arg_entry n a) s1 = Ok () s2" "mk_inv (T(n := T_FILE)) F1 s2" "freeinode s2 = freeinode s1"
    "image s2 ! 1 = image s1 ! 1"
    using iappend_ok [OF s1(2) _ one(1), of "arg_entry n a"] Cons.prems(3,6) roomA s1(3,4) by (auto simp: F1_def one)
  have fb2: "unat (freeblock s2) = unat (freeblock s) + (?c (length (F 1) + 16) - ?c (length (F 1)))"
    using freeblock_grow [OF s1(2) _ one(1) s2(2) [unfolded F1_def one(2)] s2(3)] Cons.prems(3) s1(4) by simp
  have roomB: "unat (freeblock s2) + ?c (length (arg_bytes a)) \<le> 1000" using room mono fb2 by linarith
  define F2 where "F2 = F1(n := arg_bytes a)"
  have new: "1 \<le> n" "n < unat (freeinode s2)" "F1 n = []" "F1(n := F1 n @ arg_bytes a) = F2"
    using Cons.prems(3) s1(3) s2(3) by (auto simp: F1_def F2_def)
  obtain s3 where s3: "copy_in (of_nat n) reads s2 = Ok () s3" "mk_inv (T(n := T_FILE)) F2 s3" "freeinode s3 = freeinode s2"
    "image s3 ! 1 = image s2 ! 1"
    using copy_in_ok [OF s2(2) new(1,2), of "arg_bytes a" reads] size roomB new(3,4) a(1) by (auto simp: arg_bytes_def)
  have fb3: "unat (freeblock s3) = unat (freeblock s2) + ?c (length (arg_bytes a))"
    using freeblock_grow [OF s2(2) new(1,2) s3(2) [folded new(4)] s3(3)] new(3) by simp
  have F2: "F2 = F(n := arg_bytes a, 1 := F 1 @ arg_entry n a)" "length (F2 1) = length (F 1) + 16"
    using Cons.prems(3) by (auto simp: F2_def F1_def)
  have fi3: "Suc n = unat (freeinode s3)" using s1(3) s2(3) s3(3) by simp
  have l3: "length (F2 1) + 16 * length args = length (F 1) + 16 * length (a # args)" using F2(2) by simp
  have room3: "unat (freeblock s3) + (?c (length (F2 1) + 16 * length args) - ?c (length (F2 1))) + ?R \<le> 1000"
    unfolding l3 unfolding F2(2) using room fb2 fb3 mono by linarith
  obtain s' where s': "add_files 1 args s3 = Ok () s'" "mk_inv (types_abs (Suc n) args (T(n := T_FILE))) (add_abs (Suc n) args F2) s'"
    "unat (freeinode s') = Suc n + length args" "image s' ! 1 = image s3 ! 1"
    using Cons.IH [OF s3(2) fi3 _ _ _ _ room3] Cons.prems(3-6) l3 by (auto simp del: One_nat_def fun_upd_apply)
  have "strchr name 0x2f = None" using a(2) by (induction name) auto
  then have "add_files 1 (a # args) s = Ok () s'"
    using s1(1) s2(1) s3(1) s'(1) e a(1) by (cases "first name = 0x5f") (simp_all add: arg_entry_def)
  then show ?case using s' s1(5) s2(4) s3(4) F2(1) by (intro exI [of _ s']) simp
qed

subsection \<open>The bitmap and the super block\<close>

lemma in_use_bit: "in_use d b \<longleftrightarrow> bit (d ! (b div 8)) (b mod 8)"
proof -
  have m: "bit (bit_mask b) n \<longleftrightarrow> n = b mod 8" for n by (auto simp: bit_mask_def bit_simps)
  have "d ! (b div 8) AND bit_mask b = 0 \<longleftrightarrow> \<not> bit (d ! (b div 8)) (b mod 8)"
  proof
    assume "d ! (b div 8) AND bit_mask b = 0"
    then have "\<not> bit (d ! (b div 8) AND bit_mask b) (b mod 8)" by simp
    then show "\<not> bit (d ! (b div 8)) (b mod 8)" by (simp add: bit_and_iff m)
  next
    assume "\<not> bit (d ! (b div 8)) (b mod 8)"
    then show "d ! (b div 8) AND bit_mask b = 0" by (intro bit_word_eqI) (auto simp: bit_and_iff m)
  qed
  then show ?thesis by (simp add: in_use_def)
qed

lemma in_use_mark: "bi div 8 < length d \<Longrightarrow> in_use (mark_used bi d) b \<longleftrightarrow> b = bi \<or> in_use d b"
proof -
  assume l: "bi div 8 < length d"
  have m: "bit (bit_mask bi) n \<longleftrightarrow> n = bi mod 8" for n by (auto simp: bit_mask_def bit_simps)
  show ?thesis
  proof (cases "b div 8 = bi div 8")
    case True
    then have "b mod 8 = bi mod 8 \<longleftrightarrow> b = bi" by (metis div_mult_mod_eq)
    then show ?thesis using True l by (simp add: in_use_bit mark_used_def bit_or_iff m disj_commute)
  next
    case False
    then have "b \<noteq> bi" by auto
    then show ?thesis using False by (simp add: in_use_bit mark_used_def)
  qed
qed

lemma length_mark_used [simp]: "length (mark_used bi d) = length d"
  by (simp add: mark_used_def)

lemma bitmap_bits: "n \<le> 4096 \<Longrightarrow> b < 4096 \<Longrightarrow> length (fold mark_used [0..<n] zeroes) = 512 \<and> (in_use (fold mark_used [0..<n] zeroes) b \<longleftrightarrow> b < n)"
proof (induction n)
  case 0
  then show ?case by (simp add: in_use_bit)
next
  case (Suc n)
  then show ?case by (auto simp: in_use_mark)
qed

lemma sb_roundtrip: "length (sb_bytes x) = 512 \<and> sb_of (sb_bytes x) = x"
  by (simp add: sb_bytes_def sb_of_def layout_simps)

subsection \<open>The result\<close>

definition root_entries :: "mk_arg list \<Rightarrow> byte list" where
  "root_entries args = de_bytes 1 (ascii ''.'' @ replicate 13 0) @ de_bytes 1 (ascii ''..'' @ replicate 12 0) @
    concat (map (\<lambda>j. arg_entry (2 + j) (args ! j)) [0..<length args])"

definition mk_files :: "mk_arg list \<Rightarrow> nat \<Rightarrow> byte list" where
  "mk_files args i = (if i = 1 then root_entries args else arg_bytes (args ! (i - 2)))"

lemma add_abs_root:
  "2 \<le> n \<Longrightarrow> add_abs n args F 1 = F 1 @ concat (map (\<lambda>j. arg_entry (n + j) (args ! j)) [0..<length args])"
proof (induction args arbitrary: n F)
  case (Cons a args)
  have e: "map (\<lambda>j. arg_entry (n + j) ((a # args) ! j)) [0..<length (a # args)] =
      arg_entry n a # map (\<lambda>j. arg_entry (Suc n + j) (args ! j)) [0..<length args]"
    by (simp add: upt_conv_Cons map_Suc_upt [symmetric] del: upt_Suc)
  show ?case unfolding e add_abs.simps
    using Cons.IH [of "Suc n" "F(n := arg_bytes a, 1 := F 1 @ arg_entry n a)"] Cons.prems by (simp add: fun_upd_same del: fun_upd_apply)
qed simp

lemma add_abs_file:
  "i \<noteq> 1 \<Longrightarrow> add_abs n args F i = (if n \<le> i \<and> i < n + length args then arg_bytes (args ! (i - n)) else F i)"
proof (induction args arbitrary: n F)
  case (Cons a args)
  then show ?case by (auto simp: nth_Cons' Suc_diff_le not_less_eq_eq)
qed auto

lemma types_abs_type: "types_abs n args T i = (if n \<le> i \<and> i < n + length args then T_FILE else T i)"
  by (induction args arbitrary: n T) auto

lemma length_root_entries: "length (root_entries args) = 32 + 16 * length args"
  by (simp add: root_entries_def de_bytes_def ascii_def length_concat comp_def sum_list_triv)

lemma zero_image: "n \<le> 1000 \<Longrightarrow> image s = [] \<Longrightarrow> rfor [0..<n] (\<lambda>i. wsect (of_nat i) zeroes) s = Ok () (s\<lparr>image := replicate n zeroes\<rparr>)"
proof -
  assume n: "n \<le> 1000" and s: "image s = []"
  have "\<exists>s'. rfor [0..<n] (\<lambda>i. wsect (of_nat i) zeroes) s = Ok () s' \<and> s' = s\<lparr>image := replicate n zeroes\<rparr>"
  proof (rule rfor_upt)
    show "s = s\<lparr>image := replicate 0 zeroes\<rparr>" using s by simp
    fix k t assume "k < n" "t = s\<lparr>image := replicate k zeroes\<rparr>"
    then show "\<exists>s'. wsect (of_nat k) zeroes t = Ok () s' \<and> s' = s\<lparr>image := replicate (Suc k) zeroes\<rparr>"
      using n by (simp add: wsect_def sect_pos_small replicate_append_same)
  qed
  then show ?thesis by simp
qed

text \<open>Up to the arguments.\<close>

lemma mkfs_start:
  obtains s1 s2 s where
    "rfor [0..<unat FSSIZE] (\<lambda>i. wsect (of_nat i) zeroes) \<lparr>image = [], mk_sb = mk_super, freeinode = 1, freeblock = of_nat nmeta\<rparr> = Ok () s1"
    "wsect 1 (sb_bytes (mk_sb s1)) s1 = Ok () s2" "ialloc_mk T_DIR s2 = Ok 1 s"
    "mk_inv (\<lambda>_. T_DIR) (\<lambda>_. []) s" "unat (freeinode s) = 2" "sb_of (image s ! 1) = mk_super" "unat (freeblock s) = 59"
proof -
  let ?s = "\<lparr>image = [], mk_sb = mk_super, freeinode = 1, freeblock = of_nat nmeta\<rparr>"
  define f where "f = (replicate 1000 zeroes)[1 := sb_bytes mk_super]"
  have w: "wsect 1 (sb_bytes mk_super) (?s\<lparr>image := replicate 1000 zeroes\<rparr>) = Ok () (?s\<lparr>image := f\<rparr>)"
    using wsect_small [of 1 "?s\<lparr>image := replicate 1000 zeroes\<rparr>"] by (simp add: f_def)
  have "shape f 59" using sb_roundtrip by (auto simp: shape_def f_def nth_list_update)
  then have "files_ok {} f D N F 59" for D N F by (simp add: files_ok_def slots_ok_def bytes_ok_def)
  then have inv: "mk_inv (\<lambda>_. T_DIR) (\<lambda>_. []) (?s\<lparr>image := f\<rparr>)" by (simp add: mk_inv_def)
  obtain s where s: "ialloc_mk T_DIR (?s\<lparr>image := f\<rparr>) = Ok (of_nat 1) s" "mk_inv ((\<lambda>_. T_DIR)(1 := T_DIR)) ((\<lambda>_. [])(1 := [])) s"
    "unat (freeinode s) = Suc 1" "freeblock s = 59" "image s ! 1 = f ! 1"
    using ialloc_ok [OF inv, of 1 T_DIR] by auto
  show thesis
  proof (rule that [of "?s\<lparr>image := replicate 1000 zeroes\<rparr>" "?s\<lparr>image := f\<rparr>" s])
    show "mk_inv (\<lambda>_. T_DIR) (\<lambda>_. []) s" using s(2) by (simp add: fun_upd_idem)
  qed (use s w zero_image [of 1000 ?s] sb_roundtrip in \<open>simp_all add: f_def\<close>)
qed

lemma mkfs_dots:
  assumes "mk_inv (\<lambda>_. T_DIR) (\<lambda>_. []) s" "unat (freeinode s) = 2" "unat (freeblock s) = 59"
  obtains s1 s2 where "iappend 1 (de_bytes 1 (ascii ''.'' @ replicate 13 0)) s = Ok () s1"
    "iappend 1 (de_bytes 1 (ascii ''..'' @ replicate 12 0)) s1 = Ok () s2"
    "mk_inv (\<lambda>_. T_DIR) ((\<lambda>_. [])(1 := root_entries [])) s2" "freeinode s2 = freeinode s" "image s2 ! 1 = image s ! 1" "unat (freeblock s2) = 60"
proof -
  let ?d = "de_bytes 1 (ascii ''.'' @ replicate 13 0)" and ?e = "de_bytes 1 (ascii ''..'' @ replicate 12 0)"
  have l: "length ?d = 16" "length ?e = 16" by (simp_all add: de_bytes_def ascii_def)
  have c: "cost (blocks 16) = 1" "cost (blocks 32) = 1" by (simp_all add: cost_def blocks_def)
  obtain s1 where s1: "iappend 1 ?d s = Ok () s1" "mk_inv (\<lambda>_. T_DIR) ((\<lambda>_. [])(1 := ?d)) s1" "freeinode s1 = freeinode s" "image s1 ! 1 = image s ! 1"
    using iappend_ok [OF assms(1), of 1 ?d] assms(2,3) l c by auto
  have fb1: "unat (freeblock s1) = 60"
    using freeblock_grow [OF assms(1), of 1 _ ?d s1] s1(2,3) assms(2,3) l c by simp
  have e: "((\<lambda>_. [])(1 := ?d))(1 := ((\<lambda>_. [])(1 := ?d)) 1 @ ?e) = (\<lambda>_. [])(1 := root_entries [])" by (simp add: root_entries_def)
  obtain s2 where s2: "iappend 1 ?e s1 = Ok () s2" "mk_inv (\<lambda>_. T_DIR) ((\<lambda>_. [])(1 := root_entries [])) s2" "freeinode s2 = freeinode s1" "image s2 ! 1 = image s1 ! 1"
    using iappend_ok [OF s1(2), of 1 ?e] assms(2) s1(3) l c fb1 unfolding e by (auto simp: fun_upd_same)
  have "unat (freeblock s2) = 60"
    using freeblock_grow [OF s1(2), of 1 _ ?e s2] s2(2,3) s1(3) assms(2) fb1 l c unfolding e by simp
  with s1 s2 that show thesis by auto
qed

lemma sint_block: "n \<le> 1000 \<Longrightarrow> sint (of_nat n :: uint) = int n"
  by (rule sint_of_nat_small) simp

text \<open>After the arguments: the size of the root directory and the bitmap.\<close>

lemma mkfs_finish:
  assumes inv: "mk_inv T F s" and n: "n = unat (freeinode s)" "2 \<le> n" "unat (freeblock s) \<le> 1000"
  obtains d s1 s2 where "rinode 1 s = Ok d s" "d_size d = of_nat (length (F 1))"
    "winode 1 (d\<lparr>d_size := z\<rparr>) s = Ok () s1" "balloc_mk (sint (freeblock s1)) s1 = Ok () s2"
    "files_ok {1..<n} (image s2) (disk_inode (image s2)) (\<lambda>i. blocks (length (F i))) F (unat (freeblock s2))"
    "\<And>i. i \<in> {1..<n} \<Longrightarrow> d_type (disk_inode (image s2) i) = T i"
    "\<And>i. i \<in> {1..<n} \<Longrightarrow> d_size (disk_inode (image s2) i) = (if i = 1 then z else of_nat (length (F i)))"
    "image s2 ! 1 = image s ! 1" "\<And>b. b < 4096 \<Longrightarrow> in_use (image s2 ! 58) b \<longleftrightarrow> b < unat (freeblock s2)"
proof -
  note iv = mk_invD [OF inv, folded n(1)]
  have sh: "shape (image s) (unat (freeblock s))" using iv(4) by (simp add: files_ok_def)
  have one: "1 \<in> {1..<n}" "(1 :: nat) < 200" using n(2) by auto
  let ?d = "disk_inode (image s) 1"
  have d13: "length (d_addrs (?d\<lparr>d_size := z\<rparr>)) = 13" using slots_okD(1) [OF _ one(1)] iv(4) by (simp add: files_ok_def) blast
  obtain f1 where w: "winode 1 (?d\<lparr>d_size := z\<rparr>) s = Ok () (s\<lparr>image := f1\<rparr>)" "length f1 = 1000" "\<And>b. b < 1000 \<Longrightarrow> length (f1 ! b) = 512"
    "\<And>b. b < 32 \<or> 58 \<le> b \<Longrightarrow> f1 ! b = image s ! b" "\<And>j. j < 200 \<Longrightarrow> disk_inode f1 j = (if j = 1 then ?d\<lparr>d_size := z\<rparr> else disk_inode (image s) j)"
    using winode_ok [OF sh iv(1) one(2) d13] by (auto simp del: One_nat_def)
  define bm f2 where "bm = fold mark_used [0..<unat (freeblock s)] zeroes" and "f2 = f1[58 := bm]"
  have bm: "length bm = 512" "b < 4096 \<Longrightarrow> in_use bm b \<longleftrightarrow> b < unat (freeblock s)" for b
    using bitmap_bits [of "unat (freeblock s)" 0] bitmap_bits [of "unat (freeblock s)" b] n(3) by (auto simp: bm_def)
  have D2: "disk_inode f2 j = (if j = 1 then ?d\<lparr>d_size := z\<rparr> else disk_inode (image s) j)" if "j \<in> {1..<n}" for j
  proof -
    have "j < 200" using that iv(3) by simp
    then have "disk_inode f2 j = disk_inode f1 j" by (simp add: disk_inode_def f2_def)
    then show ?thesis using w(5) [OF \<open>j < 200\<close>] by simp
  qed
  have "files_ok {1..<n} f2 (disk_inode (image s)) (\<lambda>i. blocks (length (F i))) F (unat (freeblock s))"
    by (rule files_ok_meta [OF iv(4)]) (use w(2-4) bm(1) in \<open>auto simp: f2_def nth_list_update\<close>)
  then have ok: "files_ok {1..<n} f2 (disk_inode f2) (\<lambda>i. blocks (length (F i))) F (unat (freeblock s))"
    by (rule files_ok_inodes) (simp add: D2)
  have u: "int (unat (freeblock s)) < 4096" using n(3) by linarith
  show thesis
  proof (rule that [of ?d "s\<lparr>image := f1\<rparr>" "s\<lparr>image := f2\<rparr>"])
    show "rinode 1 s = Ok ?d s" using rinode_ok [OF sh iv(1) one(2)] by simp
    show "d_size ?d = of_nat (length (F 1))" using iv(5) [OF one(1)] by simp
    show "balloc_mk (sint (freeblock (s\<lparr>image := f1\<rparr>))) (s\<lparr>image := f1\<rparr>) = Ok () (s\<lparr>image := f2\<rparr>)"
      using sint_block [OF n(3)] u iv(1) w(2) wsect_small [of 58 "s\<lparr>image := f1\<rparr>"] by (simp add: balloc_mk_def bm_def f2_def)
    show "image (s\<lparr>image := f2\<rparr>) ! 1 = image s ! 1" using w(4) [of 1] by (simp add: f2_def)
  qed (use w(1,2) ok D2 iv(5) bm in \<open>auto simp: f2_def\<close>)
qed

lemma files_ok_content:
  "files_ok I f D (\<lambda>i. blocks (length (F i))) F fb \<Longrightarrow> (\<And>i. i \<in> I \<Longrightarrow> F i = F' i) \<Longrightarrow>
    files_ok I f D (\<lambda>i. blocks (length (F' i))) F' fb"
  by (simp add: files_ok_def slots_ok_def bytes_ok_def)

lemma word_div_512: "n < 4294967296 \<Longrightarrow> (of_nat n :: uint) div of_nat BSIZE = of_nat (n div BSIZE)"
proof -
  assume n: "n < 4294967296"
  have "unat ((of_nat n :: uint) div of_nat BSIZE) = n div 512" using n by (simp add: unat_div_distrib)
  then show ?thesis using n le_less_trans [OF div_le_dividend n, of 512] by (simp add: word_unat_eq_iff)
qed

lemma mkfs_main_ok:
  assumes ok: "list_all arg_ok args" and inodes: "length args \<le> 198"
    and room: "cost (blocks (length (root_entries args))) + (\<Sum>a \<leftarrow> args. cost (blocks (length (arg_bytes a)))) \<le> nblocks"
  shows "\<exists>s. mkfs_main ((name, Some r) # args) = Ok () s \<and> sb_of (image s ! 1) = mk_super \<and>
    files_ok {1..<2 + length args} (image s) (disk_inode (image s)) (\<lambda>i. blocks (length (mk_files args i))) (mk_files args) (unat (freeblock s)) \<and>
    (\<forall>i \<in> {1..<2 + length args}. d_type (disk_inode (image s) i) = (if i = 1 then T_DIR else T_FILE) \<and>
      d_size (disk_inode (image s) i) =
        (if i = 1 then of_nat ((length (root_entries args) div BSIZE + 1) * BSIZE) else of_nat (length (mk_files args i)))) \<and>
    (\<forall>b < 4096. in_use (image s ! 58) b \<longleftrightarrow> b < unat (freeblock s))"
proof -
  let ?n = "2 + length args" and ?c = "\<lambda>k. cost (blocks k)" and ?len = "length (root_entries args)"
  have len: "?len = 32 + 16 * length args" by (rule length_root_entries)
  obtain s1 s2 s3 where start: "rfor [0..<unat FSSIZE] (\<lambda>i. wsect (of_nat i) zeroes) \<lparr>image = [], mk_sb = mk_super, freeinode = 1, freeblock = of_nat nmeta\<rparr> = Ok () s1"
    "wsect 1 (sb_bytes (mk_sb s1)) s1 = Ok () s2" "ialloc_mk T_DIR s2 = Ok 1 s3"
    and inv3: "mk_inv (\<lambda>_. T_DIR) (\<lambda>_. []) s3" "unat (freeinode s3) = 2" "sb_of (image s3 ! 1) = mk_super" "unat (freeblock s3) = 59"
    by (rule mkfs_start)
  obtain s4 s5 where dots: "iappend 1 (de_bytes 1 (ascii ''.'' @ replicate 13 0)) s3 = Ok () s4"
    "iappend 1 (de_bytes 1 (ascii ''..'' @ replicate 12 0)) s4 = Ok () s5"
    and inv5: "mk_inv (\<lambda>_. T_DIR) ((\<lambda>_. [])(1 := root_entries [])) s5" "freeinode s5 = freeinode s3" "image s5 ! 1 = image s3 ! 1" "unat (freeblock s5) = 60"
    by (rule mkfs_dots [OF inv3(1,2,4)])
  let ?F = "add_abs 2 args ((\<lambda>_. [])(1 := root_entries []))" and ?T = "types_abs 2 args (\<lambda>_. T_DIR)"
  have fi5: "2 = unat (freeinode s5)" using inv5(2) inv3(2) by simp
  have c32: "?c 32 = 1" "1 \<le> ?c ?len" using cost_mono [OF blocks_le(2), of 32 ?len] len by (simp_all add: cost_def blocks_def)
  have l5: "length (((\<lambda>_. [])(1 := root_entries [])) 1) = 32" by (simp add: length_root_entries)
  have room5: "unat (freeblock s5) + (?c (32 + 16 * length args) - ?c 32) + (\<Sum>a \<leftarrow> args. ?c (length (arg_bytes a))) \<le> 1000"
    using room c32 inv5(4) len by simp
  obtain s6 where s6: "add_files 1 args s5 = Ok () s6" "mk_inv ?T ?F s6" "unat (freeinode s6) = ?n" "image s6 ! 1 = image s5 ! 1"
    using add_files_ok [OF inv5(1) fi5 _ _ ok] inodes room5 unfolding l5 by auto
  have F: "?F i = mk_files args i" if "i \<in> {1..<?n}" for i
    using that add_abs_root [of 2 args] add_abs_file [of i 2 args] by (cases "i = 1") (auto simp: mk_files_def root_entries_def)
  have fb6: "unat (freeblock s6) \<le> 1000" using mk_invD(4) [OF s6(2)] by (simp add: files_ok_def shape_def)
  define z where "z = (of_nat ((?len div BSIZE + 1) * BSIZE) :: uint)"
  obtain d s7 s8 where fin: "rinode 1 s6 = Ok d s6" "d_size d = of_nat (length (?F 1))" "winode 1 (d\<lparr>d_size := z\<rparr>) s6 = Ok () s7"
    "balloc_mk (sint (freeblock s7)) s7 = Ok () s8"
    and files: "files_ok {1..<?n} (image s8) (disk_inode (image s8)) (\<lambda>i. blocks (length (?F i))) ?F (unat (freeblock s8))"
    and ty: "\<And>i. i \<in> {1..<?n} \<Longrightarrow> d_type (disk_inode (image s8) i) = ?T i"
    and sz: "\<And>i. i \<in> {1..<?n} \<Longrightarrow> d_size (disk_inode (image s8) i) = (if i = 1 then z else of_nat (length (?F i)))"
    and last: "image s8 ! 1 = image s6 ! 1" "\<And>b. b < 4096 \<Longrightarrow> in_use (image s8 ! 58) b \<longleftrightarrow> b < unat (freeblock s8)"
    using mkfs_finish [OF s6(2) s6(3) [symmetric] _ fb6, of z] by auto
  have "files_ok {1..<?n} (image s8) (disk_inode (image s8)) (\<lambda>i. blocks (length (mk_files args i))) (mk_files args) (unat (freeblock s8))"
    using files_ok_content [OF files F] .
  moreover have "d_type (disk_inode (image s8) i) = (if i = 1 then T_DIR else T_FILE) \<and>
      d_size (disk_inode (image s8) i) = (if i = 1 then z else of_nat (length (mk_files args i)))" if "i \<in> {1..<?n}" for i
    using ty [OF that] sz [OF that] F [OF that] that by (auto simp: types_abs_type)
  moreover have "mkfs_main ((name, Some r) # args) = Ok () s8"
  proof -
    have "d_size d = of_nat ?len" using fin(2) F [of 1] by (simp add: mk_files_def)
    then have "(d_size d div of_nat BSIZE + 1) * of_nat BSIZE = z"
      using word_div_512 [of ?len] inodes len by (simp add: z_def algebra_simps)
    then show ?thesis using start dots s6(1) fin by (simp add: mkfs_main_def)
  qed
  ultimately show ?thesis using last inv3(3) inv5(3) s6(4) unfolding z_def by (intro exI [of _ s8]) simp
qed

text \<open>Reading the image: block \<open>k\<close> of inode \<open>i\<close>, and a file of which every byte is in its place on a block that is marked.\<close>

definition file_block :: "byte list list \<Rightarrow> nat \<Rightarrow> nat \<Rightarrow> nat" where
  "file_block f i k = adr f (disk_inode f i) k"

definition file_on :: "byte list list \<Rightarrow> nat \<Rightarrow> byte list \<Rightarrow> bool" where
  "file_on f i bs \<longleftrightarrow> (\<forall>p < length bs. file_block f i (p div 512) < 1000 \<and> in_use (f ! 58) (file_block f i (p div 512)) \<and>
     f ! file_block f i (p div 512) ! (p mod 512) = bs ! p)"

lemma files_ok_file_on:
  assumes ok: "files_ok I f (disk_inode f) (\<lambda>i. blocks (length (F i))) F fb" and i: "i \<in> I"
    and bm: "\<And>b. b < 4096 \<Longrightarrow> in_use (f ! 58) b \<longleftrightarrow> b < fb"
  shows "file_on f i (F i)"
  unfolding file_on_def file_block_def
proof (intro allI impI)
  fix p assume p: "p < length (F i)"
  let ?k = "p div 512" and ?N = "\<lambda>i. blocks (length (F i))"
  have k: "?k < ?N i" using p blocks_bounds(1) [of "length (F i)"] by linarith
  have so: "slots_ok I f (disk_inode f) ?N fb" using ok by (simp add: files_ok_def)
  have u: "?k \<le> MAXFILE" "used (?N i) ?k" using slots_okD(2) [OF so i] k by (simp_all add: used_def)
  have a: "adr f (disk_inode f i) ?k < fb" "adr f (disk_inode f i) ?k < 1000"
    using slots_okD(3) [OF so i u] files_ok_address [OF ok i k] by simp_all
  have "f ! adr f (disk_inode f i) ?k ! (p mod 512) = byte_at (F i) (512 * ?k + p mod 512)"
    using ok i k by (simp add: files_ok_def bytes_ok_def)
  also have "\<dots> = F i ! p" using p by (simp add: byte_at_def)
  finally show "adr f (disk_inode f i) ?k < 1000 \<and> in_use (f ! 58) (adr f (disk_inode f i) ?k) \<and>
      f ! adr f (disk_inode f i) ?k ! (p mod 512) = F i ! p"
    using a bm by simp
qed

lemma files_ok_disjoint:
  assumes ok: "files_ok I f (disk_inode f) (\<lambda>i. blocks (length (F i))) F fb" and i: "i \<in> I" "j \<in> I" "i \<noteq> j"
    and p: "p < length (F i)" "q < length (F j)"
  shows "file_block f i (p div 512) \<noteq> file_block f j (q div 512)"
proof -
  let ?N = "\<lambda>i. blocks (length (F i))"
  have so: "slots_ok I f (disk_inode f) ?N fb" using ok by (simp add: files_ok_def)
  have k: "p div 512 < ?N i" "q div 512 < ?N j" using p blocks_bounds(1) [of "length (F i)"] blocks_bounds(1) [of "length (F j)"] by linarith+
  then have u: "p div 512 \<le> MAXFILE" "used (?N i) (p div 512)" "q div 512 \<le> MAXFILE" "used (?N j) (q div 512)"
    using slots_okD(2) [OF so i(1)] slots_okD(2) [OF so i(2)] by (simp_all add: used_def)
  show ?thesis using slots_okD(5) [OF so i(1,2) u(1,3,2,4)] i(3) by (auto simp: file_block_def)
qed

text \<open>
  C21: \<open>mkfs\<close> builds the file system of its arguments.  If the names have no slash, the files
  can be read, none is larger than a file may be and there are inodes and blocks for all, it exits successfully.  The image
  then has a super block with the layout; inode 1 is a directory with the entries for itself, its parent
  and one per argument in order; inode \<open>2 + j\<close> is a file that holds exactly the bytes of argument \<open>j\<close>; no two files share
  a block, and the bitmap marks exactly the blocks that are taken.
\<close>

theorem mkfs_builds_image:
  assumes "list_all arg_ok args" and "length args \<le> 198"
    and "cost (blocks (length (root_entries args))) + (\<Sum>a \<leftarrow> args. cost (blocks (length (arg_bytes a)))) \<le> nblocks"
  shows "\<exists>s. mkfs_main ((name, Some r) # args) = Ok () s \<and> sb_of (image s ! 1) = mk_super \<and>
    d_type (disk_inode (image s) 1) = T_DIR \<and> file_on (image s) 1 (root_entries args) \<and>
    (\<forall>j < length args. d_type (disk_inode (image s) (2 + j)) = T_FILE \<and>
      d_size (disk_inode (image s) (2 + j)) = of_nat (length (arg_bytes (args ! j))) \<and> file_on (image s) (2 + j) (arg_bytes (args ! j))) \<and>
    (\<forall>i j p q. 1 \<le> i \<longrightarrow> i < j \<longrightarrow> j < 2 + length args \<longrightarrow> p < length (mk_files args i) \<longrightarrow> q < length (mk_files args j) \<longrightarrow>
      file_block (image s) i (p div 512) \<noteq> file_block (image s) j (q div 512)) \<and>
    (\<forall>b < 4096. in_use (image s ! 58) b \<longleftrightarrow> b < unat (freeblock s))"
proof -
  let ?I = "{1..<2 + length args}" and ?F = "mk_files args"
  obtain s where s: "mkfs_main ((name, Some r) # args) = Ok () s" "sb_of (image s ! 1) = mk_super"
    and ok: "files_ok ?I (image s) (disk_inode (image s)) (\<lambda>i. blocks (length (?F i))) ?F (unat (freeblock s))"
    and ty: "\<forall>i \<in> ?I. d_type (disk_inode (image s) i) = (if i = 1 then T_DIR else T_FILE) \<and> d_size (disk_inode (image s) i) =
      (if i = 1 then of_nat ((length (root_entries args) div BSIZE + 1) * BSIZE) else of_nat (length (?F i)))"
    and bm: "\<forall>b < 4096. in_use (image s ! 58) b \<longleftrightarrow> b < unat (freeblock s)"
    using mkfs_main_ok [OF assms] by blast
  have on: "file_on (image s) i (?F i)" if "i \<in> ?I" for i using files_ok_file_on [OF ok that] bm by blast
  have F: "?F 1 = root_entries args" "\<And>j. ?F (2 + j) = arg_bytes (args ! j)" by (simp_all add: mk_files_def)
  have "d_type (disk_inode (image s) 1) = T_DIR \<and> file_on (image s) 1 (root_entries args)" using ty on [of 1] F by simp
  moreover have "d_type (disk_inode (image s) (2 + j)) = T_FILE \<and> d_size (disk_inode (image s) (2 + j)) = of_nat (length (arg_bytes (args ! j))) \<and>
      file_on (image s) (2 + j) (arg_bytes (args ! j))" if "j < length args" for j
    using bspec [OF ty, of "2 + j"] on [of "2 + j"] F(2) [of j] that by simp
  moreover have "file_block (image s) i (p div 512) \<noteq> file_block (image s) j (q div 512)"
    if "1 \<le> i" "i < j" "j < 2 + length args" "p < length (?F i)" "q < length (?F j)" for i j p q
    using files_ok_disjoint [OF ok _ _ _ that(4,5)] that(1-3) by simp
  ultimately show ?thesis using s bm by blast
qed

theorem mkfs_builds_image_witness:
  "\<exists>s. mkfs_main [(ascii ''fs.img'', Some []), (ascii ''_cat'', Some [[1, 2, 3]])] = Ok () s \<and>
    d_type (disk_inode (image s) 2) = T_FILE \<and> d_size (disk_inode (image s) 2) = 3 \<and> file_on (image s) 2 [1, 2, 3]"
proof -
  let ?args = "[(ascii ''_cat'', Some [[1, 2, 3]])]"
  have b: "arg_bytes (ascii ''_cat'', Some [[1, 2, 3]]) = [1, 2, 3]" by (simp add: arg_bytes_def)
  have ok: "list_all arg_ok ?args" by (simp add: arg_ok_def b) (simp add: ascii_def)
  have room: "cost (blocks (length (root_entries ?args))) + (\<Sum>a \<leftarrow> ?args. cost (blocks (length (arg_bytes a)))) \<le> nblocks"
    by (simp add: length_root_entries b cost_def blocks_def)
  obtain s where "mkfs_main ((ascii ''fs.img'', Some []) # ?args) = Ok () s" "\<forall>j < length ?args. d_type (disk_inode (image s) (2 + j)) = T_FILE \<and>
      d_size (disk_inode (image s) (2 + j)) = of_nat (length (arg_bytes (?args ! j))) \<and> file_on (image s) (2 + j) (arg_bytes (?args ! j))"
    using mkfs_builds_image [OF ok _ room, of "ascii ''fs.img''" "[]"] by auto
  then show ?thesis using b by (intro exI [of _ s]) (auto dest: spec [of _ 0])
qed

end
