(* ===== verification/Xv6_Mount.thy ===== *)
theory Xv6_Mount
  imports Xv6_Image Xv6_Machine
begin

text \<open>
  The kernel on an image made by \<open>mkfs\<close>: locking an inode and reading from it returns the bytes of
  the file.  This joins the on-disk format of mkfs.c with the inode layer (fs.c) and the buffer cache (bio.c).
\<close>

subsection \<open>Reading blocks\<close>

text \<open>No buffer is locked and one can be recycled.\<close>

definition idle :: "nat \<Rightarrow> 'z bio_st_scheme \<Rightarrow> bool" where
  "idle i s \<longleftrightarrow> bgood i s \<and> locked_blks s = {} \<and> card (dirty_blks s) < NBUF"

definition same_view :: "'z bio_st_scheme \<Rightarrow> 'z bio_st_scheme \<Rightarrow> bool" where
  "same_view s s' \<longleftrightarrow> content s' = content s \<and> rest s' = rest s"

lemma same_view_trans: "same_view s t \<Longrightarrow> same_view t u \<Longrightarrow> same_view s u"
  by (simp add: same_view_def)

lemma same_view_refl [simp]: "same_view s s"
  by (simp add: same_view_def)

lemma rest_inodes: "rest s' = rest s \<Longrightarrow> inodes s' = inodes (s :: 'z fs_st_scheme)"
proof -
  assume e: "rest s' = rest s"
  have "inodes (rest t) = inodes t" for t :: "'z fs_st_scheme" by (simp add: rest_def)
  then show ?thesis using e by metis
qed

lemma read_idle:
  assumes "idle i s" "n < FSSIZE"
  obtains b s1 s2 where "bread 1 n s = Ok b s1" "b_data (bufs s1 ! b) = content s n" "brelse b s1 = Ok () s2" "rest s1 = rest s"
    "idle i s2" "same_view s s2"
proof -
  obtain b s1 s2 where "bread 1 n s = Ok b s1" "b_data (bufs s1 ! b) = content s n" "brelse b s1 = Ok () s2" "rest s1 = rest s"
    "bgood i s2" "content s2 = content s" "dirty_blks s2 = dirty_blks s" "locked_blks s2 = {}" "rest s2 = rest s"
    using bc.read_block [of i s n] assms by (auto simp: idle_def)
  then show thesis using assms by (intro that [of b s1 s2]) (simp_all add: idle_def same_view_def)
qed

text \<open>The disk as the cache shows it.\<close>

definition view :: "'z bio_st_scheme \<Rightarrow> byte list list" where
  "view s = map (\<lambda>b. content s (of_nat b)) [0..<1000]"

lemma nth_view: "b < 1000 \<Longrightarrow> view s ! b = content s (of_nat b)"
  by (simp add: view_def)

lemma same_view_view: "same_view s s' \<Longrightarrow> view s' = view s"
  by (simp add: same_view_def view_def)

lemma block_less: "b < 1000 \<Longrightarrow> (of_nat b :: uint) < FSSIZE"
  by (simp add: word_less_nat_alt)

subsection \<open>Reading files\<close>

definition open_inode :: "nat \<Rightarrow> dinode \<Rightarrow> 'z fs_st_scheme \<Rightarrow> bool" where
  "open_inode ip d s \<longleftrightarrow> i_dev (inodes s ! ip) = 1 \<and> i_addrs (inodes s ! ip) = d_addrs d"

lemma bmap_ok:
  fixes s :: "'z fs_st_scheme"
  assumes idle: "idle i s" and ok: "files_ok I (view s) D N F fb" and j: "j \<in> I" "k < N j" and ip: "open_inode ip (D j) s"
  obtains s' where "bmap ip (of_nat k) s = Ok (of_nat (adr (view s) (D j) k)) s'" "idle i s'" "same_view s s'"
proof -
  have so: "slots_ok I (view s) D N fb" and sh: "shape (view s) fb" using ok by (simp_all add: files_ok_def)
  note d = slots_okD [OF so j(1)]
  have k: "k < MAXFILE" "used (N j) k" using d(2) j(2) by (simp_all add: used_def)
  have a: "59 \<le> adr (view s) (D j) k" using d(3) [OF _ k(2)] k(1) by simp
  have K: "unat (of_nat k :: uint) = k" using k(1) by simp
  show thesis
  proof (cases "k < NDIRECT")
    case True
    then have "d_addrs (D j) ! k \<noteq> 0" "of_nat (adr (view s) (D j) k) = d_addrs (D j) ! k" using a by (auto simp: adr_direct)
    then have "bmap ip (of_nat k) s = Ok (of_nat (adr (view s) (D j) k)) s" using True ip K by (simp add: bmap_def open_inode_def)
    then show thesis using idle by (rule that) simp
  next
    case False
    define y where "y = adr (view s) (D j) MAXFILE"
    have y: "59 \<le> y" "y < 1000" using d(3) [of MAXFILE] False j(2) shapeD(4) [OF sh] by (simp_all add: y_def used_def)
    have yw: "d_addrs (D j) ! NDIRECT = of_nat y" "of_nat y \<noteq> (0 :: uint)" using y block_nonzero [of y] by (simp_all add: y_def adr_direct)
    have e: "adr (view s) (D j) k = unat (get32 (content s (of_nat y)) (4 * (k - NDIRECT)))"
      using False k(1) y nth_view [OF y(2), of s] by (simp add: adr_indirect flip: y_def)
    then have nz: "get32 (content s (of_nat y)) (4 * (k - NDIRECT)) \<noteq> 0" using a by auto
    have "(of_nat k :: uint) - of_nat NDIRECT = of_nat (k - NDIRECT)" using False by (simp add: of_nat_diff)
    then have k': "unat ((of_nat k :: uint) - of_nat NDIRECT) = k - NDIRECT" using k(1) by simp
    obtain b s1 s2 where r: "bread 1 (of_nat y) s = Ok b s1" "b_data (bufs s1 ! b) = content s (of_nat y)" "brelse b s1 = Ok () s2"
      "rest s1 = rest s" "idle i s2" "same_view s s2"
      by (rule read_idle [OF idle block_less [OF y(2)]])
    have "bmap ip (of_nat k) s = Ok (of_nat (adr (view s) (D j) k)) s2"
      using False k(1) ip K k' yw r(1-3) nz e by (simp add: bmap_def open_inode_def Let_def)
    then show thesis using r(5,6) by (rule that)
  qed
qed

lemma block_slice:
  assumes "n + m \<le> length bs" "n = 512 * k + q" "q + m \<le> 512" "length c = 512" "\<And>t. t < 512 \<Longrightarrow> c ! t = byte_at bs (512 * k + t)"
  shows "slice q m c = take m (drop n bs)"
proof (rule nth_equalityI)
  show "length (slice q m c) = length (take m (drop n bs))" using assms by simp
  fix t assume t: "t < length (slice q m c)"
  then have tm: "t < m" using assms by simp
  then have "slice q m c ! t = byte_at bs (512 * k + (q + t))" using assms by (simp add: nth_slice)
  then show "slice q m c ! t = take m (drop n bs) ! t" using assms(1,2) tm by (simp add: byte_at_def add.assoc)
qed

lemma chunk_nat: "n < 4294967296 \<Longrightarrow> chunk (of_nat n) r = min r (512 - n mod 512)"
  by (simp add: chunk_def)

declare readi_loop.simps [simp del]

lemma readi_loop_ok:
  fixes s :: "'z cons_st_scheme"
  assumes "idle i s" "files_ok I (view s) D N F fb" "j \<in> I" "open_inode ip (D j) s" "n + r \<le> length (F j)"
  shows "\<exists>s'. readi_loop ip (of_nat n) r s = Ok (take r (drop n (F j))) s' \<and> idle i s' \<and> same_view s s'"
  using assms
proof (induction r arbitrary: n s rule: less_induct)
  case (less r)
  note ok = less.prems(2)
  show ?case
  proof (cases "r = 0")
    case True
    then show ?thesis using less.prems(1) by (intro exI [of _ s]) (simp add: readi_loop.simps)
  next
    case False
    define k q m where "k = n div 512" and "q = n mod 512" and "m = min r (512 - q)"
    have q: "n = 512 * k + q" "q < 512" by (simp_all add: k_def q_def)
    have m: "0 < m" "m \<le> r" "q + m \<le> 512" using False q(2) by (auto simp: m_def)
    have so: "slots_ok I (view s) D N fb" and bo: "bytes_ok I (view s) D N F" and sh: "shape (view s) fb" using ok by (simp_all add: files_ok_def)
    have len: "length (F j) \<le> 512 * N j" "N j \<le> MAXFILE" using bo less.prems(3) slots_okD(2) [OF so less.prems(3)] by (auto simp: bytes_ok_def)
    have kN: "k < N j" using len(1) less.prems(5) q m False by linarith
    have n: "n < 4294967296" using len less.prems(5) by linarith
    define a where "a = adr (view s) (D j) k"
    have a: "a < 1000" using files_ok_address [OF ok less.prems(3) kN] by (simp add: a_def)
    obtain s1 where s1: "bmap ip (of_nat k) s = Ok (of_nat a) s1" "idle i s1" "same_view s s1"
      using bmap_ok [OF less.prems(1) ok less.prems(3) kN less.prems(4)] by (auto simp: a_def)
    obtain b s2 s3 where r: "bread 1 (of_nat a) s1 = Ok b s2" "b_data (bufs s2 ! b) = content s1 (of_nat a)" "brelse b s2 = Ok () s3"
      "rest s2 = rest s1" "idle i s3" "same_view s1 s3"
      by (rule read_idle [OF s1(2) block_less [OF a]])
    have v: "view s3 = view s" "inodes s1 = inodes s" "inodes s3 = inodes s"
      using s1(3) r(6) same_view_view [OF same_view_trans [OF s1(3) r(6)]] by (auto simp: same_view_def dest!: rest_inodes)
    have c: "content s1 (of_nat a) = view s ! a" using s1(3) a by (simp add: same_view_def nth_view)
    have piece: "slice q m (content s1 (of_nat a)) = take m (drop n (F j))"
      unfolding c
      by (rule block_slice [where k = k]) (use less.prems(3,5) m q shapeD(2) [OF sh a] bo kN in \<open>auto simp: bytes_ok_def a_def\<close>)
    obtain s' where s': "readi_loop ip (of_nat (n + m)) (r - m) s3 = Ok (take (r - m) (drop (n + m) (F j))) s'" "idle i s'" "same_view s3 s'"
      using less.IH [of "r - m" s3 "n + m"] m r(5) ok v less.prems(3-5) by (auto simp: open_inode_def)
    have "take m (drop n (F j)) @ take (r - m) (drop (n + m) (F j)) = take r (drop n (F j))"
      using m(2) by (simp add: add.commute take_add [symmetric] flip: drop_drop)
    moreover have "i_dev (inodes s1 ! ip) = 1" using less.prems(4) v by (simp add: open_inode_def)
    moreover have "(of_nat n :: uint) div of_nat BSIZE = of_nat k" using word_div_512 [OF n] by (simp add: k_def)
    moreover have "chunk (of_nat n) r = m" "unat (of_nat n :: uint) mod BSIZE = q" using n chunk_nat [OF n] by (simp_all add: m_def q_def)
    ultimately have "readi_loop ip (of_nat n) r s = Ok (take r (drop n (F j))) s'"
      using False s1(1) r(1-3) piece s'(1) by (subst readi_loop.simps) (simp add: Let_def)
    then show ?thesis using s'(2,3) same_view_trans [OF same_view_trans [OF s1(3) r(6)]] by blast
  qed
qed

subsection \<open>Locking an inode\<close>

lemma upd_inode_bio [simp]:
  fixes s :: "'z fs_st_scheme"
  shows "bgood i (upd_inode ip f s) = bgood i s" "content (upd_inode ip f s) = content s" "dirty_blks (upd_inode ip f s) = dirty_blks s"
    "locked_blks (upd_inode ip f s) = locked_blks s" "holds (upd_inode ip f s) = holds s" "disk (upd_inode ip f s) = disk s"
    "idle i (upd_inode ip f s) = idle i s" "sb (upd_inode ip f s) = sb s" "bufs (upd_inode ip f s) = bufs s"
proof -
  show "bgood i (upd_inode ip f s) = bgood i s" "content (upd_inode ip f s) = content s" "dirty_blks (upd_inode ip f s) = dirty_blks s"
    "locked_blks (upd_inode ip f s) = locked_blks s" "holds (upd_inode ip f s) = holds s" "disk (upd_inode ip f s) = disk s"
    "sb (upd_inode ip f s) = sb s" "bufs (upd_inode ip f s) = bufs s"
    by (auto simp: fun_eq_iff bgood_def bio_inv_def disk_ok_def run_ok_def calm_def cli_wf_def upd_inode_def content_def dirty_blks_def locked_blks_def holds_def
      split: option.split)
  then show "idle i (upd_inode ip f s) = idle i s" by (simp add: idle_def)
qed

lemma inode_acquire_free:
  fixes s :: "'z fs_st_scheme"
  assumes "run_ok i s" "\<not> sl_locked (i_lock (inodes s ! ip))"
  shows "inode_acquire ip s = Ok () (put_inodelock ip \<lparr>sl_locked = True, sl_pid = p_pid (procs s ! i)\<rparr> s)"
proof -
  have e: "put_inodelock ip l (enter lk t) = enter lk (put_inodelock ip l t)" for l lk and t :: "'z fs_st_scheme"
    by (simp add: put_inodelock_def upd_inode_def enter_def)
  have c: "calm (put_inodelock ip l t) = calm t" "held (put_inodelock ip l t) = held t" for l and t :: "'z fs_st_scheme"
    by (simp_all add: put_inodelock_def upd_inode_def calm_def cli_wf_def)
  have f: "inodes (enter lk t) = inodes t" for lk and t :: "'z fs_st_scheme" by (simp add: enter_def)
  show ?thesis
    using assms by (simp add: inode_acquire_def acquiresleep_def run_ok_def acquire_calm release_enter e c f enter_simps)
qed

lemma nth_upd_inode: "ip < length (inodes s) \<Longrightarrow> inodes (upd_inode ip f s) ! ip = f (inodes s ! ip)"
  by (simp add: upd_inode_def)

lemma length_upd_inode [simp]: "length (inodes (upd_inode ip f s)) = length (inodes s)"
  by (simp add: upd_inode_def)

lemma ilock_loads:
  fixes s :: "'z fs_st_scheme"
  assumes idle: "idle i s" and ip: "ip < length (inodes s)" "i_dev (inodes s ! ip) = 1" "i_inum (inodes s ! ip) = of_nat n" "n < 200"
    "i_ref (inodes s ! ip) \<ge> 1" "\<not> i_valid (inodes s ! ip)" "\<not> sl_locked (i_lock (inodes s ! ip))"
    and sb: "sb s = mk_super" and d: "d = disk_inode (view s) n" "d_type d \<noteq> 0"
  obtains s' where "ilock ip s = Ok () s'" "idle i s'" "content s' = content s" "i_dev (inodes s' ! ip) = 1"
    "i_addrs (inodes s' ! ip) = d_addrs d" "i_size (inodes s' ! ip) = d_size d" "i_type (inodes s' ! ip) = d_type d"
proof -
  define s0 where "s0 = put_inodelock ip \<lparr>sl_locked = True, sl_pid = p_pid (procs s ! i)\<rparr> s"
  have run: "run_ok i s" using idle by (simp add: idle_def bgood_def)
  have s0: "inode_acquire ip s = Ok () s0" using inode_acquire_free [OF run ip(7)] by (simp add: s0_def)
  have f0: "idle i s0" "content s0 = content s" "sb s0 = mk_super" "i_valid (inodes s0 ! ip) = False" "i_dev (inodes s0 ! ip) = 1"
    "i_inum (inodes s0 ! ip) = of_nat n" "length (inodes s0) = length (inodes s)"
    using idle ip sb by (simp_all add: s0_def put_inodelock_def nth_upd_inode)
  let ?b = "32 + n div 8"
  have b: "?b < 1000" using ip(4) by simp
  obtain c s1 where r: "bread 1 (of_nat ?b) s0 = Ok c s1" "bgood i s1" "holds s1 c (of_nat ?b)" "content s1 = content s0" "disk s1 1 = disk s0 1"
    "dirty_blks s1 = dirty_blks s0" "locked_blks s1 = {of_nat ?b}" "rest s1 = rest s0"
    using bc.rd_law [of i s0 "of_nat ?b"] f0(1) block_less [OF b] unfolding idle_def by auto
  have data: "b_data (bufs s1 ! c) = content s (of_nat ?b)" using bc.get_law [OF r(2,3)] r(4) f0(2) by simp
  have i1: "inodes s1 = inodes s0" using rest_inodes [OF r(8)] .
  define s2 where "s2 = upd_inode ip (load_dinode d) s1"
  have clean: "of_nat ?b \<in> dirty_blks s2 \<or> content s2 (of_nat ?b) = disk s2 1 (of_nat ?b)"
    using bc.consistent [of i s0 "of_nat ?b"] f0(1) r by (simp add: s2_def idle_def)
  obtain s3 where s3: "brelse c s2 = Ok () s3" "bgood i s3" "content s3 = content s2" "dirty_blks s3 = dirty_blks s2" "locked_blks s3 = {}" "rest s3 = rest s2"
    using bc.rel_law [of i s2 c "of_nat ?b"] clean r by (auto simp: s2_def)
  have i3: "inodes s3 ! ip = load_dinode d (inodes s0 ! ip)" "length (inodes s3) = length (inodes s)"
    using rest_inodes [OF s3(6)] i1 f0(7) ip(1) by (simp_all add: s2_def nth_upd_inode)
  have dat: "dinode_at (content s (of_nat ?b)) (64 * (n mod 8)) = d" using d(1) nth_view [OF b, of s] by (simp add: disk_inode_def)
  show thesis
  proof (rule that [of "upd_inode ip (\<lambda>x. x\<lparr>i_valid := True\<rparr>) s3"])
    show "ilock ip s = Ok () (upd_inode ip (\<lambda>x. x\<lparr>i_valid := True\<rparr>) s3)"
      using ip(5) s0 f0 r(1) data dat i1 s3(1) i3 d(2) ip(1) inode_place [OF ip(4)]
      by (simp add: ilock_def s2_def [symmetric] nth_upd_inode load_dinode_def Let_def del: of_nat_add)
  qed (use idle s3 r(4,6) f0 i3 ip(1) in \<open>simp_all add: idle_def s2_def nth_upd_inode load_dinode_def\<close>)
qed

lemma readi_ok:
  fixes s :: "'z cons_st_scheme"
  assumes idle: "idle i s" and ok: "files_ok I (view s) D N F fb" "j \<in> I" and ip: "open_inode ip (D j) s"
    "i_size (inodes s ! ip) = of_nat (length (F j))" "i_type (inodes s ! ip) \<noteq> T_DEV"
    and off: "off \<le> length (F j)" "off + n < 4294967296"
  obtains s' where "readi ip (of_nat off) (of_nat n) s = Ok (int (length (take n (drop off (F j)))), take n (drop off (F j))) s'"
    "idle i s'" "same_view s s'"
proof -
  let ?L = "length (F j)"
  have so: "slots_ok I (view s) D N fb" and bo: "bytes_ok I (view s) D N F" using ok by (simp_all add: files_ok_def)
  have L: "?L \<le> 71680" using bo ok(2) slots_okD(2) [OF so ok(2)] by (auto simp: bytes_ok_def)
  define r where "r = min n (?L - off)"
  have r: "off + r \<le> ?L" "r \<le> 71680" using off(1) L by (simp_all add: r_def)
  obtain s' where s': "readi_loop ip (of_nat off) r s = Ok (take r (drop off (F j))) s'" "idle i s'" "same_view s s'"
    using readi_loop_ok [OF idle ok ip(1) r(1)] by blast
  have u: "unat (of_nat off :: uint) = off" "unat (of_nat n :: uint) = n" "unat (of_nat ?L :: uint) = ?L" "unat (of_nat off + of_nat n :: uint) = off + n"
    using off L by (simp_all flip: of_nat_add)
  have "\<not> of_nat ?L < (of_nat off :: uint)" using u off by (simp add: word_less_nat_alt)
  moreover have "\<not> of_nat off + of_nat n < (of_nat off :: uint)" using u by (simp add: word_less_nat_alt)
  moreover have e: "(if of_nat off + of_nat n > (of_nat ?L :: uint) then of_nat ?L - of_nat off else of_nat n) = (of_nat r :: uint)"
    using u off by (auto simp: r_def word_less_nat_alt of_nat_diff min_def)
  moreover have "unat (of_nat r :: uint) = r" "sint (of_nat r :: uint) = int r" using r(2) sint_of_nat_small [of r] by simp_all
  moreover have "take r (drop off (F j)) = take n (drop off (F j))" "int r = int (length (take n (drop off (F j))))" by (auto simp: r_def min_def)
  ultimately have "readi ip (of_nat off) (of_nat n) s = Ok (int (length (take n (drop off (F j)))), take n (drop off (F j))) s'"
    using ip(3) s'(1) unfolding readi_def Let_def ip(2) e by simp
  then show thesis using s'(2,3) by (rule that)
qed


subsection \<open>The image as the kernel reads it\<close>

lemma mkfs_image:
  assumes mk: "mkfs_main ((name, Some r) # args) = Ok () m" and ok: "list_all arg_ok args" "length args \<le> 198"
    "cost (blocks (length (root_entries args))) + (\<Sum>a \<leftarrow> args. cost (blocks (length (arg_bytes a)))) \<le> nblocks"
  shows "files_ok {1..<2 + length args} (image m) (disk_inode (image m)) (\<lambda>i. blocks (length (mk_files args i))) (mk_files args) (unat (freeblock m))"
    "sb_of (image m ! 1) = mk_super"
    "j < length args \<Longrightarrow> d_type (disk_inode (image m) (2 + j)) = T_FILE \<and> d_size (disk_inode (image m) (2 + j)) = of_nat (length (arg_bytes (args ! j)))"
proof -
  obtain m' where "mkfs_main ((name, Some r) # args) = Ok () m'" "sb_of (image m' ! 1) = mk_super"
    and f: "files_ok {1..<2 + length args} (image m') (disk_inode (image m')) (\<lambda>i. blocks (length (mk_files args i))) (mk_files args) (unat (freeblock m'))"
    and d: "\<forall>i \<in> {1..<2 + length args}. d_type (disk_inode (image m') i) = (if i = 1 then T_DIR else T_FILE) \<and> d_size (disk_inode (image m') i) =
        (if i = 1 then of_nat ((length (root_entries args) div BSIZE + 1) * BSIZE) else of_nat (length (mk_files args i)))"
    using mkfs_main_ok [OF ok] by blast
  moreover from this have "m' = m" using mk by simp
  ultimately show "files_ok {1..<2 + length args} (image m) (disk_inode (image m)) (\<lambda>i. blocks (length (mk_files args i))) (mk_files args) (unat (freeblock m))"
    "sb_of (image m ! 1) = mk_super" by simp_all
  show "d_type (disk_inode (image m) (2 + j)) = T_FILE \<and> d_size (disk_inode (image m) (2 + j)) = of_nat (length (arg_bytes (args ! j)))"
    if "j < length args"
    using bspec [OF d, of "2 + j"] \<open>m' = m\<close> that by (simp add: mk_files_def)
qed

lemma view_image:
  assumes "shape f fb" "\<forall>b < 1000. content s (of_nat b) = f ! b"
  shows "view s = f"
  using assms shapeD(1) [OF assms(1)] by (intro nth_equalityI) (simp_all add: view_def)

text \<open>An unlocked entry of the inode table for inode \<open>n\<close>, not yet read from the disk.\<close>

definition fresh_inode :: "nat \<Rightarrow> nat \<Rightarrow> 'z fs_st_scheme \<Rightarrow> bool" where
  "fresh_inode ip n s \<longleftrightarrow> ip < length (inodes s) \<and> i_dev (inodes s ! ip) = 1 \<and> i_inum (inodes s ! ip) = of_nat n \<and>
     i_ref (inodes s ! ip) \<ge> 1 \<and> \<not> i_valid (inodes s ! ip) \<and> \<not> sl_locked (i_lock (inodes s ! ip))"

definition mount_example :: "byte list list \<Rightarrow> cons_st" where
  "mount_example f = binit (cons_example\<lparr>disk := (\<lambda>_ b. if unat b < 1000 then f ! unat b else replicate BSIZE 0),
     sb := mk_super, inodes := [inode_zero\<lparr>i_dev := 1, i_inum := 2, i_ref := 1\<rparr>]\<rparr>)"

lemma mount_example_ok:
  assumes "shape f fb"
  shows "idle 0 (mount_example f)" "\<forall>b < 1000. content (mount_example f) (of_nat b) = f ! b" "sb (mount_example f) = mk_super"
    "fresh_inode 0 2 (mount_example f)"
proof -
  let ?d = "\<lambda>(_ :: uint) b. if unat b < 1000 then f ! unat b else replicate BSIZE 0"
  let ?s = "cons_example\<lparr>disk := ?d, sb := mk_super, inodes := [inode_zero\<lparr>i_dev := 1, i_inum := 2, i_ref := 1\<rparr>]\<rparr>"
  have z: "bufs ?s = replicate (Suc NBUF) buf_zero" by (simp add: machine_defs)
  have d: "disk_ok ?s" using shapeD(2) [OF assms] by (simp add: disk_ok_def machine_defs)
  note F = binit_fresh [OF z d]
  have f: "\<not> is_blk m (bufs (binit ?s) ! c)" if "c < NBUF" for c m
    using core_eqD(2) [OF F(3) [OF that]] by (simp add: is_blk_def buf_zero_def)
  have r: "run_ok 0 (binit ?s)" by (simp add: run_ok_def binit_eq initlock_def calm_def cli_wf_def machine_defs)
  have "dirty_blks (binit ?s) = {}" "locked_blks (binit ?s) = {}" using f by (auto simp: dirty_blks_def locked_blks_def)
  then show "idle 0 (mount_example f)" using F(1) r by (simp add: idle_def bgood_def mount_example_def)
  have "content (binit ?s) n = disk (binit ?s) 1 n" for n using f by (auto simp: content_def find_Some_iff split: option.split)
  then show "\<forall>b < 1000. content (mount_example f) (of_nat b) = f ! b" by (simp add: mount_example_def binit_eq initlock_def)
  show "sb (mount_example f) = mk_super" "fresh_inode 0 2 (mount_example f)"
    by (simp_all add: mount_example_def fresh_inode_def binit_eq initlock_def inode_zero_def)
qed

text \<open>
  C20: the kernel reads back the files that \<open>mkfs\<close> stored.  On a disk with the image, whatever is cached, \<open>ilock\<close> of
  an unread entry of the inode table for the \<open>j\<close>-th argument loads the inode, and \<open>readi\<close> then returns
  the bytes of that argument from the offset on, cut at the end of the file, and their number; no
  block of the disk changes.
\<close>

theorem kernel_reads_mkfs_file:
  fixes s :: "'z cons_st_scheme"
  assumes mk: "mkfs_main ((name, Some r) # args) = Ok () m" "list_all arg_ok args" "length args \<le> 198"
      "cost (blocks (length (root_entries args))) + (\<Sum>a \<leftarrow> args. cost (blocks (length (arg_bytes a)))) \<le> nblocks"
    and cache: "bgood i s" "locked_blks s = {}" "card (dirty_blks s) < NBUF" "\<forall>b < 1000. content s (of_nat b) = image m ! b"
    and inode: "sb s = sb_of (image m ! 1)" "j < length args" "fresh_inode ip (2 + j) s"
    and off: "off \<le> length (arg_bytes (args ! j))" "off + n < 2 ^ 32"
  shows "\<exists>s1 s2. ilock ip s = Ok () s1 \<and>
    readi ip (of_nat off) (of_nat n) s1 = Ok (int (min n (length (arg_bytes (args ! j)) - off)), take n (drop off (arg_bytes (args ! j)))) s2 \<and>
    content s2 = content s"
proof -
  let ?F = "mk_files args" and ?d = "disk_inode (view s) (2 + j)"
  have files: "files_ok {1..<2 + length args} (image m) (disk_inode (image m)) (\<lambda>i. blocks (length (?F i))) ?F (unat (freeblock m))"
    and sup: "sb s = mk_super" using mkfs_image(1,2) [OF mk] inode(1) by simp_all
  have v: "view s = image m" using view_image [OF _ cache(4)] files by (auto simp: files_ok_def)
  have d: "d_type ?d = T_FILE" "d_size ?d = of_nat (length (?F (2 + j)))" using mkfs_image(3) [OF mk inode(2)] by (simp_all add: v mk_files_def)
  obtain s1 where s1: "ilock ip s = Ok () s1" "idle i s1" "content s1 = content s" "i_dev (inodes s1 ! ip) = 1"
    "i_addrs (inodes s1 ! ip) = d_addrs ?d" "i_size (inodes s1 ! ip) = d_size ?d" "i_type (inodes s1 ! ip) = d_type ?d"
    by (rule ilock_loads [of i s ip "2 + j" ?d]) (use cache inode(2,3) mk(3) sup d in \<open>simp_all add: idle_def fresh_inode_def\<close>)
  have v1: "view s1 = image m" using v s1(3) by (simp add: view_def)
  obtain s2 where s2: "readi ip (of_nat off) (of_nat n) s1 = Ok (int (length (take n (drop off (?F (2 + j))))), take n (drop off (?F (2 + j)))) s2"
    "same_view s1 s2"
    by (rule readi_ok [OF s1(2), where D = "disk_inode (image m)" and F = ?F and j = "2 + j" and ip = ip and off = off and n = n])
      (use files v1 v inode(2) s1 d off in \<open>auto simp: open_inode_def mk_files_def\<close>)
  then show ?thesis using s1(1,3) by (auto simp: mk_files_def same_view_def min.commute)
qed

theorem kernel_reads_mkfs_file_witness:
  "\<exists>m s1 s2. mkfs_main [(ascii ''fs.img'', Some []), (ascii ''_cat'', Some [[1, 2, 3]])] = Ok () m \<and>
    ilock 0 (mount_example (image m)) = Ok () s1 \<and> readi 0 1 10 s1 = Ok (2, [2, 3]) s2"
proof -
  let ?args = "[(ascii ''_cat'', Some [[1, 2, 3]])]"
  have b: "arg_bytes (ascii ''_cat'', Some [[1, 2, 3]]) = [1, 2, 3]" by (simp add: arg_bytes_def)
  have ok: "list_all arg_ok ?args" by (simp add: arg_ok_def b) (simp add: ascii_def)
  have room: "cost (blocks (length (root_entries ?args))) + (\<Sum>a \<leftarrow> ?args. cost (blocks (length (arg_bytes a)))) \<le> nblocks"
    by (simp add: length_root_entries b cost_def blocks_def)
  obtain m where m: "mkfs_main ((ascii ''fs.img'', Some []) # ?args) = Ok () m" using mkfs_main_ok [OF ok _ room, of "ascii ''fs.img''" "[]"] by auto
  note I = mkfs_image [OF m ok _ room]
  have "shape (image m) (unat (freeblock m))" using I(1) by (simp add: files_ok_def)
  note E = mount_example_ok [OF this]
  have "\<exists>s1 s2. ilock 0 (mount_example (image m)) = Ok () s1 \<and> readi 0 (of_nat 1) (of_nat 10) s1 =
      Ok (int (min 10 (length (arg_bytes (?args ! 0)) - 1)), take 10 (drop 1 (arg_bytes (?args ! 0)))) s2 \<and> content s2 = content (mount_example (image m))"
    by (rule kernel_reads_mkfs_file [OF m ok _ room, of 0]) (use E I(2) b in \<open>auto simp: idle_def\<close>)
  then show ?thesis using m b by auto
qed

end
