(* ===== verification/Spec2Isabelle.thy ===== *)
theory Spec2Isabelle
  imports Xv6_Lazy Xv6_Pipe Xv6_Sched Xv6_Wakeup Xv6_Grep Xv6_Umalloc Xv6_Shrun Xv6_Kbd Xv6_Mount
begin

text \<open>
  A verification development for the xv6 teaching kernel and its user programs (src/).

  \<^bold>\<open>The program.\<close>  xv6 is a Unix kernel for x86 multiprocessors with lazy heap allocation, an
  alarm system call and a date system call added.  Traps (trap.c) enter the system-call table
  (syscall.c), whose calls work on processes (proc.c), virtual memory (vm.c over the page allocator
  kalloc.c), open files (file.c, pipe.c, console.c) and the file system (fs.c), which reads and
  writes blocks through a write-ahead log (log.c), a buffer cache (bio.c) and a disk driver
  (ide.c).  Spin locks (spinlock.c) and sleep locks (sleeplock.c) protect the shared tables.

  \<^bold>\<open>How code becomes definitions.\<close>  Kernel state is one record that every theory extends with the
  globals of its files: processor and lock state (Xv6_Lock), memory (Xv6_Kalloc), segment state
  (Xv6_Vm), process table (Xv6_Proc), buffers and disk (Xv6_Bio), log (Xv6_Log), inodes (Xv6_Inode),
  console (Xv6_Console), open files and pipes (Xv6_File), and traps (Xv6_Trap).  A routine is a
  function of the same name from the state to a result: \<open>Ok\<close> with a value and a state, \<open>Panic\<close>, or
  \<open>Sleep\<close> with the channel, which is where a context switch leaves the routine.  \<open>unsigned int\<close> and
  pointers are 32-bit words and wrap; bytes are 8-bit words; physical memory is a map from addresses
  to bytes in which page tables and the free list live.  The laws of the result type, of loops over
  ranges and of byte encodings are in Xv6_Prelude.

  \<^bold>\<open>Theories.\<close>
  \<^item> Xv6_Lock (spinlock.c): interrupt nesting, locks, and \<open>acquire\<close>/\<open>release\<close> as an interleaving
    machine on any number of CPUs.  Shown: mutual exclusion.
  \<^item> Xv6_String (string.c), Xv6_Mmu (mmu.h, memlayout.h), Xv6_Kalloc (kalloc.c), Xv6_Vm (vm.c).
    Shown: \<open>memmove\<close>, \<open>memset\<close>, string copies; the free list of pages.
  \<^item> Xv6_Paging (page tables in memory as a map from pages to entries) and Xv6_Lazy (the page-fault
    case of trap.c).  Shown: \<open>mappages\<close> maps a run of pages and nothing else; a fault on an absent page adds one
    cleared page, and a fault on a present one panics.
  \<^item> Xv6_Proc (proc.c), Xv6_Sched, Xv6_Wakeup.  Shown: a process runs on one CPU at a time, in every
    interleaving of the critical sections; \<open>sleep\<close> and \<open>wakeup\<close> lose no wakeup, and the woken
    process proceeds.
  \<^item> Xv6_Bio (bio.c, ide.c, memide.c, sleeplock.c), Xv6_Disk, Xv6_Bcache, Xv6_Cache.  Shown: the
    cache is a store of blocks behind the locale interface \<open>block_store\<close>; reads return the contents,
    writes go through, the least recently used buffer is recycled.
  \<^item> Xv6_Log (log.c), Xv6_Recovery, Xv6_Logops.  Shown: a commit and a recovery that stop between any
    two disk writes leave all or nothing of a transaction; reservation, absorption and the end of an
    operation.
  \<^item> Xv6_Inode, Xv6_Fs (fs.c), Xv6_File (file.c, pipe.c), Xv6_Pipe, Xv6_Sysfile (sysfile.c),
    Xv6_Exec (exec.c), Xv6_User (syscall.c), Xv6_Trap (trap.c, sysproc.c, fork and exit),
    Xv6_Console (console.c, uart.c).  Shown: a pipe is a bounded queue of bytes (locale
    \<open>bounded_queue\<close>).  Xv6_Machine holds a concrete kernel state for the examples.
  \<^item> Xv6_Kbd (kbd.c, kbd.h, input of uart.c).  The keyboard controller is the list of bytes it delivers.
    Shown: whatever is typed, the interrupt returns, the cursor stays on the screen and the input
    ring in order.
  \<^item> Xv6_Mkfs (mkfs.c), Xv6_Image, Xv6_Mount.  The disk image is a list of sectors, an argument is its name and
    what its reads deliver, or nothing if it cannot be opened.  Shown: the image holds the directory and the files
    on blocks of their own, marked in the bitmap, and the kernel's \<open>ilock\<close> and \<open>readi\<close> read them back.
  \<^item> Xv6_Ulib (ulib.c, printf.c), Xv6_Umalloc (umalloc.c), Xv6_Grep (grep.c): the user library and
    grep.  Shown: the matcher decides the language of its pattern, and which lines grep prints;
    \<open>malloc\<close> and \<open>free\<close> keep the free list and account for every byte.
  \<^item> Xv6_Shell, Xv6_Shparse, Xv6_Shrun (sh.c).  Shown: the parser returns, inverts the printing of
    commands, and the processes of a command line are wired as its syntax says.

  \<^bold>\<open>Bounds and fuel.\<close>  Loops over lists of the kernel that could be cyclic in a corrupted state
  carry a bound: a walk over the buffer list stops after one step per buffer and the list head, the
  disk queue after one step per buffer, and the theorems about them show that the bound is never the
  reason to stop.  Loops of user programs without such a bound are partial functions, and the
  theorems state that they return.

  \<^bold>\<open>Not modelled.\<close>  Assembler (entry code, \<open>swtch\<close>, trap stubs); the programming of interrupt
  controllers (lapic.c, ioapic.c, picirq.c), which are sequences of register writes with an effect in hardware;
  booting (main.c, bootmain.c, mp.c), which works on memory prepared by firmware and assembler; the short user programs
  around single system calls (cat.c, ls.c, wc.c and the like); the test programs (usertests.c, stressfs.c, forktest.c)
  and ph.c, an exercise for the host.
\<close>

end
